(* ===== verification/Prelude.thy ===== *)
theory Prelude
  imports Main "HOL-Library.Word"
begin

text \<open>
  What every component of the unit-test harness under src/unit shares: the
  status codes the functions return, the outcome of a C function that may have
  undefined behaviour, the allocator, the narrowing of C integers, and generic
  lemmas on lists.

  \<^item> A \<open>char *\<close> that may be NULL is a \<open>string option\<close>; the characters are
    those before the terminating NUL byte.
  \<^item> The result \<open>None\<close> of an \<open>option\<close> is "the C program does not get past
    this call": undefined behaviour, a failed \<open>assert\<close>, \<open>abort\<close> or a loop
    that never ends. Every definition says which of them it means.
  \<^item> An allocation either works or returns NULL. A function that allocates
    takes the list of the outcomes of its next allocations and returns what is
    left of it; when the list is used up every further allocation works, so
    \<open>[]\<close> is the machine with enough memory.
\<close>

section \<open>Status codes\<close>

text \<open>
  The codes of pmix_common.h the harness names. Their numeric values are not
  under src/; the code only relies on them being different, and on
  \<open>PMIX_SUCCESS\<close> being 0 (pmix_test.c checks it when it starts).
\<close>

datatype pmix_status =
    PMIX_SUCCESS
  | PMIX_ERROR
  | PMIX_ERR_BAD_PARAM
  | PMIX_ERR_OUT_OF_RESOURCE
  | PMIX_ERR_NOT_FOUND
  | PMIX_ERR_PROC_ENTRY_NOT_FOUND
  | PMIX_ERR_RESOURCE_BUSY
  | PMIX_ERR_TIMEOUT
  | PMIX_ERR_LOST_PEER_CONNECTION
  | PMIX_OPERATION_SUCCEEDED
  | PMIX_MODEL_DECLARED
  | PMIX_ERR_PROC_REQUESTED_ABORT
  | PMIX_OTHER int

section \<open>C integers\<close>

type_synonym u32 = "32 word"
type_synonym u64 = "64 word"
type_synonym pmix_rank_t = "32 word"

definition int_max :: int where
  "int_max = 2147483647"

definition int_min :: int where
  "int_min = - 2147483648"

text \<open>The conversion of an integer to the C type \<open>int\<close> (32 bits, two's complement).\<close>

definition int32 :: "int \<Rightarrow> int" where
  "int32 v = sint (word_of_int v :: 32 word)"

lemma int32_id: "int_min \<le> v \<Longrightarrow> v \<le> int_max \<Longrightarrow> int32 v = v"
  by (simp add: int32_def int_min_def int_max_def sint_sbintrunc' signed_take_bit_int_eq_self)

lemma int32_nat [simp]: "n < 2147483648 \<Longrightarrow> int32 (int n) = int n"
  by (rule int32_id) (auto simp: int_min_def int_max_def)

section \<open>Names of the PMIx headers\<close>

text \<open>\<open>pmix_proc_t\<close>, and the constants of pmix_common.h (not under src/) the harness uses.\<close>

record proc =
  nspace :: string
  prank :: pmix_rank_t

record pmix_consts =
  max_nslen :: nat                        \<comment> \<open>\<open>PMIX_MAX_NSLEN\<close>\<close>
  max_keylen :: nat                       \<comment> \<open>\<open>PMIX_MAX_KEYLEN\<close>\<close>
  rank_undef :: pmix_rank_t               \<comment> \<open>\<open>PMIX_RANK_UNDEF\<close>\<close>
  rank_wildcard :: pmix_rank_t            \<comment> \<open>\<open>PMIX_RANK_WILDCARD\<close>\<close>

text \<open>The keys and values of the information a server registers for a namespace.\<close>

datatype job_key =
    PMIX_JOB_SIZE
  | PMIX_UNIV_SIZE
  | PMIX_SPAWNED
  | PMIX_LOCAL_SIZE
  | PMIX_LOCAL_PEERS
  | PMIX_NODE_MAP
  | PMIX_PROC_MAP
  | PMIX_APPNUM

datatype job_value = Uint32 u32 | Text string | Regex_text string

section \<open>The allocator\<close>

type_synonym allocs = "bool list"

fun next_alloc :: "allocs \<Rightarrow> bool \<times> allocs" where
  "next_alloc [] = (True, [])"
| "next_alloc (b # ms) = (b, ms)"

section \<open>Lists\<close>

text \<open>Reading an array of pointers up to its NULL entry.\<close>

fun upto_null :: "'a option list \<Rightarrow> 'a list" where
  "upto_null [] = []"
| "upto_null (None # cs) = []"
| "upto_null (Some x # cs) = x # upto_null cs"

lemma upto_null_map_Some [simp]: "upto_null (map Some xs @ None # cs) = xs"
  by (induction xs) auto

lemma upto_null_append: "upto_null (map Some xs @ cs) = xs @ upto_null cs"
  by (induction xs) auto

lemma upt_split: "a \<le> b \<Longrightarrow> b \<le> c \<Longrightarrow> [a..<c] = [a..<b] @ [b..<c]"
  using upt_add_eq_append [of a b "c - b"] by simp

lemma take_Suc_drop_nth: "i < length xs \<Longrightarrow> take (Suc 0) (drop i xs) = [xs ! i]"
  by (simp add: take_Suc hd_drop_conv_nth)

lemma upto_ints: "[int a..int b - 1] = map int [a..<b]"
  by (rule nth_equalityI) auto

text \<open>Counting by a sum of ones.\<close>

lemma sum_list_count: "sum_list (map (\<lambda>x. if P x then 0 else 1) xs) = length (filter (\<lambda>x. \<not> P x) xs)"
  by (induction xs) auto

section \<open>Step relations\<close>

text \<open>
  What the state machines of the components share: a step keeps an invariant, and relates the
  state before it to the state after it by a preorder (an order of progress, or what never changes);
  so does every sequence of steps.
\<close>

locale step_relation =
  fixes step :: "'s \<Rightarrow> 's \<Rightarrow> bool"
    and inv :: "'s \<Rightarrow> bool"
    and rel :: "'s \<Rightarrow> 's \<Rightarrow> bool"
  assumes keeps: "step s t \<Longrightarrow> inv s \<Longrightarrow> inv t \<and> rel s t"
    and rel_refl: "rel s s"
    and rel_trans: "rel s t \<Longrightarrow> rel t u \<Longrightarrow> rel s u"
begin

lemma steps_keep: "step\<^sup>*\<^sup>* s t \<Longrightarrow> inv s \<Longrightarrow> inv t \<and> rel s t"
  by (induction rule: rtranclp_induct) (auto intro: rel_refl rel_trans dest: keeps)

end

end
