(* ===== verification/Argv.thy ===== *)
theory Argv
  imports Prelude
begin

text \<open>
  The NULL-terminated string arrays of src/unit/argv.c. A \<open>char **\<close> that may
  be NULL is an \<open>argv\<close>: \<open>None\<close> for NULL, \<open>Some xs\<close> for the strings before the
  NULL entry. The functions that move entries inside the array work on its
  cells (\<open>string option list\<close>, \<open>None\<close> for a NULL cell) as the C loops do; the
  lemmas show that they compute the list operation one expects. Every
  allocation may fail (see \<open>Prelude\<close>), and the failure branches are those of the
  code, including the allocations it does not check.
\<close>

type_synonym argv = "string list option"

fun strings :: "argv \<Rightarrow> string list" where
  "strings None = []"
| "strings (Some xs) = xs"

section \<open>Operations\<close>

definition pmix_argv_count :: "argv \<Rightarrow> int" where
  "pmix_argv_count argv = int (length (strings argv))"

definition pmix_argv_append_nosize :: "allocs \<Rightarrow> argv \<Rightarrow> string \<Rightarrow> pmix_status \<times> argv \<times> allocs" where
  "pmix_argv_append_nosize ms argv arg =
     (let (ok, ms) = next_alloc ms in
      if \<not> ok then (PMIX_ERR_OUT_OF_RESOURCE, None, ms)
      else
        let (ok, ms) = next_alloc ms in
        if \<not> ok then (PMIX_ERR_OUT_OF_RESOURCE, Some (strings argv), ms)
        else (PMIX_SUCCESS, Some (strings argv @ [arg]), ms))"

definition pmix_argv_append ::
  "allocs \<Rightarrow> int \<Rightarrow> argv \<Rightarrow> string \<Rightarrow> pmix_status \<times> int \<times> argv \<times> allocs" where
  "pmix_argv_append ms argc argv arg =
     (case pmix_argv_append_nosize ms argv arg of (rc, argv', ms') \<Rightarrow>
        if rc \<noteq> PMIX_SUCCESS then (rc, argc, argv', ms')
        else (PMIX_SUCCESS, pmix_argv_count argv', argv', ms'))"

text \<open>
  The loop \<open>for (i = n-1; i >= 0; --i) a[start+k+i] = a[start+i]\<close> that moves a suffix
  up by \<open>k\<close> cells, and the loop that moves \<open>n\<close> cells down by \<open>k\<close>.
\<close>

fun move_up :: "nat \<Rightarrow> nat \<Rightarrow> nat \<Rightarrow> 'a list \<Rightarrow> 'a list" where
  "move_up start k 0 cs = cs"
| "move_up start k (Suc i) cs = move_up start k i (cs[start + k + i := cs ! (start + i)])"

fun move_down :: "nat \<Rightarrow> nat \<Rightarrow> nat \<Rightarrow> 'a list \<Rightarrow> 'a list" where
  "move_down i k 0 cs = cs"
| "move_down i k (Suc n) cs = move_down (Suc i) k n (cs[i := cs ! (i + k)])"

text \<open>\<open>strdup\<close> each string into the cells from index \<open>i\<close> on; a failed one stores NULL.\<close>

fun store_dups :: "allocs \<Rightarrow> nat \<Rightarrow> string list \<Rightarrow> string option list \<Rightarrow> string option list \<times> allocs" where
  "store_dups ms i [] cs = (cs, ms)"
| "store_dups ms i (s # ss) cs =
     (let (ok, ms) = next_alloc ms in
      store_dups ms (Suc i) ss (cs[i := (if ok then Some s else None)]))"

text \<open>The cells of an array after \<open>realloc\<close> made room for \<open>k\<close> more entries.\<close>

definition grown_cells :: "nat \<Rightarrow> string list \<Rightarrow> string option list" where
  "grown_cells k xs = map Some xs @ replicate (Suc k) None"

definition pmix_argv_prepend_nosize :: "allocs \<Rightarrow> argv \<Rightarrow> string \<Rightarrow> pmix_status \<times> argv \<times> allocs" where
  "pmix_argv_prepend_nosize ms argv arg =
     (let (ok, ms) = next_alloc ms in
      if \<not> ok then (PMIX_ERR_OUT_OF_RESOURCE, None, ms)
      else (case argv of
          None \<Rightarrow>
            (case store_dups ms 0 [arg] [None, None] of (cs, ms') \<Rightarrow>
               (PMIX_SUCCESS, Some (upto_null cs), ms'))
        | Some xs \<Rightarrow>
            (let argc = length xs;
                 cs = (grown_cells 1 xs)[argc + 1 := None];
                 cs = move_up 0 1 argc cs
             in case store_dups ms 0 [arg] cs of (cs', ms') \<Rightarrow>
                  (PMIX_SUCCESS, Some (upto_null cs'), ms'))))"

fun find_index :: "string \<Rightarrow> nat \<Rightarrow> string list \<Rightarrow> nat option" where
  "find_index arg i [] = None"
| "find_index arg i (x # xs) = (if arg = x then Some i else find_index arg (Suc i) xs)"

definition pmix_argv_append_unique_idx ::
  "allocs \<Rightarrow> int \<Rightarrow> argv \<Rightarrow> string \<Rightarrow> pmix_status \<times> int \<times> argv \<times> allocs" where
  "pmix_argv_append_unique_idx ms idx argv arg =
     (case (case argv of None \<Rightarrow> None | Some xs \<Rightarrow> find_index arg 0 xs) of
        Some i \<Rightarrow> (PMIX_SUCCESS, int i, argv, ms)
      | None \<Rightarrow>
          (case pmix_argv_append_nosize ms argv arg of (rc, argv', ms') \<Rightarrow>
             if rc \<noteq> PMIX_SUCCESS then (rc, idx, argv', ms')
             else (PMIX_SUCCESS, pmix_argv_count argv' - 1, argv', ms')))"

definition pmix_argv_append_unique_nosize ::
  "allocs \<Rightarrow> argv \<Rightarrow> string \<Rightarrow> pmix_status \<times> argv \<times> allocs" where
  "pmix_argv_append_unique_nosize ms argv arg =
     (case argv of
        None \<Rightarrow> pmix_argv_append_nosize ms argv arg
      | Some xs \<Rightarrow>
          (if find_index arg 0 xs \<noteq> None then (PMIX_SUCCESS, argv, ms)
           else pmix_argv_append_nosize ms argv arg))"

text \<open>
  \<open>pmix_argv_split_inter\<close>. The copy of the \<open>arglen\<close> characters of an argument is
  \<open>pmix_strncpy\<close>, a function of the PMIx library (not under src/): it is the
  parameter \<open>cp\<close>. The 128-byte buffer \<open>arg\<close> is used for arguments of at most 127
  characters, a \<open>malloc\<close>ed one for longer ones.
\<close>

definition ARGSIZE :: nat where
  "ARGSIZE = 128"

definition split_arg ::
  "(string \<Rightarrow> nat \<Rightarrow> string) \<Rightarrow> char \<Rightarrow> bool \<Rightarrow> allocs \<Rightarrow> string \<Rightarrow> argv \<Rightarrow> pmix_status \<times> argv \<times> allocs" where
  "split_arg cp delimiter include_empty ms src argv =
     (let p = dropWhile (\<lambda>c. c \<noteq> delimiter) src;
          arglen = length (takeWhile (\<lambda>c. c \<noteq> delimiter) src)
      in if arglen = 0 then
           (if include_empty then pmix_argv_append_nosize ms argv []
            else (PMIX_SUCCESS, argv, ms))
         else if p = [] then pmix_argv_append_nosize ms argv src
         else if arglen > ARGSIZE - 1 then
           (let (ok, ms) = next_alloc ms in
            if \<not> ok then (PMIX_ERR_OUT_OF_RESOURCE, argv, ms)
            else pmix_argv_append_nosize ms argv (take arglen (cp src arglen)))
         else pmix_argv_append_nosize ms argv (take arglen (cp src arglen)))"

function split_loop ::
  "(string \<Rightarrow> nat \<Rightarrow> string) \<Rightarrow> char \<Rightarrow> bool \<Rightarrow> allocs \<Rightarrow> string \<Rightarrow> argv \<Rightarrow> argv \<times> allocs" where
  "split_loop cp delimiter include_empty ms src argv =
     (if src = [] then (argv, ms)
      else (case split_arg cp delimiter include_empty ms src argv of (rc, argv', ms') \<Rightarrow>
        if rc \<noteq> PMIX_SUCCESS then (None, ms')
        else
          let p = dropWhile (\<lambda>c. c \<noteq> delimiter) src in
          if p = [] then (argv', ms')
          else split_loop cp delimiter include_empty ms' (tl p) argv'))"
  by pat_completeness auto
termination
proof (relation "measure (\<lambda>(cp, d, ie, ms, src, argv). length src)", goal_cases)
  case (2 cp delimiter include_empty ms src argv)
  then have "0 < length src" by simp
  with length_dropWhile_le [of "\<lambda>c. c \<noteq> delimiter" src]
  have "length (dropWhile (\<lambda>c. c \<noteq> delimiter) src) - 1 < length src" by linarith
  with 2 show ?case by simp
qed simp

declare split_loop.simps [simp del]

definition pmix_argv_split_inter ::
  "(string \<Rightarrow> nat \<Rightarrow> string) \<Rightarrow> allocs \<Rightarrow> string option \<Rightarrow> char \<Rightarrow> bool \<Rightarrow> argv \<times> allocs" where
  "pmix_argv_split_inter cp ms src delimiter include_empty =
     (case src of None \<Rightarrow> (None, ms)
      | Some s \<Rightarrow> split_loop cp delimiter include_empty ms s None)"

definition pmix_argv_split ::
  "(string \<Rightarrow> nat \<Rightarrow> string) \<Rightarrow> allocs \<Rightarrow> string option \<Rightarrow> char \<Rightarrow> argv \<times> allocs" where
  "pmix_argv_split cp ms src delimiter = pmix_argv_split_inter cp ms src delimiter False"

definition pmix_argv_split_with_empty ::
  "(string \<Rightarrow> nat \<Rightarrow> string) \<Rightarrow> allocs \<Rightarrow> string option \<Rightarrow> char \<Rightarrow> argv \<times> allocs" where
  "pmix_argv_split_with_empty cp ms src delimiter = pmix_argv_split_inter cp ms src delimiter True"

text \<open>
  The loop of the two joins: it writes \<open>n\<close> characters, taking them from the string
  \<open>pp\<close> and moving to the next one at its end, where it writes the delimiter.
  \<open>pp = None\<close> is the array's NULL entry, which must not be read.
\<close>

fun join_fill :: "char \<Rightarrow> nat \<Rightarrow> string option \<Rightarrow> string list \<Rightarrow> string option" where
  "join_fill d 0 pp ps = Some []"
| "join_fill d (Suc n) None ps = None"
| "join_fill d (Suc n) (Some []) [] = map_option ((#) d) (join_fill d n None [])"
| "join_fill d (Suc n) (Some []) (q # qs) = map_option ((#) d) (join_fill d n (Some q) qs)"
| "join_fill d (Suc n) (Some (c # cs)) ps = map_option ((#) c) (join_fill d n (Some cs) ps)"

definition joined_len :: "string list \<Rightarrow> nat" where
  "joined_len xs = (\<Sum>x\<leftarrow>xs. length x + 1)"

text \<open>
  The outer \<open>option\<close> is undefined behaviour, the inner one the returned pointer
  (\<open>None\<close> for NULL).
\<close>

definition strdup :: "allocs \<Rightarrow> string \<Rightarrow> string option \<times> allocs" where
  "strdup ms s = (let (ok, ms) = next_alloc ms in (if ok then Some s else None, ms))"

definition pmix_argv_join :: "allocs \<Rightarrow> argv \<Rightarrow> char \<Rightarrow> (string option \<times> allocs) option" where
  "pmix_argv_join ms argv delimiter =
     (case strings argv of
        [] \<Rightarrow> Some (strdup ms [])
      | x # xs \<Rightarrow>
          (let str_len = joined_len (x # xs);
               (ok, ms) = next_alloc ms
           in if \<not> ok then Some (None, ms)
              else (case join_fill delimiter (str_len - 1) (Some x) xs of
                      None \<Rightarrow> None
                    | Some str \<Rightarrow> Some (Some str, ms))))"

definition pmix_argv_join_range ::
  "allocs \<Rightarrow> argv \<Rightarrow> u64 \<Rightarrow> u64 \<Rightarrow> char \<Rightarrow> (string option \<times> allocs) option" where
  "pmix_argv_join_range ms argv start end delimiter =
     (if strings argv = [] then Some (strdup ms [])
      else if int32 (uint start) > pmix_argv_count argv then Some (strdup ms [])
      else if unat start > length (strings argv) then None
      else
        (let ys = drop (unat start) (strings argv);
             str_len = joined_len (take (unat end - unat start) ys);
             (ok, ms) = next_alloc ms
         in if \<not> ok then Some (None, ms)
            else if str_len = 0 then None
            else (case join_fill delimiter (str_len - 1) (Some (hd ys)) (tl ys) of
                    None \<Rightarrow> None
                  | Some str \<Rightarrow> Some (Some str, ms))))"

text \<open>\<open>sizeof(char *)\<close> is 8 on the LP64 targets.\<close>

definition pmix_argv_len :: "argv \<Rightarrow> nat" where
  "pmix_argv_len argv =
     (case argv of None \<Rightarrow> 0
      | Some xs \<Rightarrow> 8 + (\<Sum>x\<leftarrow>xs. length x + 1 + 8))"

fun copy_loop :: "allocs \<Rightarrow> int \<Rightarrow> argv \<Rightarrow> string list \<Rightarrow> argv \<times> allocs" where
  "copy_loop ms dupc dupv [] = (dupv, ms)"
| "copy_loop ms dupc dupv (x # xs) =
     (case pmix_argv_append ms dupc dupv x of (rc, dupc', dupv', ms') \<Rightarrow>
        if rc \<noteq> PMIX_SUCCESS then (None, ms') else copy_loop ms' dupc' dupv' xs)"

text \<open>The first \<open>malloc\<close> is not checked: writing \<open>dupv[0]\<close> through NULL is a fault.\<close>

definition pmix_argv_copy :: "allocs \<Rightarrow> argv \<Rightarrow> (argv \<times> allocs) option" where
  "pmix_argv_copy ms argv =
     (case argv of None \<Rightarrow> Some (None, ms)
      | Some xs \<Rightarrow>
          (let (ok, ms) = next_alloc ms in
           if \<not> ok then None else Some (copy_loop ms 0 (Some []) xs)))"

text \<open>\<open>start + num_to_delete\<close> is a signed addition; its overflow is undefined.\<close>

definition pmix_argv_delete ::
  "int \<Rightarrow> argv \<Rightarrow> int \<Rightarrow> int \<Rightarrow> (pmix_status \<times> int \<times> argv) option" where
  "pmix_argv_delete argc argv start num_to_delete =
     (if argv = None \<or> num_to_delete = 0 then Some (PMIX_SUCCESS, argc, argv)
      else
        let count = pmix_argv_count argv in
        if start > count then Some (PMIX_SUCCESS, argc, argv)
        else if start < 0 \<or> num_to_delete < 0 then Some (PMIX_ERR_BAD_PARAM, argc, argv)
        else if start + num_to_delete > int_max then None
        else
          let suffix_count = max 0 (count - (start + num_to_delete));
              cs = move_down (nat start) (nat num_to_delete) (nat suffix_count)
                     (map Some (strings argv) @ [None]);
              cs = cs[nat (start + suffix_count) := None]
          in Some (PMIX_SUCCESS, argc - num_to_delete, Some (upto_null cs)))"

fun append_all :: "allocs \<Rightarrow> int \<Rightarrow> argv \<Rightarrow> string list \<Rightarrow> argv \<times> allocs" where
  "append_all ms count target [] = (target, ms)"
| "append_all ms count target (s # ss) =
     (case pmix_argv_append ms count target s of (rc, count', target', ms') \<Rightarrow>
        append_all ms' count' target' ss)"

text \<open>The result of \<open>realloc\<close> is not checked: a failure faults at the next write.\<close>

definition pmix_argv_insert ::
  "allocs \<Rightarrow> argv \<Rightarrow> int \<Rightarrow> argv \<Rightarrow> (pmix_status \<times> argv \<times> allocs) option" where
  "pmix_argv_insert ms target start source =
     (if target = None \<or> start < 0 then Some (PMIX_ERR_BAD_PARAM, target, ms)
      else (case source of None \<Rightarrow> Some (PMIX_SUCCESS, target, ms)
        | Some ss \<Rightarrow>
          (let target_count = pmix_argv_count target; source_count = length ss in
           if start > target_count then
             (case append_all ms target_count target ss of (target', ms') \<Rightarrow>
                Some (PMIX_SUCCESS, target', ms'))
           else
             let (ok, ms) = next_alloc ms in
             if \<not> ok then None
             else
               let suffix_count = nat (target_count - start);
                   cs = grown_cells source_count (strings target);
                   cs = move_up (nat start) source_count suffix_count cs;
                   cs = cs[nat start + suffix_count + source_count := None];
                   (cs, ms) = store_dups ms (nat start) ss cs
               in Some (PMIX_SUCCESS, Some (upto_null cs), ms))))"

definition pmix_argv_insert_element ::
  "allocs \<Rightarrow> argv \<Rightarrow> int \<Rightarrow> string option \<Rightarrow> (pmix_status \<times> argv \<times> allocs) option" where
  "pmix_argv_insert_element ms target location source =
     (if target = None \<or> location < 0 then Some (PMIX_ERR_BAD_PARAM, target, ms)
      else (case source of None \<Rightarrow> Some (PMIX_SUCCESS, target, ms)
        | Some s \<Rightarrow>
          (let target_count = pmix_argv_count target in
           if location > target_count then
             (case pmix_argv_append ms target_count target s of (rc, count', target', ms') \<Rightarrow>
                Some (PMIX_SUCCESS, target', ms'))
           else
             let (ok, ms) = next_alloc ms in
             if \<not> ok then None
             else
               let suffix_count = nat (target_count - location);
                   cs = grown_cells 1 (strings target);
                   cs = move_up (nat location) 1 suffix_count cs;
                   cs = cs[nat location + suffix_count + 1 := None];
                   (cs, ms) = store_dups ms (nat location) [s] cs
               in Some (PMIX_SUCCESS, Some (upto_null cs), ms))))"


section \<open>The loops\<close>

lemma length_move_up [simp]: "length (move_up s k n cs) = length cs"
  by (induction s k n cs rule: move_up.induct) auto

lemma nth_move_up:
  "s + k + n \<le> length cs \<Longrightarrow> j < length cs \<Longrightarrow>
   move_up s k n cs ! j = (if s + k \<le> j \<and> j < s + k + n then cs ! (j - k) else cs ! j)"
proof (induction s k n cs rule: move_up.induct)
  case (2 s k i cs)
  then have "move_up s k (Suc i) cs ! j =
      (if s + k \<le> j \<and> j < s + k + i then cs[s + k + i := cs ! (s + i)] ! (j - k)
       else cs[s + k + i := cs ! (s + i)] ! j)"
    by simp
  moreover have "j = s + k + i \<or> j < s + k + i \<or> s + k + i < j" by linarith
  ultimately show ?case using "2.prems" by (auto simp: nth_list_update)
qed auto

lemma length_move_down [simp]: "length (move_down s k n cs) = length cs"
  by (induction s k n cs rule: move_down.induct) auto

lemma nth_move_down:
  "n = 0 \<or> s + k + n \<le> length cs \<Longrightarrow> 0 < k \<Longrightarrow> j < length cs \<Longrightarrow>
   move_down s k n cs ! j = (if s \<le> j \<and> j < s + n then cs ! (j + k) else cs ! j)"
proof (induction s k n cs rule: move_down.induct)
  case (2 s k n cs)
  then have "move_down s k (Suc n) cs ! j =
      (if Suc s \<le> j \<and> j < Suc s + n then cs[s := cs ! (s + k)] ! (j + k)
       else cs[s := cs ! (s + k)] ! j)"
    by simp
  moreover have "j < s \<or> j = s \<or> s < j" by linarith
  ultimately show ?case using "2.prems" by (auto simp: nth_list_update)
qed auto

lemma store_dups_Nil: "store_dups [] i ss cs = (take i cs @ map Some ss @ drop (i + length ss) cs, [])"
  if "i + length ss \<le> length cs"
  using that
proof (induction ss arbitrary: i cs)
  case (Cons s ss)
  have "take (Suc i) (cs[i := Some s]) = take i cs @ [Some s]"
    using Cons.prems by (simp add: take_Suc_conv_app_nth)
  with Cons show ?case by simp
qed simp

text \<open>Growing an array by \<open>k\<close> cells and moving the suffix from \<open>s\<close> on out of the way.\<close>

lemma grown_moved:
  assumes "s \<le> length xs"
  shows "move_up s k (length xs - s) (grown_cells k xs) =
    map Some (take s xs) @ take k (drop s (grown_cells k xs)) @ map Some (drop s xs) @ [None]"
    (is "?l = ?r")
proof (rule nth_equalityI)
  show "length ?l = length ?r" using assms by (simp add: grown_cells_def)
next
  fix j assume j: "j < length ?l"
  then have bound: "j < length xs + Suc k" by (simp add: grown_cells_def)
  have l: "?l ! j = (if s + k \<le> j \<and> j < k + length xs then grown_cells k xs ! (j - k)
                     else grown_cells k xs ! j)"
    using assms j by (subst nth_move_up) (auto simp: grown_cells_def)
  consider "j < s" | "s \<le> j" "j < s + k" | "s + k \<le> j" "j < k + length xs" | "j = k + length xs"
    using bound by linarith
  then show "?l ! j = ?r ! j"
    unfolding l by cases (use assms in \<open>auto simp: grown_cells_def nth_append min_def nth_Cons'\<close>)
qed

section \<open>Appending\<close>

lemma append_nosize_Nil [simp]:
  "pmix_argv_append_nosize [] argv arg = (PMIX_SUCCESS, Some (strings argv @ [arg]), [])"
  by (simp add: pmix_argv_append_nosize_def)

lemma append_Nil [simp]:
  "pmix_argv_append [] argc argv arg =
     (PMIX_SUCCESS, int (length (strings argv)) + 1, Some (strings argv @ [arg]), [])"
  by (simp add: pmix_argv_append_def pmix_argv_count_def)

text \<open>
  Appending under any pattern of allocation failures: either the array is the old
  one with the new string at its end, its count is stored in \<open>*argc\<close> and the call succeeds; or
  the call reports \<open>PMIX_ERR_OUT_OF_RESOURCE\<close>, leaves \<open>*argc\<close> alone, and the array has its
  old strings, or is NULL when it was the array itself that could not be (re)allocated.
\<close>

lemma pmix_argv_append_outcome:
  "case pmix_argv_append ms argc argv arg of (rc, argc', argv', ms') \<Rightarrow>
     (rc = PMIX_SUCCESS \<and> argv' = Some (strings argv @ [arg]) \<and> argc' = pmix_argv_count argv') \<or>
     (rc = PMIX_ERR_OUT_OF_RESOURCE \<and> argc' = argc \<and>
       (argv' = Some (strings argv) \<or> argv' = None))"
  by (auto simp: pmix_argv_append_def pmix_argv_append_nosize_def Let_def split: prod.splits)

text \<open>What a caller that only appends relies on, whatever provides the array.\<close>

locale string_array =
  fixes app :: "'m \<Rightarrow> 'v \<Rightarrow> string \<Rightarrow> 'v \<times> 'm"
    and view :: "'v \<Rightarrow> string list"
    and plenty :: "'m \<Rightarrow> bool"
  assumes view_app: "plenty m \<Longrightarrow> view (fst (app m v s)) = view v @ [s]"
    and plenty_app: "plenty m \<Longrightarrow> plenty (snd (app m v s))"
begin

fun app_all :: "'m \<Rightarrow> 'v \<Rightarrow> string list \<Rightarrow> 'v \<times> 'm" where
  "app_all m v [] = (v, m)"
| "app_all m v (s # ss) = (case app m v s of (v', m') \<Rightarrow> app_all m' v' ss)"

lemma view_app_all: "plenty m \<Longrightarrow> view (fst (app_all m v ss)) = view v @ ss"
proof (induction ss arbitrary: m v)
  case (Cons s ss)
  then show ?case
    using view_app [of m v s] plenty_app [of m v s] by (cases "app m v s") auto
qed simp

lemma plenty_app_all: "plenty m \<Longrightarrow> plenty (snd (app_all m v ss))"
proof (induction ss arbitrary: m v)
  case (Cons s ss)
  then show ?case using plenty_app [of m v s] by (cases "app m v s") auto
qed simp

end

definition append_ignoring :: "allocs \<Rightarrow> argv \<Rightarrow> string \<Rightarrow> argv \<times> allocs" where
  "append_ignoring ms argv arg =
     (case pmix_argv_append_nosize ms argv arg of (rc, argv', ms') \<Rightarrow> (argv', ms'))"

interpretation argv_array: string_array append_ignoring strings "\<lambda>ms. ms = []"
  by unfold_locales (auto simp: append_ignoring_def)

lemma append_all_Nil: "append_all [] n target ss = (if ss = [] then target else Some (strings target @ ss), [])"
  by (induction ss arbitrary: n target) auto

lemma copy_loop_Nil: "copy_loop [] n (Some ys) xs = (Some (ys @ xs), [])"
  by (induction xs arbitrary: n ys) auto

lemma find_index_None: "find_index s i xs = None \<longleftrightarrow> s \<notin> set xs"
  by (induction xs arbitrary: i) auto

lemma find_index_Some: "find_index s i xs = Some j \<Longrightarrow> i \<le> j \<and> j - i < length xs \<and> xs ! (j - i) = s"
proof (induction xs arbitrary: i)
  case (Cons x xs)
  show ?case
  proof (cases "s = x")
    case False
    with Cons.prems have "find_index s (Suc i) xs = Some j" by simp
    from Cons.IH [OF this] show ?thesis by (auto simp: nth_Cons' Suc_diff_le)
  qed (use Cons.prems in auto)
qed simp

text \<open>
  \<open>pmix_argv_append_unique_idx\<close> with enough memory: afterwards the index it stores
  is the index of a copy of the string in the array, the old strings keep their places, and a
  string that was already there is not added a second time.
\<close>

lemma append_unique_idx_finds:
  "\<exists>i argv'. pmix_argv_append_unique_idx [] idx argv arg = (PMIX_SUCCESS, int i, argv', []) \<and>
     i < length (strings argv') \<and> strings argv' ! i = arg \<and>
     strings argv' = (if arg \<in> set (strings argv) then strings argv else strings argv @ [arg])"
proof (cases "find_index arg 0 (strings argv)")
  case None
  then have "arg \<notin> set (strings argv)" by (simp add: find_index_None)
  moreover have "pmix_argv_append_unique_idx [] idx argv arg =
      (PMIX_SUCCESS, int (length (strings argv)), Some (strings argv @ [arg]), [])"
    using None by (cases argv) (auto simp: pmix_argv_append_unique_idx_def pmix_argv_count_def)
  ultimately show ?thesis by (intro exI [of _ "length (strings argv)"]) auto
next
  case (Some i)
  then have i: "i < length (strings argv)" "strings argv ! i = arg"
    using find_index_Some [OF Some] by auto
  then have "arg \<in> set (strings argv)" by (metis nth_mem)
  moreover have "pmix_argv_append_unique_idx [] idx argv arg = (PMIX_SUCCESS, int i, argv, [])"
    using Some by (cases argv) (auto simp: pmix_argv_append_unique_idx_def)
  ultimately show ?thesis using i by auto
qed

lemma prepend_nosize_Nil:
  "pmix_argv_prepend_nosize [] argv arg = (PMIX_SUCCESS, Some (arg # strings argv), [])"
proof (cases argv)
  case (Some xs)
  have cs: "(grown_cells (Suc 0) xs)[Suc (length xs) := None] = grown_cells (Suc 0) xs"
    by (simp add: grown_cells_def list_update_append)
  have "take (Suc 0) (grown_cells (Suc 0) xs) = [hd (grown_cells (Suc 0) xs)]"
    by (cases "grown_cells (Suc 0) xs") (auto simp: grown_cells_def)
  then obtain c where "take (Suc 0) (grown_cells (Suc 0) xs) = [c]" by blast
  then have "move_up 0 (Suc 0) (length xs) (grown_cells (Suc 0) xs) = [c] @ map Some xs @ [None]"
    using grown_moved [of 0 xs "Suc 0"] by simp
  then show ?thesis
    using Some upto_null_map_Some [of xs "[]"]
    by (simp add: pmix_argv_prepend_nosize_def Let_def cs)
qed (simp add: pmix_argv_prepend_nosize_def)


section \<open>Deleting and inserting in the middle\<close>

text \<open>
  \<open>pmix_argv_delete\<close> of tokens inside the array (\<open>0 <= start\<close>, \<open>start <= count\<close>, a
  positive number of them, no overflow of \<open>start + num_to_delete\<close>): the in-place loop
  removes exactly the tokens from \<open>start\<close> on, up to the end of the array when there are
  fewer. \<open>*argc\<close> always drops by \<open>num_to_delete\<close>, so it still equals the
  number of tokens exactly when that many tokens were there to delete.
\<close>

lemma pmix_argv_delete_spec:
  assumes "0 \<le> start" "start \<le> int (length xs)" "0 < num" "start + num \<le> int_max"
  shows "pmix_argv_delete (int (length xs)) (Some xs) start num =
      Some (PMIX_SUCCESS, int (length xs) - num,
        Some (take (nat start) xs @ drop (nat start + nat num) xs)) \<and>
    (int (length xs) - num = int (length (take (nat start) xs @ drop (nat start + nat num) xs))
      \<longleftrightarrow> start + num \<le> int (length xs))"
proof -
  define s k where sk: "s = nat start" "k = nat num"
  have k: "0 < k" "start = int s" "num = int k" "s \<le> length xs" using assms by (auto simp: sk)
  have nats: "nat start = s" "nat num = k" by (simp_all add: sk)
  define n where "n = nat (max 0 (int (length xs) - (start + num)))"
  have n: "n = length xs - (s + k)" using k by (auto simp: n_def)
  let ?cs = "map Some xs @ [None]"
  let ?ys = "take s xs @ drop (s + k) xs"
  have len: "length ?ys = s + n" using k n by auto
  have idx: "nat (start + max 0 (int (length xs) - (start + num))) = s + n"
    using k n by auto
  have guard: "\<not> (start < 0 \<or> num < 0)" "\<not> start + num > int_max" "num \<noteq> 0"
    "\<not> start > int (length xs)"
    using assms by auto
  have cells: "(move_down s k n ?cs)[s + n := None] =
      map Some ?ys @ None # drop (s + n + 1) (move_down s k n ?cs)" (is "?l = ?r")
  proof (rule nth_equalityI)
    show "length ?l = length ?r" using k n len by auto
  next
    fix j assume "j < length ?l"
    then have j: "j < length ?cs" by simp
    have "n = 0 \<or> s + k + n \<le> length ?cs" using n by auto
    note moved = nth_move_down [OF this k(1) j]
    consider "j < s" | "s \<le> j" "j < s + n" | "j = s + n" | "s + n < j" by linarith
    then show "?l ! j = ?r ! j"
    proof cases
      case 4
      then show ?thesis using k n len j by (auto simp: nth_append nth_Cons' simp del: length_append)
    qed (use k n len j moved in \<open>auto simp: nth_append nth_list_update min_def add.commute split: if_splits\<close>)
  qed
  have "pmix_argv_delete (int (length xs)) (Some xs) start num =
      Some (PMIX_SUCCESS, int (length xs) - num,
        Some (upto_null ((move_down s k n ?cs)[s + n := None])))"
    using guard
    unfolding pmix_argv_delete_def pmix_argv_count_def Let_def strings.simps nats idx n_def [symmetric]
    by simp
  moreover have "upto_null ((move_down s k n ?cs)[s + n := None]) = ?ys"
    unfolding cells by (rule upto_null_map_Some)
  moreover have "int (length xs) - num = int (length ?ys) \<longleftrightarrow> start + num \<le> int (length xs)"
    unfolding len n k using k(4) by linarith
  ultimately show ?thesis unfolding nats by (simp only: simp_thms)
qed

lemma insert_cells:
  assumes "s \<le> length xs"
  shows "case store_dups [] s ss ((move_up s (length ss) (length xs - s) (grown_cells (length ss) xs))
             [length xs + length ss := None]) of (cs, ms) \<Rightarrow>
           upto_null cs = take s xs @ ss @ drop s xs \<and> ms = []"
proof -
  let ?gap = "take (length ss) (drop s (grown_cells (length ss) xs))"
  have gap: "length ?gap = length ss" using assms by (simp add: grown_cells_def)
  have "(move_up s (length ss) (length xs - s) (grown_cells (length ss) xs))
          [length xs + length ss := None] =
        map Some (take s xs) @ ?gap @ map Some (drop s xs) @ [None]"
    using assms gap by (simp add: grown_moved list_update_append)
  moreover have "drop (s + length ss) (map Some (take s xs) @ ?gap @ map Some (drop s xs) @ [None]) =
      map Some (drop s xs) @ [None]"
    using assms gap by simp
  moreover have "upto_null (map Some (take s xs) @ map Some ss @ map Some (drop s xs) @ [None]) =
      take s xs @ ss @ drop s xs"
    by (simp add: upto_null_append upto_null_map_Some [of _ "[]", simplified])
  ultimately show ?thesis
    using assms gap by (simp add: store_dups_Nil)
qed

text \<open>
  \<open>pmix_argv_insert\<close> with enough memory: at any non-negative position the source
  strings end up in the target from that position on (at the end when the position is beyond
  it), the others keep their order, whether the code appends or shifts the suffix in place.
\<close>

lemma pmix_argv_insert_spec:
  assumes "0 \<le> start"
  shows "pmix_argv_insert [] (Some xs) start (Some ss) =
    Some (PMIX_SUCCESS, Some (take (nat start) xs @ ss @ drop (nat start) xs), [])"
proof (cases "start > int (length xs)")
  case True
  then show ?thesis
    using assms by (simp add: pmix_argv_insert_def pmix_argv_count_def append_all_Nil)
next
  case False
  then have s: "nat start \<le> length xs" by linarith
  then have "nat (int (length xs) - start) = length xs - nat start"
    and "nat start + (length xs - nat start) + length ss = length xs + length ss"
    using assms by auto
  with insert_cells [OF s, of ss] False assms show ?thesis
    by (auto simp: pmix_argv_insert_def pmix_argv_count_def Let_def split: prod.splits)
qed

lemma insert_element_spec:
  assumes "0 \<le> loc"
  shows "pmix_argv_insert_element [] (Some xs) loc (Some s) =
    Some (PMIX_SUCCESS, Some (take (nat loc) xs @ s # drop (nat loc) xs), [])"
proof (cases "loc > int (length xs)")
  case True
  then show ?thesis
    using assms by (simp add: pmix_argv_insert_element_def pmix_argv_count_def)
next
  case False
  then have l: "nat loc \<le> length xs" by linarith
  then have "nat (int (length xs) - loc) = length xs - nat loc"
    and "nat loc + (length xs - nat loc) + 1 = length xs + 1"
    using assms by auto
  with insert_cells [OF l, of "[s]"] False assms show ?thesis
    by (auto simp: pmix_argv_insert_element_def pmix_argv_count_def Let_def)
qed

section \<open>Splitting and joining\<close>

text \<open>The reference: the fields of a string between delimiters, the empty ones included.\<close>

fun fields :: "char \<Rightarrow> string \<Rightarrow> string list" where
  "fields d [] = [[]]"
| "fields d (c # cs) =
     (if c = d then [] # fields d cs
      else (case fields d cs of [] \<Rightarrow> [[c]] | f # fs \<Rightarrow> (c # f) # fs))"

fun join_with :: "char \<Rightarrow> string list \<Rightarrow> string" where
  "join_with d [] = []"
| "join_with d [x] = x"
| "join_with d (x # y # ys) = x @ d # join_with d (y # ys)"

lemma fields_not_Nil [simp]: "fields d s \<noteq> []"
  by (cases s) (auto split: list.splits)

lemma join_with_Cons: "join_with d (x # xs) = x @ (if xs = [] then [] else d # join_with d xs)"
  by (cases xs) auto

lemma fields_unfold:
  "fields d s = takeWhile (\<lambda>c. c \<noteq> d) s #
     (let p = dropWhile (\<lambda>c. c \<noteq> d) s in if p = [] then [] else fields d (tl p))"
proof (induction s)
  case (Cons c cs)
  then show ?case by (cases "c = d") (auto simp: Let_def split: list.splits)
qed simp

lemma join_fields: "join_with d (fields d s) = s"
proof (induction s)
  case (Cons c cs)
  then show ?case by (cases "fields d cs") (auto simp: join_with_Cons)
qed simp

lemma fields_free: "x \<in> set (fields d s) \<Longrightarrow> d \<notin> set x"
  by (induction s arbitrary: x) (auto split: list.splits if_splits)

lemma fields_append: "d \<notin> set x \<Longrightarrow> fields d (x @ d # s) = x # fields d s"
  by (induction x) auto

lemma fields_single: "d \<notin> set x \<Longrightarrow> fields d x = [x]"
  by (induction x) auto

lemma fields_join: "xs \<noteq> [] \<Longrightarrow> (\<And>x. x \<in> set xs \<Longrightarrow> d \<notin> set x) \<Longrightarrow> fields d (join_with d xs) = xs"
  by (induction d xs rule: join_with.induct) (auto simp: fields_append fields_single)

text \<open>What the code keeps of the fields: it drops the empty field at the end of the string.\<close>

definition kept_fields :: "bool \<Rightarrow> char \<Rightarrow> string \<Rightarrow> string list" where
  "kept_fields include_empty d s =
     (let fs = fields d s; fs = (if last fs = [] then butlast fs else fs)
      in if include_empty then fs else filter (\<lambda>f. f \<noteq> []) fs)"

lemma kept_fields_Nil [simp]: "kept_fields ie d [] = []"
  by (simp add: kept_fields_def)

lemma kept_fields_unfold:
  "s \<noteq> [] \<Longrightarrow> kept_fields ie d s =
     (let f = takeWhile (\<lambda>c. c \<noteq> d) s; p = dropWhile (\<lambda>c. c \<noteq> d) s
      in (if f = [] \<and> \<not> ie then [] else [f]) @ (if p = [] then [] else kept_fields ie d (tl p)))"
proof (cases "dropWhile (\<lambda>c. c \<noteq> d) s = []")
  case True
  then have "fields d s = [takeWhile (\<lambda>c. c \<noteq> d) s]"
    using fields_unfold [of d s] by simp
  moreover have tw: "takeWhile (\<lambda>c. c \<noteq> d) s = s"
    using True takeWhile_dropWhile_id [of "\<lambda>c. c \<noteq> d" s] by (metis append_Nil2)
  moreover assume "s \<noteq> []"
  ultimately show ?thesis unfolding tw Let_def True kept_fields_def by simp
next
  case False
  then have "fields d s = takeWhile (\<lambda>c. c \<noteq> d) s # fields d (tl (dropWhile (\<lambda>c. c \<noteq> d) s))"
    using fields_unfold [of d s] unfolding Let_def by (simp only: if_False)
  then show ?thesis using False unfolding kept_fields_def Let_def by (simp only: if_False) simp
qed

text \<open>The contract of \<open>pmix_strncpy\<close> the splitting relies on.\<close>

definition copies_prefix :: "(string \<Rightarrow> nat \<Rightarrow> string) \<Rightarrow> bool" where
  "copies_prefix cp \<longleftrightarrow> (\<forall>s n. n \<le> length s \<longrightarrow> take n (cp s n) = take n s)"

lemma split_arg_Nil:
  assumes "copies_prefix cp" "src \<noteq> []"
  shows "split_arg cp d ie [] src argv =
    (let f = takeWhile (\<lambda>c. c \<noteq> d) src in
     (PMIX_SUCCESS, if f = [] \<and> \<not> ie then argv else Some (strings argv @ [f]), []))"
proof -
  have "take (length (takeWhile (\<lambda>c. c \<noteq> d) src)) (cp src (length (takeWhile (\<lambda>c. c \<noteq> d) src))) =
      takeWhile (\<lambda>c. c \<noteq> d) src"
    using assms(1) unfolding copies_prefix_def
    by (metis length_takeWhile_le takeWhile_eq_take)
  moreover have "split_arg cp d ie [] src argv = (PMIX_SUCCESS, Some (strings argv @ [src]), [])"
    and "takeWhile (\<lambda>c. c \<noteq> d) src = src" if "dropWhile (\<lambda>c. c \<noteq> d) src = []"
  proof -
    show tw: "takeWhile (\<lambda>c. c \<noteq> d) src = src"
      using that takeWhile_dropWhile_id [of "\<lambda>c. c \<noteq> d" src] by (metis append_Nil2)
    show "split_arg cp d ie [] src argv = (PMIX_SUCCESS, Some (strings argv @ [src]), [])"
      using assms(2) unfolding split_arg_def Let_def tw that by simp
  qed
  ultimately show ?thesis
    using assms(2)
    by (cases "dropWhile (\<lambda>c. c \<noteq> d) src = []") (simp_all only: split_arg_def Let_def, simp_all)
qed

lemma split_loop_Nil:
  assumes "copies_prefix cp"
  shows "split_loop cp d ie [] s argv =
    (let ks = kept_fields ie d s in (if ks = [] then argv else Some (strings argv @ ks), []))"
proof (induction s arbitrary: argv rule: length_induct)
  case (1 s)
  show ?case
  proof (cases "s = []")
    case True
    then show ?thesis by (simp add: split_loop.simps)
  next
    case False
    let ?p = "dropWhile (\<lambda>c. c \<noteq> d) s"
    have IH: "split_loop cp d ie [] (tl ?p) v =
        (let ks = kept_fields ie d (tl ?p) in (if ks = [] then v else Some (strings v @ ks), []))"
      if "?p \<noteq> []" for v
    proof -
      have "length (tl ?p) < length s"
        using that length_dropWhile_le [of "\<lambda>c. c \<noteq> d" s] by (cases ?p) auto
      with 1 show ?thesis by blast
    qed
    show ?thesis
      using False IH
      by (subst split_loop.simps) (auto simp: split_arg_Nil [OF assms] kept_fields_unfold Let_def)
  qed
qed

text \<open>
  \<open>pmix_argv_split\<close> and \<open>pmix_argv_split_with_empty\<close>, with enough memory and
  for strings of any length (short arguments go through the 128-byte buffer, long ones do
  not): the result holds the fields of the string between delimiters, in order, without the
  empty ones, or with them except for an empty last one; it is NULL when there are none.
\<close>

lemma pmix_argv_split_inter_spec:
  assumes "copies_prefix cp"
  shows "pmix_argv_split_inter cp [] (Some s) d ie =
    (let ks = kept_fields ie d s in (if ks = [] then None else Some ks, []))"
  by (simp add: pmix_argv_split_inter_def split_loop_Nil [OF assms] Let_def)

lemma join_fill_eq:
  "joined_len (pp # ps) = Suc n \<Longrightarrow> join_fill d n (Some pp) ps = Some (join_with d (pp # ps))"
proof (induction d n "Some pp" ps arbitrary: pp rule: join_fill.induct)
  case (1 d ps)
  then show ?case by (cases pp; cases ps) (auto simp: joined_len_def)
qed (auto simp: joined_len_def join_with_Cons)

lemma joined_len_pos: "xs \<noteq> [] \<Longrightarrow> 0 < joined_len xs"
  by (cases xs) (auto simp: joined_len_def)

lemma pmix_argv_join_eq:
  "pmix_argv_join ms argv d =
     Some (if fst (next_alloc ms) then Some (join_with d (strings argv)) else None, snd (next_alloc ms))"
proof (cases "strings argv")
  case (Cons x xs)
  have "joined_len (x # xs) = Suc (joined_len (x # xs) - 1)"
    using joined_len_pos [of "x # xs"] by simp
  from join_fill_eq [OF this, of d] Cons show ?thesis
    by (auto simp: pmix_argv_join_def Let_def split: prod.splits)
qed (auto simp: pmix_argv_join_def strdup_def Let_def split: prod.splits)

text \<open>
  \<open>pmix_argv_join\<close> never faults: its character loop stays inside the array and
  computes the concatenation with one delimiter between neighbours; the result is that string,
  or NULL when the one allocation fails.
\<close>

lemma pmix_argv_join_spec:
  "pmix_argv_join ms argv d =
     Some (if fst (next_alloc ms) then Some (join_with d (strings argv)) else None, snd (next_alloc ms))"
  by (rule pmix_argv_join_eq)

text \<open>
  C36: Splitting what was joined gives the strings back, for non-empty strings that do not
  contain the delimiter (for which both functions of the code are used: the rank and node
  lists of the test server); and joining all the fields of any string gives the string.
\<close>

theorem split_of_join:
  assumes "copies_prefix cp" "xs \<noteq> []" "\<forall>x \<in> set xs. x \<noteq> [] \<and> d \<notin> set x"
  shows "\<exists>s. pmix_argv_join [] (Some xs) d = Some (Some s, []) \<and>
    pmix_argv_split cp [] (Some s) d = (Some xs, [])"
proof -
  have f: "fields d (join_with d xs) = xs" using assms by (simp add: fields_join)
  have "last xs \<noteq> []" using assms by simp
  moreover have "filter (\<lambda>f. f \<noteq> []) xs = xs" using assms by (simp add: filter_id_conv)
  ultimately have "kept_fields False d (join_with d xs) = xs"
    by (simp add: kept_fields_def f)
  then have "split_loop cp d False [] (join_with d xs) None = (Some xs, [])"
    using assms by (simp add: split_loop_Nil [OF assms(1)])
  moreover have "pmix_argv_join [] (Some xs) d = Some (Some (join_with d xs), [])"
    by (simp add: pmix_argv_join_eq)
  ultimately show ?thesis by (simp add: pmix_argv_split_def pmix_argv_split_inter_def)
qed

theorem split_of_join_witness:
  "\<exists>s. pmix_argv_join [] (Some [''node0'', ''node1'']) CHR '','' = Some (Some s, []) \<and>
    pmix_argv_split (\<lambda>s n. take n s) [] (Some s) CHR '','' = (Some [''node0'', ''node1''], [])"
  by (rule split_of_join) (simp_all add: copies_prefix_def)

text \<open>
  \<open>pmix_argv_join_range\<close> (an array of fewer than \<open>2^31\<close> strings): for a
  non-empty range inside the array it is the join of the strings of the range; a start beyond
  the array is answered with an empty string; but the empty range that starts at the end of the
  array passes the guard (\<open>start > argc\<close>) and makes the code write to \<open>str[-1]\<close>.
\<close>

lemma pmix_argv_join_range_spec:
  assumes "xs \<noteq> []" "length xs < 2 ^ 31"
  shows "(unat start < length xs \<longrightarrow> unat start < unat end \<longrightarrow>
      pmix_argv_join_range [] (Some xs) start end d =
        Some (Some (join_with d (take (unat end - unat start) (drop (unat start) xs))), [])) \<and>
    (length xs < unat start \<longrightarrow> unat start < 2 ^ 31 \<longrightarrow>
      pmix_argv_join_range [] (Some xs) start end d = Some (Some [], [])) \<and>
    (unat start = length xs \<longrightarrow> pmix_argv_join_range [] (Some xs) start end d = None)"
proof -
  have small: "int32 (uint start) = int (unat start)" if "unat start < 2 ^ 31"
    using that int32_nat [of "unat start"] by simp
  have cmp: "(int32 (uint start) > int (length xs)) = (unat start > length xs)"
    if "unat start < 2 ^ 31"
    by (simp only: small [OF that] of_nat_less_iff)
  have range: "join_fill d (joined_len (take k ys) - 1) (Some (hd ys)) (tl ys) =
      Some (join_with d (take k ys))" if "0 < k" "ys \<noteq> []" for k ys
  proof -
    have "join_fill d n (Some pp) (qs @ rs) = Some (join_with d (pp # qs))"
      if "joined_len (pp # qs) = Suc n" for n pp qs rs
      using that
    proof (induction d n "Some pp" "qs @ rs" arbitrary: pp qs rule: join_fill.induct)
      case (1 d)
      then show ?case by (cases pp; cases qs) (auto simp: joined_len_def)
    next
      case (4 d n q qs')
      then show ?case by (cases qs) (auto simp: joined_len_def join_with_Cons)
    qed (auto simp: joined_len_def join_with_Cons)
    from this [of "hd ys" "take (k - 1) (tl ys)" "joined_len (take k ys) - 1" "drop (k - 1) (tl ys)"]
      that joined_len_pos [of "take k ys"]
    show ?thesis by (cases ys; cases k) auto
  qed
  show ?thesis
    using assms cmp joined_len_pos [of "take (unat end - unat start) (drop (unat start) xs)"]
      range [of "unat end - unat start" "drop (unat start) xs"]
    by (auto simp: pmix_argv_join_range_def pmix_argv_count_def Let_def strdup_def)
       (simp add: joined_len_def)
qed

end
