(* ===== verification/UnitList.thy ===== *)
theory UnitList
  imports Prelude "HOL-Library.Monad_Syntax" "HOL-Library.Multiset"
begin

text \<open>
  The intrusive doubly-linked list of src/unit/unit_list.h and unit_list.c, with
  its pointers. An address is NULL, a list item, or the sentinel embedded in the
  list with a given number; the heap holds one function per struct field. Every
  function is a sequence of reads and writes of these fields in the order of the
  C statements; its result is \<open>None\<close> where an \<open>assert\<close> or the length check of
  \<open>unit_list_get_size\<close> stops the program, where NULL is dereferenced, and where a
  traversal never ends. The invariant \<open>dll h l xs\<close> says that list \<open>l\<close> holds the
  items \<open>xs\<close>; each operation is proved to be a list operation on \<open>xs\<close>.
\<close>

section \<open>Heap\<close>

datatype ptr = Null | Item nat | Sent nat

record heap =
  nxt :: "ptr \<Rightarrow> ptr"                  \<comment> \<open>\<open>unit_list_next\<close>\<close>
  prv :: "ptr \<Rightarrow> ptr"                  \<comment> \<open>\<open>unit_list_prev\<close>\<close>
  item_free :: "ptr \<Rightarrow> int"
  refc :: "ptr \<Rightarrow> int"                 \<comment> \<open>\<open>unit_list_item_refcount\<close>\<close>
  belongs :: "ptr \<Rightarrow> nat option"       \<comment> \<open>\<open>unit_list_item_belong_to\<close>\<close>
  init_at :: "ptr \<Rightarrow> string \<times> int"     \<comment> \<open>\<open>cls_init_file_name\<close>, \<open>cls_init_lineno\<close>\<close>
  len :: "nat \<Rightarrow> u64"                  \<comment> \<open>\<open>unit_list_length\<close>\<close>

definition deref :: "ptr \<Rightarrow> ptr option" where
  "deref p = (if p = Null then None else Some p)"

definition assert_that :: "bool \<Rightarrow> unit option" where
  "assert_that b = (if b then Some () else None)"

definition set_nxt :: "ptr \<Rightarrow> ptr \<Rightarrow> heap \<Rightarrow> heap" where
  "set_nxt p q h = h\<lparr>nxt := (nxt h)(p := q)\<rparr>"

definition set_prv :: "ptr \<Rightarrow> ptr \<Rightarrow> heap \<Rightarrow> heap" where
  "set_prv p q h = h\<lparr>prv := (prv h)(p := q)\<rparr>"

definition set_refc :: "ptr \<Rightarrow> int \<Rightarrow> heap \<Rightarrow> heap" where
  "set_refc p n h = h\<lparr>refc := (refc h)(p := n)\<rparr>"

definition set_belongs :: "ptr \<Rightarrow> nat option \<Rightarrow> heap \<Rightarrow> heap" where
  "set_belongs p b h = h\<lparr>belongs := (belongs h)(p := b)\<rparr>"

definition set_len :: "nat \<Rightarrow> u64 \<Rightarrow> heap \<Rightarrow> heap" where
  "set_len l n h = h\<lparr>len := (len h)(l := n)\<rparr>"

lemmas heap_ops =
  deref_def assert_that_def set_nxt_def set_prv_def set_refc_def set_belongs_def set_len_def

section \<open>Construction\<close>

definition unit_list_item_construct :: "ptr \<Rightarrow> heap \<Rightarrow> heap" where
  "unit_list_item_construct p h =
     h\<lparr>nxt := (nxt h)(p := Null), prv := (prv h)(p := Null), item_free := (item_free h)(p := 1),
       refc := (refc h)(p := 0), belongs := (belongs h)(p := None)\<rparr>"

definition unit_list_item_destruct :: "ptr \<Rightarrow> heap \<Rightarrow> unit option" where
  "unit_list_item_destruct p h =
     do { assert_that (0 = refc h p); assert_that (belongs h p = None) }"

definition unit_list_construct :: "nat \<Rightarrow> heap \<Rightarrow> heap" where
  "unit_list_construct l h =
     (let h = unit_list_item_construct (Sent l) h;
          h = set_refc (Sent l) 1 h;
          h = set_belongs (Sent l) (Some l) h;
          h = set_nxt (Sent l) (Sent l) h;
          h = set_prv (Sent l) (Sent l) h
      in set_len l 0 h)"

definition unit_list_destruct :: "nat \<Rightarrow> heap \<Rightarrow> heap" where
  "unit_list_destruct l h = unit_list_construct l h"

section \<open>Access\<close>

definition unit_list_get_next :: "heap \<Rightarrow> ptr \<Rightarrow> ptr" where
  "unit_list_get_next h p = (if p = Null then Null else nxt h p)"

definition unit_list_get_prev :: "heap \<Rightarrow> ptr \<Rightarrow> ptr" where
  "unit_list_get_prev h p = (if p = Null then Null else prv h p)"

definition unit_list_is_empty :: "heap \<Rightarrow> nat \<Rightarrow> bool" where
  "unit_list_is_empty h l \<longleftrightarrow> nxt h (Sent l) = Sent l"

definition unit_list_get_first :: "heap \<Rightarrow> nat \<Rightarrow> ptr option" where
  "unit_list_get_first h l =
     do { item \<leftarrow> deref (nxt h (Sent l));
          assert_that (1 = refc h item);
          assert_that (belongs h item = Some l);
          Some item }"

definition unit_list_get_last :: "heap \<Rightarrow> nat \<Rightarrow> ptr option" where
  "unit_list_get_last h l =
     do { item \<leftarrow> deref (prv h (Sent l));
          assert_that (1 = refc h item);
          assert_that (belongs h item = Some l);
          Some item }"

definition unit_list_get_begin :: "nat \<Rightarrow> ptr" where
  "unit_list_get_begin l = Sent l"

definition unit_list_get_end :: "nat \<Rightarrow> ptr" where
  "unit_list_get_end l = Sent l"

text \<open>The counting loop; a chain that misses \<open>stop\<close> is followed forever.\<close>

partial_function (option) count_to :: "heap \<Rightarrow> ptr \<Rightarrow> ptr \<Rightarrow> u64 \<Rightarrow> u64 option" where
  "count_to h p stop n =
     (if p = stop then Some n else count_to h (unit_list_get_next h p) stop (n + 1))"

definition unit_list_get_size :: "heap \<Rightarrow> nat \<Rightarrow> u64 option" where
  "unit_list_get_size h l =
     do { item \<leftarrow> unit_list_get_first h l;
          check_len \<leftarrow> count_to h item (unit_list_get_end l) 0;
          assert_that (check_len = len h l);
          Some (len h l) }"

text \<open>The items the loops \<open>UNIT_LIST_FOREACH\<close> and \<open>UNIT_LIST_FOREACH_REV\<close> visit, in order.\<close>

partial_function (option) visit :: "(ptr \<Rightarrow> ptr) \<Rightarrow> ptr \<Rightarrow> ptr \<Rightarrow> ptr list option" where
  "visit f p stop =
     (if p = stop then Some []
      else do { q \<leftarrow> deref p; rest \<leftarrow> visit f (f q) stop; Some (q # rest) })"

definition UNIT_LIST_FOREACH :: "heap \<Rightarrow> nat \<Rightarrow> ptr list option" where
  "UNIT_LIST_FOREACH h l = visit (nxt h) (nxt h (Sent l)) (Sent l)"

definition UNIT_LIST_FOREACH_REV :: "heap \<Rightarrow> nat \<Rightarrow> ptr list option" where
  "UNIT_LIST_FOREACH_REV h l = visit (prv h) (prv h (Sent l)) (Sent l)"

text \<open>
  \<open>UNIT_LIST_FOREACH_SAFE\<close>: the successor is read before the body runs, so the body may take
  the item off the list. The state \<open>'s\<close> of the loop contains the heap as \<open>hp s\<close>.
\<close>

partial_function (option) sweep ::
  "('s \<Rightarrow> heap) \<Rightarrow> (ptr \<Rightarrow> 's \<Rightarrow> 's option) \<Rightarrow> ptr \<Rightarrow> ptr \<Rightarrow> ptr \<Rightarrow> 's \<Rightarrow> 's option" where
  "sweep hp body item next stop s =
     (if item = stop then Some s
      else do {
        s \<leftarrow> body item s;
        next \<leftarrow> deref next;
        sweep hp body next (nxt (hp s) next) stop s })"

definition UNIT_LIST_FOREACH_SAFE ::
  "('s \<Rightarrow> heap) \<Rightarrow> (ptr \<Rightarrow> 's \<Rightarrow> 's option) \<Rightarrow> nat \<Rightarrow> 's \<Rightarrow> 's option" where
  "UNIT_LIST_FOREACH_SAFE hp body l s =
     do { item \<leftarrow> deref (nxt (hp s) (Sent l));
          sweep hp body item (nxt (hp s) item) (Sent l) s }"

section \<open>Insertion and removal\<close>

definition unit_list_append :: "string \<times> int \<Rightarrow> nat \<Rightarrow> ptr \<Rightarrow> heap \<Rightarrow> heap option" where
  "unit_list_append here l item h =
     do { item \<leftarrow> deref item;
          let sentinel = Sent l;
          assert_that (0 = refc h item);
          assert_that (belongs h item = None);
          let h = h\<lparr>init_at := (init_at h)(item := here)\<rparr>;
          let h = set_prv item (prv h sentinel) h;
          last \<leftarrow> deref (prv h sentinel);
          let h = set_nxt last item h;
          let h = set_nxt item sentinel h;
          let h = set_prv sentinel item h;
          let h = set_len l (len h l + 1) h;
          let h = set_refc item (refc h item + 1) h;
          assert_that (1 = refc h item);
          Some (set_belongs item (Some l) h) }"

definition unit_list_prepend :: "nat \<Rightarrow> ptr \<Rightarrow> heap \<Rightarrow> heap option" where
  "unit_list_prepend l item h =
     do { item \<leftarrow> deref item;
          let sentinel = Sent l;
          assert_that (0 = refc h item);
          assert_that (belongs h item = None);
          let h = set_nxt item (nxt h sentinel) h;
          let h = set_prv item sentinel h;
          first \<leftarrow> deref (nxt h sentinel);
          let h = set_prv first item h;
          let h = set_nxt sentinel item h;
          let h = set_len l (len h l + 1) h;
          let h = set_refc item (refc h item + 1) h;
          assert_that (1 = refc h item);
          Some (set_belongs item (Some l) h) }"

definition unit_list_insert_pos :: "nat \<Rightarrow> ptr \<Rightarrow> ptr \<Rightarrow> heap \<Rightarrow> heap option" where
  "unit_list_insert_pos l pos item h =
     do { item \<leftarrow> deref item;
          pos \<leftarrow> deref pos;
          assert_that (0 = refc h item);
          assert_that (belongs h item = None);
          let h = set_nxt item pos h;
          let h = set_prv item (prv h pos) h;
          before \<leftarrow> deref (prv h pos);
          let h = set_nxt before item h;
          let h = set_prv pos item h;
          let h = set_len l (len h l + 1) h;
          let h = set_refc item (refc h item + 1) h;
          assert_that (1 = refc h item);
          Some (set_belongs item (Some l) h) }"

fun steps_forward :: "nat \<Rightarrow> heap \<Rightarrow> ptr \<Rightarrow> ptr option" where
  "steps_forward 0 h p = Some p"
| "steps_forward (Suc n) h p = do { p \<leftarrow> deref p; steps_forward n h (nxt h p) }"

text \<open>
  \<open>unit_list_insert\<close> (the index is a \<open>long long\<close>). Note the last statement: the length is
  incremented for both branches, and \<open>unit_list_prepend\<close> has incremented it already.
\<close>

definition unit_list_insert :: "nat \<Rightarrow> ptr \<Rightarrow> int \<Rightarrow> heap \<Rightarrow> (bool \<times> heap) option" where
  "unit_list_insert l item idx h =
     (if idx \<ge> sint (len h l) then Some (False, h)
      else do {
        h \<leftarrow> (if idx = 0 then unit_list_prepend l item h
             else do {
               item \<leftarrow> deref item;
               assert_that (0 = refc h item);
               ptr \<leftarrow> steps_forward (nat (idx - 1)) h (nxt h (Sent l));
               ptr \<leftarrow> deref ptr;
               let next = nxt h ptr;
               let h = set_nxt item next h;
               let h = set_prv item ptr h;
               next \<leftarrow> deref next;
               let h = set_prv next item h;
               let h = set_nxt ptr item h;
               let h = set_refc item (refc h item + 1) h;
               assert_that (1 = refc h item);
               Some (set_belongs item (Some l) h) });
        Some (True, set_len l (len h l + 1) h) })"

partial_function (option) on_chain :: "heap \<Rightarrow> ptr \<Rightarrow> ptr \<Rightarrow> ptr \<Rightarrow> bool option" where
  "on_chain h p stop item =
     (if p = stop then Some False
      else if p = item then Some True
      else do { p \<leftarrow> deref p; on_chain h (nxt h p) stop item })"

definition unit_list_remove_item :: "nat \<Rightarrow> ptr \<Rightarrow> heap \<Rightarrow> (ptr \<times> heap) option" where
  "unit_list_remove_item l item h =
     do { first \<leftarrow> unit_list_get_first h l;
          found \<leftarrow> on_chain h first (unit_list_get_end l) item;
          if \<not> found then Some (Null, h)
          else do {
            item \<leftarrow> deref item;
            assert_that (belongs h item = Some l);
            before \<leftarrow> deref (prv h item);
            let h = set_nxt before (nxt h item) h;
            after \<leftarrow> deref (nxt h item);
            let h = set_prv after (prv h item) h;
            let h = set_len l (len h l - 1) h;
            let h = set_refc item (refc h item - 1) h;
            assert_that (0 = refc h item);
            let h = set_belongs item None h;
            Some (prv h item, h) } }"

definition unit_list_remove_first :: "nat \<Rightarrow> heap \<Rightarrow> (ptr \<times> heap) option" where
  "unit_list_remove_first l h =
     (if len h l = 0 then Some (Null, h)
      else do {
        item \<leftarrow> deref (nxt h (Sent l));
        assert_that (1 = refc h item);
        let h = set_len l (len h l - 1) h;
        after \<leftarrow> deref (nxt h item);
        let h = set_prv after (prv h item) h;
        let h = set_nxt (Sent l) (nxt h item) h;
        assert_that (belongs h item = Some l);
        let h = set_belongs item None h;
        let h = set_prv item Null h;
        let h = set_nxt item Null h;
        let h = set_refc item (refc h item - 1) h;
        assert_that (0 = refc h item);
        Some (item, h) })"

definition unit_list_remove_last :: "nat \<Rightarrow> heap \<Rightarrow> (ptr \<times> heap) option" where
  "unit_list_remove_last l h =
     (if len h l = 0 then Some (Null, h)
      else do {
        item \<leftarrow> deref (prv h (Sent l));
        assert_that (1 = refc h item);
        let h = set_len l (len h l - 1) h;
        before \<leftarrow> deref (prv h item);
        let h = set_nxt before (nxt h item) h;
        let h = set_prv (Sent l) (prv h item) h;
        assert_that (belongs h item = Some l);
        let h = set_prv item Null h;
        let h = set_nxt item Null h;
        let h = set_refc item (refc h item - 1) h;
        assert_that (0 = refc h item);
        Some (item, set_belongs item None h) })"

section \<open>Moving whole ranges\<close>

partial_function (option) rehome :: "ptr \<Rightarrow> ptr \<Rightarrow> heap \<Rightarrow> heap option" where
  "rehome pos item h =
     (if pos = item then Some h
      else do {
        item \<leftarrow> deref item;
        let h = set_belongs item (belongs h pos) h;
        let item = nxt h item;
        assert_that (item \<noteq> Null);
        rehome pos item h })"

definition unit_list_transfer :: "ptr \<Rightarrow> ptr \<Rightarrow> ptr \<Rightarrow> heap \<Rightarrow> heap option" where
  "unit_list_transfer pos first stop h =
     (if pos = stop then Some h
      else do {
        stop \<leftarrow> deref stop;
        p \<leftarrow> deref (prv h stop);
        let h = set_nxt p pos h;
        first \<leftarrow> deref first;
        p \<leftarrow> deref (prv h first);
        let h = set_nxt p stop h;
        pos \<leftarrow> deref pos;
        p \<leftarrow> deref (prv h pos);
        let h = set_nxt p first h;
        let tmp = prv h pos;
        let h = set_prv pos (prv h stop) h;
        let h = set_prv stop (prv h first) h;
        let h = set_prv first tmp h;
        rehome pos first h })"

definition unit_list_join :: "nat \<Rightarrow> ptr \<Rightarrow> nat \<Rightarrow> heap \<Rightarrow> heap option" where
  "unit_list_join thislist pos xlist h =
     do { n \<leftarrow> unit_list_get_size h xlist;
          if 0 \<noteq> n then do {
            first \<leftarrow> unit_list_get_first h xlist;
            h \<leftarrow> unit_list_transfer pos first (unit_list_get_end xlist) h;
            let h = set_len thislist (len h thislist + len h xlist) h;
            Some (set_len xlist 0 h) }
          else Some h }"

definition unit_list_splice :: "nat \<Rightarrow> ptr \<Rightarrow> nat \<Rightarrow> ptr \<Rightarrow> ptr \<Rightarrow> heap \<Rightarrow> heap option" where
  "unit_list_splice thislist pos xlist first_item last_item h =
     (if first_item \<noteq> last_item then do {
        change \<leftarrow> count_to h first_item last_item 0;
        h \<leftarrow> unit_list_transfer pos first_item last_item h;
        let h = set_len thislist (len h thislist + change) h;
        Some (set_len xlist (len h xlist - change) h) }
      else Some h)"

section \<open>Draining and sorting\<close>

text \<open>\<open>while (NULL != (item = unit_list_remove_first(list)))\<close>, the removed items in order.\<close>

partial_function (option) drain :: "nat \<Rightarrow> heap \<Rightarrow> (ptr list \<times> heap) option" where
  "drain l h =
     do { r \<leftarrow> unit_list_remove_first l h;
          if fst r = Null then Some ([], snd r)
          else do { rest \<leftarrow> drain l (snd r); Some (fst r # fst rest, snd rest) } }"

fun append_items :: "string \<times> int \<Rightarrow> nat \<Rightarrow> ptr list \<Rightarrow> heap \<Rightarrow> heap option" where
  "append_items here l [] h = Some h"
| "append_items here l (x # xs) h = do { h \<leftarrow> unit_list_append here l x h; append_items here l xs h }"

text \<open>
  \<open>unit_list_sort\<close>; the C library's \<open>qsort\<close> with the caller's comparison is the parameter
  \<open>qsort\<close>, a function on the array of pointers.
\<close>

definition unit_list_sort ::
  "(ptr list \<Rightarrow> ptr list) \<Rightarrow> string \<times> int \<Rightarrow> allocs \<Rightarrow> nat \<Rightarrow> heap \<Rightarrow> (pmix_status \<times> heap) option" where
  "unit_list_sort qsort here ms l h =
     (if len h l = 0 then Some (PMIX_SUCCESS, h)
      else if \<not> fst (next_alloc ms) then Some (PMIX_ERR_OUT_OF_RESOURCE, h)
      else do {
        r \<leftarrow> drain l h;
        h \<leftarrow> append_items here l (qsort (fst r)) (snd r);
        Some (PMIX_SUCCESS, h) })"

text \<open>
  \<open>UNIT_LIST_DESTRUCT\<close>: the items are removed one by one and released, which runs their
  destructor (the list holds the last reference), then the list is constructed anew. The
  result lists the released items.
\<close>

partial_function (option) release_items :: "nat \<Rightarrow> heap \<Rightarrow> (ptr list \<times> heap) option" where
  "release_items l h =
     do { r \<leftarrow> unit_list_remove_first l h;
          if fst r = Null then Some ([], snd r)
          else do {
            unit_list_item_destruct (fst r) (snd r);
            rest \<leftarrow> release_items l (snd r);
            Some (fst r # fst rest, snd rest) } }"

definition UNIT_LIST_DESTRUCT :: "nat \<Rightarrow> heap \<Rightarrow> (ptr list \<times> heap) option" where
  "UNIT_LIST_DESTRUCT l h =
     do { r \<leftarrow> release_items l h;
          Some (fst r, unit_list_destruct l (snd r)) }"

section \<open>Chains\<close>

text \<open>\<open>chain f p as q\<close>: following \<open>f\<close> from \<open>p\<close> one meets \<open>as\<close> and then \<open>q\<close>.\<close>

fun chain :: "(ptr \<Rightarrow> ptr) \<Rightarrow> ptr \<Rightarrow> ptr list \<Rightarrow> ptr \<Rightarrow> bool" where
  "chain f p [] q \<longleftrightarrow> f p = q"
| "chain f p (a # as) q \<longleftrightarrow> f p = a \<and> chain f a as q"

lemma chain_append: "chain f p (as @ b # bs) q \<longleftrightarrow> chain f p as b \<and> chain f b bs q"
  by (induction as arbitrary: p) auto

lemma chain_cong: "(\<And>x. x \<in> set (p # as) \<Longrightarrow> f x = g x) \<Longrightarrow> chain f p as q = chain g p as q"
  by (induction as arbitrary: p) auto

lemma chain_upd [simp]: "x \<notin> set (p # as) \<Longrightarrow> chain (f(x := y)) p as q = chain f p as q"
  by (rule chain_cong) auto

lemma chain_last: "chain f p as q \<Longrightarrow> f (last (p # as)) = q"
  by (induction as arbitrary: p) auto

lemma chain_redirect:
  "chain f p as q \<Longrightarrow> distinct (p # as) \<Longrightarrow> chain (f(last (p # as) := r)) p as r"
proof (induction as arbitrary: p)
  case (Cons a as)
  have IH: "chain (f(last (a # as) := r)) a as r" by (rule Cons.IH) (use Cons.prems in auto)
  have "last (a # as) \<in> set (a # as)" by (rule last_in_set) simp
  then have "p \<noteq> last (a # as)" using Cons.prems by auto
  moreover have "last (p # a # as) = last (a # as)" by simp
  ultimately show ?case
    using IH Cons.prems(1) by (simp only: chain.simps fun_upd_other simp_thms)
qed simp

text \<open>A cycle through a sentinel: reading, inserting and removing between two neighbours.\<close>

lemma cycle_next: "chain f s (as @ bs) s \<Longrightarrow> f (last (s # as)) = hd (bs @ [s])"
  by (cases bs) (auto simp: chain_append dest: chain_last)

lemma cycle_insert:
  assumes "chain f s (as @ bs) s" "distinct (s # as @ bs)" "x \<notin> set (s # as @ bs)"
  shows "chain (f(last (s # as) := x, x := hd (bs @ [s]))) s (as @ x # bs) s"
proof -
  let ?f = "f(last (s # as) := x)"
  have "last (s # as) \<in> set (s # as)" by (rule last_in_set) simp
  then have fresh: "last (s # as) \<notin> set bs" "last (s # as) \<noteq> x" using assms by auto
  have left: "chain ?f s as x"
  proof (cases bs)
    case Nil
    with assms show ?thesis by (intro chain_redirect) auto
  next
    case (Cons b bs')
    with assms(1) have "chain f s as b" by (simp add: chain_append)
    with assms(2) show ?thesis by (intro chain_redirect) auto
  qed
  have "chain (f(x := hd (bs @ [s]))) x bs s"
  proof (cases bs)
    case (Cons b bs')
    with assms(1) have "chain f b bs' s" by (simp add: chain_append)
    with Cons assms(3) show ?thesis by auto
  qed simp
  then have "chain (?f(x := hd (bs @ [s]))) x bs s"
    using fresh by (subst chain_cong [where g = "f(x := hd (bs @ [s]))"]) auto
  moreover have "chain (?f(x := hd (bs @ [s]))) s as x"
    using left assms(3) by (subst chain_upd) auto
  ultimately show ?thesis by (simp add: chain_append)
qed

lemma cycle_remove:
  assumes "chain f s (as @ x # bs) s" "distinct (s # as @ x # bs)"
  shows "chain (f(last (s # as) := hd (bs @ [s]))) s (as @ bs) s"
proof (cases bs)
  case Nil
  with assms have "chain f s as x" "distinct (s # as)" by (auto simp: chain_append)
  from chain_redirect [OF this, of s] Nil show ?thesis by simp
next
  case (Cons b bs')
  have "last (s # as) \<in> set (s # as)" by (rule last_in_set) simp
  then have "last (s # as) \<notin> set (b # bs')" using assms(2) Cons by auto
  moreover have "chain f b bs' s" "chain f s as x"
    using assms(1) Cons by (auto simp: chain_append)
  moreover have "distinct (s # as)" using assms(2) by auto
  then have "chain (f(last (s # as) := b)) s as b"
    using \<open>chain f s as x\<close> by (intro chain_redirect)
  ultimately show ?thesis
    using Cons by (simp add: chain_append del: last.simps)
qed

section \<open>The list invariant\<close>

definition list_cell :: "heap \<Rightarrow> nat \<Rightarrow> ptr \<Rightarrow> bool" where
  "list_cell h l p \<longleftrightarrow> refc h p = 1 \<and> belongs h p = Some l"

definition is_item :: "ptr \<Rightarrow> bool" where
  "is_item p = (case p of Item _ \<Rightarrow> True | _ \<Rightarrow> False)"

lemma is_item_simps [simp]: "is_item (Item n)" "\<not> is_item Null" "\<not> is_item (Sent l)"
  by (simp_all add: is_item_def)

text \<open>List \<open>l\<close> of heap \<open>h\<close> holds the items \<open>xs\<close> (at most \<open>2^63 - 1\<close> of them).\<close>

definition dll :: "heap \<Rightarrow> nat \<Rightarrow> ptr list \<Rightarrow> bool" where
  "dll h l xs \<longleftrightarrow>
     list_all is_item xs \<and> distinct xs \<and>
     chain (nxt h) (Sent l) xs (Sent l) \<and> chain (prv h) (Sent l) (rev xs) (Sent l) \<and>
     list_all (list_cell h l) (Sent l # xs) \<and>
     len h l = of_nat (length xs) \<and> length xs < 2 ^ 63"

text \<open>An item that is on no list.\<close>

definition off_list :: "heap \<Rightarrow> ptr \<Rightarrow> bool" where
  "off_list h p \<longleftrightarrow> is_item p \<and> refc h p = 0 \<and> belongs h p = None"

lemma dll_distinct: "dll h l xs \<Longrightarrow> distinct (Sent l # xs)"
  by (auto simp: dll_def list_all_iff)

lemma dll_item: "dll h l xs \<Longrightarrow> x \<in> set xs \<Longrightarrow> is_item x"
  by (auto simp: dll_def list_all_iff)

lemma dll_neq_Null: "dll h l xs \<Longrightarrow> x \<in> set (Sent l # xs) \<Longrightarrow> x \<noteq> Null"
  by (auto dest: dll_item)

lemma dll_cell: "dll h l xs \<Longrightarrow> x \<in> set (Sent l # xs) \<Longrightarrow> refc h x = 1 \<and> belongs h x = Some l"
  by (auto simp: dll_def list_all_iff list_cell_def)

lemma off_list_notin: "dll h l xs \<Longrightarrow> off_list h x \<Longrightarrow> x \<notin> set (Sent l # xs)"
  using dll_cell [of h l xs x] by (auto simp: off_list_def)

text \<open>Items of different lists are different, since each cell names its list.\<close>

lemma dll_disjoint: "dll h l xs \<Longrightarrow> dll h k ys \<Longrightarrow> l \<noteq> k \<Longrightarrow> set (Sent l # xs) \<inter> set (Sent k # ys) = {}"
  using dll_cell [of h l xs] dll_cell [of h k ys] by fastforce

lemma dll_nxt: "dll h l (xs @ ys) \<Longrightarrow> nxt h (last (Sent l # xs)) = hd (ys @ [Sent l])"
  unfolding dll_def by (blast dest: cycle_next)

lemma dll_prv: "dll h l (xs @ ys) \<Longrightarrow> prv h (hd (ys @ [Sent l])) = last (Sent l # xs)"
  using cycle_next [of "prv h" "Sent l" "rev ys" "rev xs"]
  by (cases ys) (auto simp: dll_def hd_append hd_rev last_rev split: if_splits)

lemma dll_frame:
  assumes "dll h l xs"
    and "\<And>p. p \<in> set (Sent l # xs) \<Longrightarrow>
      nxt h' p = nxt h p \<and> prv h' p = prv h p \<and> refc h' p = refc h p \<and> belongs h' p = belongs h p"
    and "len h' l = len h l"
  shows "dll h' l xs"
  using assms chain_cong [of "Sent l" xs "nxt h'" "nxt h" "Sent l"]
    chain_cong [of "Sent l" "rev xs" "prv h'" "prv h" "Sent l"]
  by (auto simp: dll_def list_all_iff list_cell_def)

lemma of_nat_u64_inj: "m < 2 ^ 63 \<Longrightarrow> n < 2 ^ 63 \<Longrightarrow> (of_nat m :: u64) = of_nat n \<longleftrightarrow> m = n"
  by (simp add: word_of_nat_eq_iff take_bit_nat_eq_self)

lemma dll_len_0: "dll h l xs \<Longrightarrow> len h l = 0 \<longleftrightarrow> xs = []"
  using of_nat_u64_inj [of "length xs" 0] by (auto simp: dll_def)

lemma dll_link:
  assumes d: "dll h l (xs @ ys)" and x: "is_item x" "x \<notin> set (Sent l # xs @ ys)"
    and room: "length (xs @ ys) + 1 < 2 ^ 63"
    and h': "nxt h' = (nxt h)(last (Sent l # xs) := x, x := hd (ys @ [Sent l]))"
      "prv h' = (prv h)(hd (ys @ [Sent l]) := x, x := last (Sent l # xs))"
      "refc h' = (refc h)(x := 1)" "belongs h' = (belongs h)(x := Some l)"
      "len h' l = len h l + 1"
  shows "dll h' l (xs @ x # ys)"
proof -
  have dist: "distinct (Sent l # xs @ ys)" using d by (rule dll_distinct)
  have cyc: "chain (nxt h) (Sent l) (xs @ ys) (Sent l)"
    "chain (prv h) (Sent l) (rev ys @ rev xs) (Sent l)"
    using d by (auto simp: dll_def)
  have "chain (nxt h') (Sent l) (xs @ x # ys) (Sent l)"
    unfolding h' using cyc(1) dist x(2) by (rule cycle_insert)
  moreover have "last (Sent l # rev ys) = hd (ys @ [Sent l])" "hd (rev xs @ [Sent l]) = last (Sent l # xs)"
    by (auto simp: last_rev hd_rev hd_append)
  then have "chain (prv h') (Sent l) (rev ys @ x # rev xs) (Sent l)"
    using cycle_insert [OF cyc(2), of x] dist x(2) unfolding h' by fastforce
  ultimately show ?thesis
    using d x room dist
    unfolding h'(3-4) dll_def by (auto simp: h' list_all_iff list_cell_def)
qed

lemma dll_unlink:
  assumes d: "dll h l (xs @ x # ys)"
    and h': "\<And>p. p \<noteq> x \<Longrightarrow> nxt h' p = ((nxt h)(last (Sent l # xs) := hd (ys @ [Sent l]))) p"
      "\<And>p. p \<noteq> x \<Longrightarrow> prv h' p = ((prv h)(hd (ys @ [Sent l]) := last (Sent l # xs))) p"
      "\<And>p. p \<noteq> x \<Longrightarrow> refc h' p = refc h p" "\<And>p. p \<noteq> x \<Longrightarrow> belongs h' p = belongs h p"
      "len h' l = len h l - 1"
  shows "dll h' l (xs @ ys)"
proof -
  have dist: "distinct (Sent l # xs @ x # ys)" using d by (rule dll_distinct)
  have "chain ((nxt h)(last (Sent l # xs) := hd (ys @ [Sent l]))) (Sent l) (xs @ ys) (Sent l)"
    using d dist by (intro cycle_remove) (auto simp: dll_def)
  moreover have notin: "x \<notin> set (Sent l # xs @ ys)" using dist by auto
  moreover have "chain (nxt h') (Sent l) (xs @ ys) (Sent l) =
      chain ((nxt h)(last (Sent l # xs) := hd (ys @ [Sent l]))) (Sent l) (xs @ ys) (Sent l)"
    by (rule chain_cong, rule h'(1)) (use notin in auto)
  ultimately have "chain (nxt h') (Sent l) (xs @ ys) (Sent l)" by simp
  moreover have "last (Sent l # rev ys) = hd (ys @ [Sent l])" "hd (rev xs @ [Sent l]) = last (Sent l # xs)"
    by (auto simp: last_rev hd_rev hd_append)
  then have "chain ((prv h)(hd (ys @ [Sent l]) := last (Sent l # xs))) (Sent l) (rev ys @ rev xs) (Sent l)"
    using cycle_remove [of "prv h" "Sent l" "rev ys" x "rev xs"] d dist
    by (simp add: dll_def Int_commute del: last.simps)
  moreover have "chain (prv h') (Sent l) (rev ys @ rev xs) (Sent l) =
      chain ((prv h)(hd (ys @ [Sent l]) := last (Sent l # xs))) (Sent l) (rev ys @ rev xs) (Sent l)"
    by (rule chain_cong, rule h'(2)) (use notin in auto)
  moreover have "list_cell h' l p" if "p \<in> set (Sent l # xs @ ys)" for p
    using that notin dll_cell [OF d, of p] h'(3,4) [of p] by (auto simp: list_cell_def)
  ultimately show ?thesis
    using d dist h'(5) unfolding dll_def by (auto simp: list_all_iff)
qed

section \<open>What an operation leaves alone\<close>

text \<open>Cells outside \<open>S\<close> and the lengths of the lists other than those in \<open>L\<close>.\<close>

definition same_outside :: "ptr set \<Rightarrow> nat set \<Rightarrow> heap \<Rightarrow> heap \<Rightarrow> bool" where
  "same_outside S L h h' \<longleftrightarrow>
     (\<forall>p. p \<notin> S \<longrightarrow> nxt h' p = nxt h p \<and> prv h' p = prv h p \<and> refc h' p = refc h p \<and>
        belongs h' p = belongs h p) \<and>
     (\<forall>k. k \<notin> L \<longrightarrow> len h' k = len h k)"

lemma same_outside_refl [simp]: "same_outside S L h h"
  by (simp add: same_outside_def)

lemma same_outside_trans:
  "same_outside S L h h' \<Longrightarrow> same_outside S' L' h' h'' \<Longrightarrow> same_outside (S \<union> S') (L \<union> L') h h''"
  by (auto simp: same_outside_def)

lemma same_outside_mono: "same_outside S L h h' \<Longrightarrow> S \<subseteq> S' \<Longrightarrow> L \<subseteq> L' \<Longrightarrow> same_outside S' L' h h'"
  by (auto simp: same_outside_def)

lemma dll_other:
  "dll h k ys \<Longrightarrow> same_outside S L h h' \<Longrightarrow> S \<inter> set (Sent k # ys) = {} \<Longrightarrow> k \<notin> L \<Longrightarrow> dll h' k ys"
  by (rule dll_frame) (auto simp: same_outside_def)

lemma off_list_other: "off_list h p \<Longrightarrow> same_outside S L h h' \<Longrightarrow> p \<notin> S \<Longrightarrow> off_list h' p"
  by (auto simp: same_outside_def off_list_def)

lemma last_mem: "last (x # xs) \<in> set (x # xs)"
  by (rule last_in_set) simp

lemma hd_mem: "hd (xs @ [x]) \<in> set (x # xs)"
  by (cases xs) auto

section \<open>The operations on well-formed lists\<close>

lemma append_dll:
  assumes d: "dll h l xs" and x: "off_list h x" and room: "length xs + 1 < 2 ^ 63"
  shows "\<exists>h'. unit_list_append here l x h = Some h' \<and> dll h' l (xs @ [x]) \<and>
    same_outside (set (x # Sent l # xs)) {l} h h'"
proof -
  have xn: "x \<notin> set (Sent l # xs)" using d x by (rule off_list_notin)
  have e: "prv h (Sent l) = last (Sent l # xs)" using dll_prv [of h l xs "[]"] d by simp
  have a: "last (Sent l # xs) \<noteq> Null" "last (Sent l # xs) \<noteq> x"
    using last_mem [of "Sent l" xs] dll_neq_Null [OF d] xn by metis+
  let ?h = "h\<lparr>nxt := (nxt h)(last (Sent l # xs) := x, x := Sent l),
    prv := (prv h)(Sent l := x, x := last (Sent l # xs)),
    refc := (refc h)(x := 1), belongs := (belongs h)(x := Some l),
    init_at := (init_at h)(x := here), len := (len h)(l := len h l + 1)\<rparr>"
  have "(prv h)(x := last (Sent l # xs), Sent l := x) = (prv h)(Sent l := x, x := last (Sent l # xs))"
    using xn by (intro fun_upd_twist) auto
  then have "unit_list_append here l x h = Some ?h"
    using x xn e a unfolding unit_list_append_def off_list_def is_item_def
    by (simp add: heap_ops Let_def del: last.simps split: ptr.splits)
  moreover have "dll ?h l (xs @ x # [])"
    using d x xn room by (intro dll_link [of h l xs "[]" x]) (auto simp: off_list_def)
  moreover have "same_outside (set (x # Sent l # xs)) {l} h ?h"
    using last_mem [of "Sent l" xs] by (auto simp: same_outside_def simp del: last.simps)
  ultimately show ?thesis by auto
qed

lemma prepend_dll:
  assumes d: "dll h l xs" and x: "off_list h x" and room: "length xs + 1 < 2 ^ 63"
  shows "\<exists>h'. unit_list_prepend l x h = Some h' \<and> dll h' l (x # xs) \<and>
    same_outside (set (x # Sent l # xs)) {l} h h'"
proof -
  have xn: "x \<notin> set (Sent l # xs)" using d x by (rule off_list_notin)
  have e: "nxt h (Sent l) = hd (xs @ [Sent l])" using dll_nxt [of h l "[]" xs] d by simp
  have a: "hd (xs @ [Sent l]) \<noteq> Null" "hd (xs @ [Sent l]) \<noteq> x"
    using hd_mem [of xs "Sent l"] dll_neq_Null [OF d] xn by metis+
  let ?h = "h\<lparr>nxt := (nxt h)(Sent l := x, x := hd (xs @ [Sent l])),
    prv := (prv h)(hd (xs @ [Sent l]) := x, x := Sent l),
    refc := (refc h)(x := 1), belongs := (belongs h)(x := Some l),
    len := (len h)(l := len h l + 1)\<rparr>"
  have "(nxt h)(x := hd (xs @ [Sent l]), Sent l := x) = (nxt h)(Sent l := x, x := hd (xs @ [Sent l]))"
    "(prv h)(x := Sent l, hd (xs @ [Sent l]) := x) = (prv h)(hd (xs @ [Sent l]) := x, x := Sent l)"
    using xn a by (auto intro!: fun_upd_twist)
  then have "unit_list_prepend l x h = Some ?h"
    using x xn e a unfolding unit_list_prepend_def off_list_def is_item_def
    by (simp add: heap_ops Let_def split: ptr.splits)
  moreover have "dll ?h l ([] @ x # xs)"
    using d x xn room by (intro dll_link [of h l "[]" xs x]) (auto simp: off_list_def)
  moreover have "same_outside (set (x # Sent l # xs)) {l} h ?h"
    using hd_mem [of xs "Sent l"] by (auto simp: same_outside_def)
  ultimately show ?thesis by auto
qed

lemma insert_pos_dll:
  assumes d: "dll h l (xs @ ys)" and x: "off_list h x" and room: "length (xs @ ys) + 1 < 2 ^ 63"
    and pos: "pos = hd (ys @ [Sent l])"
  shows "\<exists>h'. unit_list_insert_pos l pos x h = Some h' \<and> dll h' l (xs @ x # ys) \<and>
    same_outside (set (x # Sent l # xs @ ys)) {l} h h'"
proof -
  have xn: "x \<notin> set (Sent l # xs @ ys)" using d x by (rule off_list_notin)
  have e: "prv h pos = last (Sent l # xs)" unfolding pos using d by (rule dll_prv)
  have m: "pos \<in> set (Sent l # xs @ ys)" "last (Sent l # xs) \<in> set (Sent l # xs @ ys)"
    using hd_mem [of ys "Sent l"] last_mem [of "Sent l" xs] unfolding pos by auto
  then have a: "last (Sent l # xs) \<noteq> Null" "last (Sent l # xs) \<noteq> x" "pos \<noteq> Null" "pos \<noteq> x"
    using dll_neq_Null [OF d] xn by metis+
  let ?h = "h\<lparr>nxt := (nxt h)(last (Sent l # xs) := x, x := pos),
    prv := (prv h)(pos := x, x := last (Sent l # xs)),
    refc := (refc h)(x := 1), belongs := (belongs h)(x := Some l),
    len := (len h)(l := len h l + 1)\<rparr>"
  have "(nxt h)(x := pos, last (Sent l # xs) := x) = (nxt h)(last (Sent l # xs) := x, x := pos)"
    "(prv h)(x := last (Sent l # xs), pos := x) = (prv h)(pos := x, x := last (Sent l # xs))"
    using a by (auto intro!: fun_upd_twist)
  then have "unit_list_insert_pos l pos x h = Some ?h"
    using x xn e a unfolding unit_list_insert_pos_def off_list_def is_item_def
    by (simp add: heap_ops Let_def del: last.simps split: ptr.splits)
  moreover have "dll ?h l (xs @ x # ys)"
    using d x xn room unfolding pos by (intro dll_link) (auto simp: off_list_def)
  moreover have "same_outside (set (x # Sent l # xs @ ys)) {l} h ?h"
    using m by (auto simp: same_outside_def simp del: last.simps)
  ultimately show ?thesis by blast
qed

lemma remove_first_dll:
  assumes d: "dll h l (x # xs)"
  shows "\<exists>h'. unit_list_remove_first l h = Some (x, h') \<and> dll h' l xs \<and> off_list h' x \<and>
    same_outside (set (Sent l # x # xs)) {l} h h'"
proof -
  have n: "nxt h (Sent l) = x" "nxt h x = hd (xs @ [Sent l])" "prv h x = Sent l"
    using dll_nxt [of h l "[]" "x # xs"] dll_nxt [of h l "[x]" xs] dll_prv [of h l "[]" "x # xs"] d
    by auto
  have c: "refc h x = 1" "belongs h x = Some l" "is_item x" "x \<noteq> Null"
    using dll_cell [OF d, of x] dll_item [OF d, of x] dll_neq_Null [OF d, of x] by auto
  have m: "hd (xs @ [Sent l]) \<in> set (Sent l # xs)" by (rule hd_mem)
  then have a: "hd (xs @ [Sent l]) \<noteq> Null" "hd (xs @ [Sent l]) \<noteq> x" "x \<noteq> Sent l" "len h l \<noteq> 0"
    using dll_neq_Null [OF d, of "hd (xs @ [Sent l])"] dll_distinct [OF d] dll_len_0 [OF d] by auto
  let ?h = "h\<lparr>nxt := (nxt h)(Sent l := hd (xs @ [Sent l]), x := Null),
    prv := (prv h)(hd (xs @ [Sent l]) := Sent l, x := Null),
    refc := (refc h)(x := 0), belongs := (belongs h)(x := None), len := (len h)(l := len h l - 1)\<rparr>"
  have "unit_list_remove_first l h = Some (x, ?h)"
    using n c a unfolding unit_list_remove_first_def by (simp add: heap_ops Let_def)
  moreover have "dll ?h l ([] @ xs)"
    using d by (intro dll_unlink [of h l "[]" x xs]) auto
  moreover have "off_list ?h x" using c by (simp add: off_list_def)
  moreover have "same_outside (set (Sent l # x # xs)) {l} h ?h"
    using m by (auto simp: same_outside_def)
  ultimately show ?thesis by auto
qed

lemma remove_last_dll:
  assumes d: "dll h l (xs @ [x])"
  shows "\<exists>h'. unit_list_remove_last l h = Some (x, h') \<and> dll h' l xs \<and> off_list h' x \<and>
    same_outside (set (Sent l # xs @ [x])) {l} h h'"
proof -
  have n: "prv h (Sent l) = x" "prv h x = last (Sent l # xs)" "nxt h x = Sent l"
    using dll_prv [of h l "xs @ [x]" "[]"] dll_nxt [of h l "xs @ [x]" "[]"] dll_prv [of h l xs "[x]"] d
    by auto
  have c: "refc h x = 1" "belongs h x = Some l" "is_item x" "x \<noteq> Null"
    using dll_cell [OF d, of x] dll_item [OF d, of x] dll_neq_Null [OF d, of x] by auto
  have m: "last (Sent l # xs) \<in> set (Sent l # xs)" by (rule last_mem)
  then have a: "last (Sent l # xs) \<noteq> Null" "last (Sent l # xs) \<noteq> x" "x \<noteq> Sent l" "len h l \<noteq> 0"
    using dll_neq_Null [OF d, of "last (Sent l # xs)"] dll_distinct [OF d] dll_len_0 [OF d]
    by (auto simp del: last.simps)
  let ?h = "h\<lparr>nxt := (nxt h)(last (Sent l # xs) := Sent l, x := Null),
    prv := (prv h)(Sent l := last (Sent l # xs), x := Null),
    refc := (refc h)(x := 0), belongs := (belongs h)(x := None), len := (len h)(l := len h l - 1)\<rparr>"
  have "unit_list_remove_last l h = Some (x, ?h)"
    using n c a unfolding unit_list_remove_last_def by (simp add: heap_ops Let_def del: last.simps)
  moreover have "dll ?h l (xs @ [])"
    using d by (intro dll_unlink [of h l xs x "[]"]) auto
  moreover have "off_list ?h x" using c by (simp add: off_list_def)
  moreover have "same_outside (set (Sent l # xs @ [x])) {l} h ?h"
    using m by (auto simp: same_outside_def simp del: last.simps)
  ultimately show ?thesis by auto
qed

section \<open>Traversals\<close>

lemma visit_chain:
  "chain f p xs q \<Longrightarrow> q \<notin> set xs \<Longrightarrow> Null \<notin> set xs \<Longrightarrow> visit f (f p) q = Some xs"
proof (induction xs arbitrary: p)
  case (Cons x xs)
  from Cons.prems have "visit f (f x) q = Some xs" by (intro Cons.IH) auto
  with Cons.prems show ?case
    by (subst visit.simps) (auto simp: deref_def)
qed (subst visit.simps, simp)

lemma on_chain_spec:
  "chain (nxt h) p xs q \<Longrightarrow> q \<notin> set xs \<Longrightarrow> Null \<notin> set xs \<Longrightarrow>
    on_chain h (nxt h p) q x = Some (x \<in> set xs)"
proof (induction xs arbitrary: p)
  case (Cons a xs)
  from Cons.prems have "on_chain h (nxt h a) q x = Some (x \<in> set xs)" by (intro Cons.IH) auto
  with Cons.prems show ?case
    by (subst on_chain.simps) (auto simp: deref_def)
qed (subst on_chain.simps, simp)

lemma count_to_chain:
  "chain (nxt h) p xs q \<Longrightarrow> q \<notin> set xs \<Longrightarrow> Null \<notin> set xs \<Longrightarrow>
    count_to h (nxt h p) q n = Some (n + of_nat (length xs))"
proof (induction xs arbitrary: p n)
  case (Cons a xs)
  from Cons.prems have "count_to h (nxt h a) q (n + 1) = Some (n + 1 + of_nat (length xs))"
    by (intro Cons.IH) auto
  with Cons.prems show ?case
    by (subst count_to.simps) (auto simp: unit_list_get_next_def add.assoc)
qed (subst count_to.simps, simp)

lemma dll_chains:
  "dll h l xs \<Longrightarrow> chain (nxt h) (Sent l) xs (Sent l)"
  "dll h l xs \<Longrightarrow> chain (prv h) (Sent l) (rev xs) (Sent l)"
  "dll h l xs \<Longrightarrow> Null \<notin> set xs" "dll h l xs \<Longrightarrow> Sent l \<notin> set xs"
  by (auto simp: dll_def list_all_iff)

lemma get_first_dll: "dll h l xs \<Longrightarrow> unit_list_get_first h l = Some (hd (xs @ [Sent l]))"
  using dll_nxt [of h l "[]" xs] dll_cell [of h l xs "hd (xs @ [Sent l])"]
    dll_neq_Null [of h l xs "hd (xs @ [Sent l])"] hd_mem [of xs "Sent l"]
  by (auto simp: unit_list_get_first_def heap_ops)

lemma get_last_dll: "dll h l xs \<Longrightarrow> unit_list_get_last h l = Some (last (Sent l # xs))"
  using dll_prv [of h l xs "[]"] dll_cell [of h l xs "last (Sent l # xs)"]
    dll_neq_Null [of h l xs "last (Sent l # xs)"] last_mem [of "Sent l" xs]
  by (auto simp: unit_list_get_last_def heap_ops simp del: last.simps)

lemma is_empty_dll: "dll h l xs \<Longrightarrow> unit_list_is_empty h l \<longleftrightarrow> xs = []"
  using dll_nxt [of h l "[]" xs] dll_chains(4) [of h l xs]
  by (cases xs) (auto simp: unit_list_is_empty_def)

lemma get_size_dll:
  assumes d: "dll h l xs"
  shows "unit_list_get_size h l = Some (of_nat (length xs))"
proof -
  have "nxt h (Sent l) = hd (xs @ [Sent l])" using dll_nxt [of h l "[]" xs] d by simp
  then show ?thesis
    using count_to_chain [of h "Sent l" xs "Sent l" 0] d dll_chains [OF d] get_first_dll [OF d]
    by (auto simp: unit_list_get_size_def unit_list_get_end_def heap_ops dll_def)
qed

lemma foreach_dll: "dll h l xs \<Longrightarrow> UNIT_LIST_FOREACH h l = Some xs"
  unfolding UNIT_LIST_FOREACH_def by (rule visit_chain) (auto dest: dll_chains)

lemma foreach_rev_dll: "dll h l xs \<Longrightarrow> UNIT_LIST_FOREACH_REV h l = Some (rev xs)"
  unfolding UNIT_LIST_FOREACH_REV_def by (rule visit_chain) (auto dest: dll_chains)

lemma construct_dll: "dll (unit_list_construct l h) l []"
  by (simp add: dll_def unit_list_construct_def unit_list_item_construct_def heap_ops Let_def
      list_cell_def)

lemma construct_same: "same_outside {Sent l} {l} h (unit_list_construct l h)"
  by (simp add: same_outside_def unit_list_construct_def unit_list_item_construct_def heap_ops Let_def)

lemma item_construct_off: "is_item x \<Longrightarrow> off_list (unit_list_item_construct x h) x"
  by (simp add: off_list_def unit_list_item_construct_def)

lemma remove_item_absent:
  "dll h l xs \<Longrightarrow> x \<notin> set xs \<Longrightarrow> unit_list_remove_item l x h = Some (Null, h)"
  using on_chain_spec [of h "Sent l" xs "Sent l" x] dll_nxt [of h l "[]" xs] dll_chains [of h l xs]
    get_first_dll [of h l xs]
  by (simp add: unit_list_remove_item_def unit_list_get_end_def)

lemma remove_item_dll:
  assumes d: "dll h l (xs @ x # ys)"
  shows "\<exists>h'. unit_list_remove_item l x h = Some (last (Sent l # xs), h') \<and> dll h' l (xs @ ys) \<and>
    off_list h' x \<and> same_outside (set (Sent l # xs @ x # ys)) {l} h h'"
proof -
  have n: "prv h x = last (Sent l # xs)" "nxt h x = hd (ys @ [Sent l])"
    using dll_prv [of h l xs "x # ys"] dll_nxt [of h l "xs @ [x]" ys] d by auto
  have c: "refc h x = 1" "belongs h x = Some l" "is_item x" "x \<noteq> Null"
    using dll_cell [OF d, of x] dll_item [OF d, of x] dll_neq_Null [OF d, of x] by auto
  have m: "last (Sent l # xs) \<in> set (Sent l # xs @ ys)" "hd (ys @ [Sent l]) \<in> set (Sent l # xs @ ys)"
    using last_mem [of "Sent l" xs] hd_mem [of ys "Sent l"] by auto
  then have a: "hd (ys @ [Sent l]) \<noteq> Null" "hd (ys @ [Sent l]) \<noteq> x" "last (Sent l # xs) \<noteq> Null"
    "last (Sent l # xs) \<noteq> x" "x \<noteq> Sent l"
    using dll_neq_Null [OF d, of "last (Sent l # xs)"] dll_neq_Null [OF d, of "hd (ys @ [Sent l])"]
      dll_distinct [OF d] by (auto simp del: last.simps)
  have found: "on_chain h (hd ((xs @ x # ys) @ [Sent l])) (Sent l) x = Some True"
    using on_chain_spec [of h "Sent l" "xs @ x # ys" "Sent l" x] dll_chains [OF d]
      dll_nxt [of h l "[]" "xs @ x # ys"] d by simp
  let ?h = "h\<lparr>nxt := (nxt h)(last (Sent l # xs) := hd (ys @ [Sent l])),
    prv := (prv h)(hd (ys @ [Sent l]) := last (Sent l # xs)),
    refc := (refc h)(x := 0), belongs := (belongs h)(x := None), len := (len h)(l := len h l - 1)\<rparr>"
  have "unit_list_remove_item l x h = Some (last (Sent l # xs), ?h)"
    using n c a found get_first_dll [OF d] unfolding unit_list_remove_item_def
    by (simp add: heap_ops Let_def unit_list_get_end_def del: last.simps)
  moreover have "dll ?h l (xs @ ys)"
    by (rule dll_unlink [OF d]) (simp_all del: last.simps)
  moreover have "off_list ?h x" using c by (simp add: off_list_def)
  moreover have "same_outside (set (Sent l # xs @ x # ys)) {l} h ?h"
    using m by (auto simp: same_outside_def simp del: last.simps)
  ultimately show ?thesis by blast
qed

section \<open>Insertion by index\<close>

lemma sint_of_nat_u64: "n < 2 ^ 63 \<Longrightarrow> sint (of_nat n :: u64) = int n"
  by (simp add: signed_of_nat signed_take_bit_int_eq_self)

lemma sint_len: "dll h l xs \<Longrightarrow> sint (len h l) = int (length xs)"
  by (simp add: dll_def sint_of_nat_u64)

lemma steps_forward_chain:
  "chain (nxt h) p xs q \<Longrightarrow> n < length xs \<Longrightarrow> Null \<notin> set xs \<Longrightarrow> steps_forward n h (nxt h p) = Some (xs ! n)"
proof (induction n arbitrary: p xs)
  case 0
  then show ?case by (cases xs) auto
next
  case (Suc n)
  then obtain a as where xs: "xs = a # as" by (cases xs) auto
  with Suc.prems have "steps_forward n h (nxt h a) = Some (as ! n)" by (intro Suc.IH) auto
  with Suc.prems xs show ?case by (auto simp: deref_def)
qed

lemma insert_refused: "dll h l xs \<Longrightarrow> int (length xs) \<le> idx \<Longrightarrow> unit_list_insert l x idx h = Some (False, h)"
  by (simp add: unit_list_insert_def sint_len)

text \<open>The second branch, from the element \<open>last (Sent l # as)\<close> after which the item goes.\<close>

lemma insert_after_dll:
  assumes d: "dll h l (as @ bs)" and x: "off_list h x" and room: "length (as @ bs) + 1 < 2 ^ 63"
    and idx: "idx \<noteq> 0" "idx < int (length (as @ bs))"
    and at: "steps_forward (nat (idx - 1)) h (nxt h (Sent l)) = Some (last (Sent l # as))"
  shows "\<exists>h'. unit_list_insert l x idx h = Some (True, h') \<and> dll h' l (as @ x # bs) \<and>
    same_outside (set (x # Sent l # as @ bs)) {l} h h'"
proof -
  have xn: "x \<notin> set (Sent l # as @ bs)" using d x by (rule off_list_notin)
  have n: "nxt h (last (Sent l # as)) = hd (bs @ [Sent l])" using d by (rule dll_nxt)
  have m: "last (Sent l # as) \<in> set (Sent l # as @ bs)" "hd (bs @ [Sent l]) \<in> set (Sent l # as @ bs)"
    using last_mem [of "Sent l" as] hd_mem [of bs "Sent l"] by auto
  then have a: "last (Sent l # as) \<noteq> Null" "last (Sent l # as) \<noteq> x" "hd (bs @ [Sent l]) \<noteq> Null"
    "hd (bs @ [Sent l]) \<noteq> x" using dll_neq_Null [OF d] xn by metis+
  let ?h = "h\<lparr>nxt := (nxt h)(last (Sent l # as) := x, x := hd (bs @ [Sent l])),
    prv := (prv h)(hd (bs @ [Sent l]) := x, x := last (Sent l # as)),
    refc := (refc h)(x := 1), belongs := (belongs h)(x := Some l),
    len := (len h)(l := len h l + 1)\<rparr>"
  have "(nxt h)(x := hd (bs @ [Sent l]), last (Sent l # as) := x) =
      (nxt h)(last (Sent l # as) := x, x := hd (bs @ [Sent l]))"
    "(prv h)(x := last (Sent l # as), hd (bs @ [Sent l]) := x) =
      (prv h)(hd (bs @ [Sent l]) := x, x := last (Sent l # as))"
    using a by (auto intro!: fun_upd_twist)
  then have "unit_list_insert l x idx h = Some (True, ?h)"
    using x xn n a at idx sint_len [OF d] unfolding unit_list_insert_def off_list_def is_item_def
    by (simp add: heap_ops Let_def del: last.simps split: ptr.splits)
  moreover have "dll ?h l (as @ x # bs)"
    using d x xn room by (intro dll_link) (auto simp: off_list_def)
  moreover have "same_outside (set (x # Sent l # as @ bs)) {l} h ?h"
    using m by (auto simp: same_outside_def simp del: last.simps)
  ultimately show ?thesis by blast
qed

lemma insert_dll:
  assumes d: "dll h l xs" and x: "off_list h x" and room: "length xs + 1 < 2 ^ 63"
    and idx: "0 < idx" "idx < int (length xs)"
  shows "\<exists>h'. unit_list_insert l x idx h = Some (True, h') \<and>
    dll h' l (take (nat idx) xs @ x # drop (nat idx) xs) \<and>
    same_outside (set (x # Sent l # xs)) {l} h h'"
proof -
  let ?as = "take (nat idx) xs" and ?bs = "drop (nat idx) xs"
  have "steps_forward (nat (idx - 1)) h (nxt h (Sent l)) = Some (xs ! nat (idx - 1))"
    using dll_chains [OF d] idx by (intro steps_forward_chain) auto
  moreover have "xs ! nat (idx - 1) = last (Sent l # ?as)"
  proof -
    have "nat (idx - 1) = nat idx - 1" "0 < nat idx" "nat idx \<le> length xs" using idx by auto
    moreover from this have "?as \<noteq> []" by auto
    ultimately show ?thesis by (simp add: last_conv_nth)
  qed
  ultimately show ?thesis
    using insert_after_dll [of h l ?as ?bs x idx] d x room idx by simp
qed

lemma insert_negative_dll:
  assumes d: "dll h l (a # xs)" and x: "off_list h x" and room: "length xs + 2 < 2 ^ 63" and idx: "idx < 0"
  shows "\<exists>h'. unit_list_insert l x idx h = Some (True, h') \<and> dll h' l (a # x # xs)"
  using insert_after_dll [of h l "[a]" xs x idx] dll_nxt [of h l "[]" "a # xs"] d x room idx by auto

text \<open>Index 0: the item is first, but the length is one too large.\<close>

lemma insert_zero:
  assumes d: "dll h l xs" and x: "off_list h x" and xs: "xs \<noteq> []" and room: "length xs + 1 < 2 ^ 63"
  shows "\<exists>h'. unit_list_insert l x 0 h = Some (True, h') \<and> UNIT_LIST_FOREACH h' l = Some (x # xs) \<and>
    len h' l = of_nat (length xs + 2) \<and> unit_list_get_size h' l = None"
proof -
  obtain h1 where h1: "unit_list_prepend l x h = Some h1" "dll h1 l (x # xs)"
    using prepend_dll [OF d x room] by auto
  let ?h = "set_len l (len h1 l + 1) h1"
  have "unit_list_insert l x 0 h = Some (True, ?h)"
    using h1 xs sint_len [OF d] by (simp add: unit_list_insert_def)
  moreover have c: "chain (nxt ?h) (Sent l) (x # xs) (Sent l)" "Sent l \<notin> set (x # xs)" "Null \<notin> set (x # xs)"
    using dll_chains [OF h1(2)] by (simp_all add: set_len_def)
  then have "UNIT_LIST_FOREACH ?h l = Some (x # xs)"
    unfolding UNIT_LIST_FOREACH_def by (rule visit_chain)
  moreover have "len ?h l = of_nat (length xs + 2)" using h1(2) by (simp add: dll_def set_len_def)
  moreover have "count_to ?h (nxt ?h (Sent l)) (Sent l) 0 = Some (of_nat (length (x # xs)))"
    using count_to_chain [OF c, of 0] by simp
  then have "unit_list_get_size ?h l = None"
    using get_first_dll [OF h1(2)] dll_nxt [of h1 l "[]" "x # xs"] h1(2)
    by (simp add: unit_list_get_size_def unit_list_get_end_def unit_list_get_first_def heap_ops dll_def
        bind_eq_None_conv)
  ultimately show ?thesis by blast
qed

section \<open>Moving a range\<close>

lemma chain_split:
  "chain f p (as @ bs) q \<longleftrightarrow> chain f p as (hd (bs @ [q])) \<and> (bs = [] \<or> chain f (hd bs) (tl bs) q)"
  by (cases bs) (auto simp: chain_append)

lemma chain_drop: "chain f p (as @ bs) q \<Longrightarrow> chain f (last (p # as)) bs q"
  by (induction as arbitrary: p) auto

lemma cycle_remove_range:
  assumes "chain f s (as @ ds @ bs) s" "distinct (s # as @ ds @ bs)"
  shows "chain (f(last (s # as) := hd (bs @ [s]))) s (as @ bs) s"
proof -
  have "chain f s as (hd ((ds @ bs) @ [s]))" and bs: "bs = [] \<or> chain f (hd bs) (tl bs) s"
    using assms(1) chain_split [of f s "as @ ds" bs s] by (simp_all add: chain_split)
  moreover have "distinct (s # as)" using assms(2) by auto
  ultimately have "chain (f(last (s # as) := hd (bs @ [s]))) s as (hd (bs @ [s]))"
    by (intro chain_redirect)
  moreover have "last (s # as) \<notin> set bs" using assms(2) last_mem [of s as] by auto
  then have "bs = [] \<or> chain (f(last (s # as) := hd (bs @ [s]))) (hd bs) (tl bs) s"
    using bs by (cases bs) (auto simp del: last.simps)
  ultimately show ?thesis by (simp add: chain_split del: last.simps)
qed

lemma cycle_insert_range:
  assumes "chain f s (as @ bs) s" "distinct (s # as @ bs)" "chain f (hd ds) (tl ds) q" "ds \<noteq> []"
    "distinct ds" "set ds \<inter> set (s # as @ bs) = {}"
  shows "chain (f(last ds := hd (bs @ [s]), last (s # as) := hd ds)) s (as @ ds @ bs) s"
    (is "chain ?g _ _ _")
proof -
  obtain d ds' where ds: "ds = d # ds'" using assms(4) by (cases ds) auto
  have m: "last (s # as) \<in> set (s # as)" "last ds \<in> set ds" using assms(4) last_mem by auto
  then have a: "last (s # as) \<notin> set bs" "last (s # as) \<notin> set ds" "last ds \<notin> set (s # as @ bs)"
    using assms(2,6) by auto
  have bs: "chain f s as (hd (bs @ [s]))" "bs = [] \<or> chain f (hd bs) (tl bs) s"
    using assms(1) by (simp_all add: chain_split)
  have "chain (f(last ds := hd (bs @ [s]))) s as (hd (bs @ [s]))" using bs(1) a by simp
  then have "chain ?g s as d" using chain_redirect [of _ s as _ "hd ds"] assms(2) ds by simp
  moreover have "chain (f(last ds := hd (bs @ [s]))) d ds' (hd (bs @ [s]))"
    using chain_redirect [of f d ds'] assms(3,5) ds by simp
  then have "chain ?g d ds' (hd (bs @ [s]))" using a(2) ds by (simp del: last.simps)
  moreover have "bs = [] \<or> chain ?g (hd bs) (tl bs) s"
    using bs(2) a by (cases bs) (auto simp del: last.simps)
  ultimately show ?thesis by (simp add: ds chain_split chain_append del: last.simps fun_upd_apply)
qed

lemma rehome_chain:
  "chain (nxt h) p xs q \<Longrightarrow> q \<notin> set xs \<Longrightarrow> q \<noteq> Null \<Longrightarrow> Null \<notin> set xs \<Longrightarrow> belongs h q = b \<Longrightarrow>
    rehome q (nxt h p) h = Some (h\<lparr>belongs := (\<lambda>x. if x \<in> set xs then b else belongs h x)\<rparr>)"
proof (induction xs arbitrary: p h)
  case Nil
  then show ?case by (subst rehome.simps) simp
next
  case (Cons a xs)
  let ?h = "set_belongs a (belongs h q) h"
  have "rehome q (nxt ?h a) ?h = Some (?h\<lparr>belongs := (\<lambda>x. if x \<in> set xs then b else belongs ?h x)\<rparr>)"
    using Cons.prems by (intro Cons.IH) (auto simp: set_belongs_def)
  moreover have "nxt h p = a" "q \<noteq> a" "a \<noteq> Null" "nxt h a \<noteq> Null"
    using Cons.prems by (auto, cases xs, auto)
  ultimately show ?case
    using Cons.prems by (subst rehome.simps) (auto simp: heap_ops Let_def intro!: heap.equality)
qed

lemma transfer_dll:
  assumes l: "dll h l (as @ bs)" and k: "dll h k (cs @ ds @ es)" and neq: "l \<noteq> k" and ds: "ds \<noteq> []"
    and room: "length (as @ ds @ bs) < 2 ^ 63"
  shows "\<exists>h'. unit_list_transfer (hd (bs @ [Sent l])) (hd ds) (hd (es @ [Sent k])) h = Some h' \<and> len h' = len h \<and>
    (\<forall>h''. h'' = set_len k (of_nat (length (cs @ es))) (set_len l (of_nat (length (as @ ds @ bs))) h') \<longrightarrow>
      dll h'' l (as @ ds @ bs) \<and> dll h'' k (cs @ es) \<and>
      same_outside (set (Sent l # as @ bs) \<union> set (Sent k # cs @ ds @ es)) {l, k} h h'')"
proof -
  let ?pos = "hd (bs @ [Sent l])" and ?stop = "hd (es @ [Sent k])" and ?beg = "hd ds" and ?fin = "last ds"
    and ?la = "last (Sent l # as)" and ?lc = "last (Sent k # cs)"
  let ?L = "set (Sent l # as @ bs)" and ?K = "set (Sent k # cs @ ds @ es)"
  have dist: "distinct (Sent l # as @ bs)" "distinct (Sent k # cs @ ds @ es)"
    using l k dll_distinct by blast+
  have disj: "?L \<inter> ?K = {}" using l k neq by (rule dll_disjoint)
  have mL: "?pos \<in> ?L" "?la \<in> ?L"
    using hd_mem [of bs "Sent l"] last_mem [of "Sent l" as] by auto
  have mK: "?stop \<in> set (Sent k # es)" "?lc \<in> set (Sent k # cs)" "?beg \<in> set ds" "?fin \<in> set ds"
    using hd_mem [of es "Sent k"] last_mem [of "Sent k" cs] ds by (auto simp del: last.simps)
  have nn: "?pos \<noteq> Null" "?la \<noteq> Null" "?stop \<noteq> Null" "?lc \<noteq> Null" "?beg \<noteq> Null" "?fin \<noteq> Null"
    using mL mK dll_neq_Null [OF l] dll_neq_Null [OF k] by auto
  have ne: "?pos \<noteq> ?stop" "?pos \<noteq> ?beg" "?pos \<noteq> ?fin" "?la \<noteq> ?fin" "?la \<noteq> ?lc" "?la \<noteq> ?beg"
    "?fin \<noteq> ?lc" "?beg \<noteq> ?stop" "?lc \<noteq> ?fin"
  proof -
    have "set ds \<inter> set (Sent k # cs) = {}" "set ds \<inter> set (Sent k # es) = {}" using dist(2) by auto
    moreover have "set ds \<subseteq> ?K" "set (Sent k # cs) \<subseteq> ?K" "set (Sent k # es) \<subseteq> ?K" by auto
    ultimately show "?pos \<noteq> ?stop" "?pos \<noteq> ?beg" "?pos \<noteq> ?fin" "?la \<noteq> ?fin" "?la \<noteq> ?lc" "?la \<noteq> ?beg"
      "?fin \<noteq> ?lc" "?beg \<noteq> ?stop" "?lc \<noteq> ?fin"
      using disj mL mK by (metis disjoint_iff subsetD)+
  qed
  have r: "prv h ?pos = ?la" "prv h ?beg = ?lc" "prv h ?stop = ?fin"
    "belongs h ?pos = Some l"
    using dll_prv [OF l] dll_prv [of h k cs "ds @ es"] dll_prv [of h k "cs @ ds" es] k ds
      dll_cell [OF l mL(1)] by auto
  let ?n = "(nxt h)(?lc := ?stop, ?fin := ?pos, ?la := ?beg)"
  let ?p = "(prv h)(?stop := ?lc, ?beg := ?la, ?pos := ?fin)"
  let ?h = "h\<lparr>nxt := ?n, prv := ?p\<rparr>"
  have "?n = (nxt h)(?fin := ?pos, ?lc := ?stop, ?la := ?beg)"
    "?p = (prv h)(?pos := ?fin, ?stop := ?lc, ?beg := ?la)"
    using ne by (metis fun_upd_twist)+
  then have un: "unit_list_transfer ?pos ?beg ?stop h = rehome ?pos ?beg ?h"
    using r nn ne unfolding unit_list_transfer_def
    by (simp add: heap_ops Let_def del: last.simps)
  have inner: "chain (nxt h) ?beg (tl ds) ?stop" "chain (prv h) (hd (rev ds)) (tl (rev ds)) ?lc"
    using k ds unfolding dll_def by (auto simp: chain_split hd_append hd_rev tl_append rev_append split: list.splits)
  have swap: "last (Sent l # rev bs) = ?pos" "hd (rev as @ [Sent l]) = ?la" "last (rev ds) = ?beg"
    "hd (rev ds) = ?fin" "last (Sent k # rev es) = ?stop" "hd (rev cs @ [Sent k]) = ?lc"
    using ds by (auto simp: last_rev hd_rev hd_append)
  have out: "?lc \<notin> ?L" "?stop \<notin> ?L" "?lc \<notin> set ds" "?stop \<notin> set ds" "set ds \<inter> ?L = {}"
    "?fin \<notin> set (Sent k # cs @ es)" "?la \<notin> set (Sent k # cs @ es)"
    "?beg \<notin> set (Sent k # cs @ es)" "?pos \<notin> set (Sent k # cs @ es)"
  proof -
    have "set ds \<inter> set (Sent k # cs) = {}" "set ds \<inter> set (Sent k # es) = {}" using dist(2) by auto
    moreover have "set ds \<subseteq> ?K" "set (Sent k # cs) \<subseteq> ?K" "set (Sent k # es) \<subseteq> ?K"
      "set (Sent k # cs @ es) = set (Sent k # cs) \<union> set (Sent k # es)" by auto
    ultimately show "?lc \<notin> ?L" "?stop \<notin> ?L" "?lc \<notin> set ds" "?stop \<notin> set ds" "set ds \<inter> ?L = {}"
      "?fin \<notin> set (Sent k # cs @ es)" "?la \<notin> set (Sent k # cs @ es)"
      "?beg \<notin> set (Sent k # cs @ es)" "?pos \<notin> set (Sent k # cs @ es)"
      using disj mL mK by blast+
  qed
  have nL: "chain ?n (Sent l) (as @ ds @ bs) (Sent l)"
    by (rule cycle_insert_range [where q = "?stop"])
      (use dll_chains(1) [OF l] dist inner(1) ds out in \<open>simp_all del: last.simps\<close>)
  have nK: "chain ?n (Sent k) (cs @ es) (Sent k)"
    using cycle_remove_range [of "nxt h" "Sent k" cs ds es] dll_chains(1) [OF k] dist(2) out
    by (simp del: last.simps)
  have "hd (rev ds) # tl (rev ds) = rev ds" using ds by simp
  then have "?stop \<notin> set (hd (rev ds) # tl (rev ds))" using out by simp
  then have "chain ((prv h)(?stop := ?lc)) (hd (rev ds)) (tl (rev ds)) ?lc" using inner(2) by simp
  moreover have "distinct (Sent l # rev bs @ rev as)" "set (rev ds) \<inter> set (Sent l # rev bs @ rev as) = {}"
    "distinct (rev ds)" using dist out by auto
  moreover have "chain ((prv h)(?stop := ?lc)) (Sent l) (rev bs @ rev as) (Sent l)"
    using dll_chains(2) [OF l] out by (simp del: last.simps)
  ultimately have pL: "chain ?p (Sent l) (rev bs @ rev ds @ rev as) (Sent l)"
    using cycle_insert_range [of "(prv h)(?stop := ?lc)" "Sent l" "rev bs" "rev as" "rev ds" "?lc"] ds swap
    by (simp del: last.simps)
  have "distinct (Sent k # rev es @ rev ds @ rev cs)" using dist(2) by auto
  then have pK: "chain ?p (Sent k) (rev es @ rev cs) (Sent k)"
    using cycle_remove_range [of "prv h" "Sent k" "rev es" "rev ds" "rev cs"] dll_chains(2) [OF k]
      out swap by (simp del: last.simps)
  let ?h' = "?h\<lparr>belongs := (\<lambda>x. if x \<in> set ds then Some l else belongs ?h x)\<rparr>"
  have "chain (nxt ?h) ?la ds ?pos"
    using chain_drop [OF nL] by (simp add: chain_split del: last.simps)
  then have "rehome ?pos (nxt ?h ?la) ?h = Some ?h'"
    using nn(1) dll_chains(3) [OF k] r(4) mL(1) out(5) by (intro rehome_chain) auto
  moreover have "nxt ?h ?la = ?beg" by simp
  ultimately have "unit_list_transfer ?pos ?beg ?stop h = Some ?h'" using un by simp
  moreover have "dll h'' l (as @ ds @ bs) \<and> dll h'' k (cs @ es) \<and> same_outside (?L \<union> ?K) {l, k} h h''"
    if "h'' = set_len k (of_nat (length (cs @ es))) (set_len l (of_nat (length (as @ ds @ bs))) ?h')" for h''
  proof (intro conjI)
    show "dll h'' l (as @ ds @ bs)"
      using l k neq dist out(5) nL pL room unfolding that dll_def
      by (auto simp: set_len_def list_all_iff list_cell_def simp del: last.simps)
    show "dll h'' k (cs @ es)"
      using k neq dist nK pK unfolding that dll_def
      by (auto simp: set_len_def list_all_iff list_cell_def simp del: last.simps)
    show "same_outside (?L \<union> ?K) {l, k} h h''"
      using mL mK unfolding that by (auto simp: same_outside_def set_len_def simp del: last.simps)
  qed
  ultimately show ?thesis by auto
qed

lemma join_dll:
  assumes l: "dll h l (as @ bs)" and k: "dll h k xs" and neq: "l \<noteq> k"
    and room: "length (as @ xs @ bs) < 2 ^ 63"
  shows "\<exists>h'. unit_list_join l (hd (bs @ [Sent l])) k h = Some h' \<and> dll h' l (as @ xs @ bs) \<and> dll h' k [] \<and>
    same_outside (set (Sent l # as @ bs) \<union> set (Sent k # xs)) {l, k} h h'"
proof (cases "xs = []")
  case True
  then show ?thesis
    using l k get_size_dll [OF k] by (auto simp: unit_list_join_def)
next
  case False
  obtain h1 where h1: "unit_list_transfer (hd (bs @ [Sent l])) (hd xs) (Sent k) h = Some h1" "len h1 = len h"
      "\<And>h''. h'' = set_len k 0 (set_len l (of_nat (length (as @ xs @ bs))) h1) \<Longrightarrow>
        dll h'' l (as @ xs @ bs) \<and> dll h'' k [] \<and>
        same_outside (set (Sent l # as @ bs) \<union> set (Sent k # xs)) {l, k} h h''"
    using transfer_dll [of h l as bs k "[]" xs "[]"] l k neq False room by auto
  have "of_nat (length xs) \<noteq> (0 :: u64)"
    using of_nat_u64_inj [of "length xs" 0] k False by (auto simp: dll_def)
  moreover have "len h l + len h k = of_nat (length (as @ xs @ bs))"
    using l k by (simp add: dll_def)
  ultimately have "unit_list_join l (hd (bs @ [Sent l])) k h =
      Some (set_len k 0 (set_len l (of_nat (length (as @ xs @ bs))) h1))"
    using h1(1,2) get_size_dll [OF k] get_first_dll [OF k] False
    by (simp add: unit_list_join_def unit_list_get_end_def Let_def)
  then show ?thesis using h1(3) by blast
qed

lemma splice_dll:
  assumes l: "dll h l (as @ bs)" and k: "dll h k (cs @ ds @ es)" and neq: "l \<noteq> k" and ds: "ds \<noteq> []"
    and room: "length (as @ ds @ bs) < 2 ^ 63"
  shows "\<exists>h'. unit_list_splice l (hd (bs @ [Sent l])) k (hd ds) (hd (es @ [Sent k])) h = Some h' \<and>
    dll h' l (as @ ds @ bs) \<and> dll h' k (cs @ es) \<and>
    same_outside (set (Sent l # as @ bs) \<union> set (Sent k # cs @ ds @ es)) {l, k} h h'"
proof -
  obtain h1 where h1: "unit_list_transfer (hd (bs @ [Sent l])) (hd ds) (hd (es @ [Sent k])) h = Some h1"
      "len h1 = len h"
      "\<And>h''. h'' = set_len k (of_nat (length (cs @ es))) (set_len l (of_nat (length (as @ ds @ bs))) h1) \<Longrightarrow>
        dll h'' l (as @ ds @ bs) \<and> dll h'' k (cs @ es) \<and>
        same_outside (set (Sent l # as @ bs) \<union> set (Sent k # cs @ ds @ es)) {l, k} h h''"
    using transfer_dll [OF assms] by auto
  have dist: "distinct (Sent k # cs @ ds @ es)" using k by (rule dll_distinct)
  have m: "hd ds \<in> set ds" "hd (es @ [Sent k]) \<in> set (Sent k # es)" using ds hd_mem [of es "Sent k"] by auto
  then have ne: "hd ds \<noteq> hd (es @ [Sent k])" "hd (es @ [Sent k]) \<notin> set ds" using dist by auto
  have "chain (nxt h) (last (Sent k # cs)) ds (hd (es @ [Sent k]))"
    using chain_drop [of "nxt h" "Sent k" cs "ds @ es" "Sent k"] dll_chains(1) [OF k] by (simp add: chain_split)
  from count_to_chain [OF this, of 0] ne dll_chains(3) [OF k] dll_nxt [of h k cs "ds @ es"] k ds
  have c: "count_to h (hd ds) (hd (es @ [Sent k])) 0 = Some (of_nat (length ds))" by (auto simp: hd_append)
  have n: "len h l + of_nat (length ds) = of_nat (length (as @ ds @ bs))"
    "len h k - of_nat (length ds) = of_nat (length (cs @ es))"
    using l k by (simp_all add: dll_def)
  have "unit_list_splice l (hd (bs @ [Sent l])) k (hd ds) (hd (es @ [Sent k])) h =
      Some (set_len k (of_nat (length (cs @ es))) (set_len l (of_nat (length (as @ ds @ bs))) h1))"
    using h1(1,2) c ne(1) neq n by (simp add: unit_list_splice_def Let_def) (simp add: set_len_def ac_simps)
  then show ?thesis using h1(3) by blast
qed

section \<open>Draining, sorting and destruction\<close>

lemma drain_dll:
  "dll h l xs \<Longrightarrow> \<exists>h'. drain l h = Some (xs, h') \<and> dll h' l [] \<and> list_all (off_list h') xs \<and>
    same_outside (set (Sent l # xs)) {l} h h'"
proof (induction xs arbitrary: h)
  case Nil
  then show ?case
    by (subst drain.simps) (use dll_len_0 [of h l "[]"] in \<open>auto simp: unit_list_remove_first_def\<close>)
next
  case (Cons x xs)
  obtain h1 where h1: "unit_list_remove_first l h = Some (x, h1)" "dll h1 l xs" "off_list h1 x"
      "same_outside (set (Sent l # x # xs)) {l} h h1"
    using remove_first_dll [OF Cons.prems] by auto
  obtain h2 where h2: "drain l h1 = Some (xs, h2)" "dll h2 l []" "list_all (off_list h2) xs"
      "same_outside (set (Sent l # xs)) {l} h1 h2"
    using Cons.IH [OF h1(2)] by auto
  have "x \<notin> set (Sent l # xs)" using h1(2,3) by (rule off_list_notin)
  then have "off_list h2 x" using off_list_other [OF h1(3) h2(4)] by simp
  moreover have "same_outside (set (Sent l # x # xs)) {l} h h2"
    using same_outside_trans [OF h1(4) h2(4)] by (rule same_outside_mono) auto
  moreover have "x \<noteq> Null" using dll_neq_Null [OF Cons.prems, of x] by simp
  ultimately show ?case
    using h1(1) h2 by (subst drain.simps) auto
qed

lemma append_items_dll:
  "dll h l ys \<Longrightarrow> list_all (off_list h) xs \<Longrightarrow> distinct xs \<Longrightarrow> length (ys @ xs) < 2 ^ 63 \<Longrightarrow>
    \<exists>h'. append_items here l xs h = Some h' \<and> dll h' l (ys @ xs) \<and>
      same_outside (set (Sent l # ys @ xs)) {l} h h'"
proof (induction xs arbitrary: h ys)
  case (Cons x xs)
  obtain h1 where h1: "unit_list_append here l x h = Some h1" "dll h1 l (ys @ [x])"
      "same_outside (set (x # Sent l # ys)) {l} h h1"
    using append_dll [OF Cons.prems(1), of x here] Cons.prems by auto
  have "y \<notin> set (x # Sent l # ys)" if "y \<in> set xs" for y
    using off_list_notin [OF Cons.prems(1), of y] Cons.prems(2,3) that by (auto simp: list_all_iff)
  then have "list_all (off_list h1) xs"
    using off_list_other [OF _ h1(3)] Cons.prems(2) by (auto simp: list_all_iff)
  then obtain h2 where h2: "append_items here l xs h1 = Some h2" "dll h2 l (ys @ x # xs)"
      "same_outside (set (Sent l # (ys @ [x]) @ xs)) {l} h1 h2"
    using Cons.IH [OF h1(2)] Cons.prems by auto
  have "same_outside (set (Sent l # ys @ x # xs)) {l} h h2"
    using same_outside_trans [OF h1(3) h2(3)] by (rule same_outside_mono) auto
  with h1(1) h2 show ?case by auto
qed auto

lemma sort_dll:
  assumes d: "dll h l xs" and q: "\<And>ys. mset (qsort ys) = mset ys"
  shows "\<exists>h'. unit_list_sort qsort here [] l h = Some (PMIX_SUCCESS, h') \<and>
    dll h' l (if xs = [] then [] else qsort xs) \<and> same_outside (set (Sent l # xs)) {l} h h'"
proof (cases "xs = []")
  case True
  then show ?thesis using d dll_len_0 [OF d] by (auto simp: unit_list_sort_def)
next
  case False
  obtain h1 where h1: "drain l h = Some (xs, h1)" "dll h1 l []" "list_all (off_list h1) xs"
      "same_outside (set (Sent l # xs)) {l} h h1" using drain_dll [OF d] by auto
  have s: "set (qsort xs) = set xs" "length (qsort xs) = length xs" "distinct (qsort xs) = distinct xs"
    using q [of xs] mset_eq_setD mset_eq_length mset_eq_imp_distinct_iff by blast+
  obtain h2 where h2: "append_items here l (qsort xs) h1 = Some h2" "dll h2 l (qsort xs)"
      "same_outside (set (Sent l # qsort xs)) {l} h1 h2"
    using append_items_dll [OF h1(2), of "qsort xs" here] h1(3) s d by (auto simp: dll_def list_all_iff)
  have "same_outside (set (Sent l # xs)) {l} h h2"
    using same_outside_trans [OF h1(4) h2(3)] by (rule same_outside_mono) (auto simp: s)
  with h1(1) h2 False show ?thesis
    using dll_len_0 [OF d] by (auto simp: unit_list_sort_def)
qed

lemma release_items_dll:
  "dll h l xs \<Longrightarrow> \<exists>h'. release_items l h = Some (xs, h') \<and> dll h' l [] \<and> list_all (off_list h') xs \<and>
    same_outside (set (Sent l # xs)) {l} h h'"
proof (induction xs arbitrary: h)
  case Nil
  then show ?case
    by (subst release_items.simps) (use dll_len_0 [of h l "[]"] in \<open>auto simp: unit_list_remove_first_def\<close>)
next
  case (Cons x xs)
  obtain h1 where h1: "unit_list_remove_first l h = Some (x, h1)" "dll h1 l xs" "off_list h1 x"
      "same_outside (set (Sent l # x # xs)) {l} h h1"
    using remove_first_dll [OF Cons.prems] by auto
  obtain h2 where h2: "release_items l h1 = Some (xs, h2)" "dll h2 l []" "list_all (off_list h2) xs"
      "same_outside (set (Sent l # xs)) {l} h1 h2"
    using Cons.IH [OF h1(2)] by auto
  have "x \<notin> set (Sent l # xs)" using h1(2,3) by (rule off_list_notin)
  then have "off_list h2 x" using off_list_other [OF h1(3) h2(4)] by simp
  moreover have "same_outside (set (Sent l # x # xs)) {l} h h2"
    using same_outside_trans [OF h1(4) h2(4)] by (rule same_outside_mono) auto
  moreover have "x \<noteq> Null" using dll_neq_Null [OF Cons.prems, of x] by simp
  moreover have "unit_list_item_destruct x h1 = Some ()"
    using h1(3) by (simp add: unit_list_item_destruct_def assert_that_def off_list_def)
  ultimately show ?case
    using h1(1) h2 by (subst release_items.simps) auto
qed

lemma DESTRUCT_dll:
  assumes d: "dll h l xs"
  shows "\<exists>h'. UNIT_LIST_DESTRUCT l h = Some (xs, h') \<and> dll h' l [] \<and> list_all (off_list h') xs \<and>
    same_outside (set (Sent l # xs)) {l} h h'"
proof -
  obtain h1 where h1: "release_items l h = Some (xs, h1)" "list_all (off_list h1) xs"
      "same_outside (set (Sent l # xs)) {l} h h1" using release_items_dll [OF d] by auto
  have "list_all (off_list (unit_list_construct l h1)) xs"
    using h1(2) off_list_other [OF _ construct_same [of l h1]] dll_chains(4) [OF d]
    by (auto simp: list_all_iff)
  moreover have "same_outside (set (Sent l # xs)) {l} h (unit_list_construct l h1)"
    using same_outside_trans [OF h1(3) construct_same] by (rule same_outside_mono) auto
  ultimately show ?thesis
    using h1(1) construct_dll [of l h1] by (auto simp: UNIT_LIST_DESTRUCT_def unit_list_destruct_def)
qed

section \<open>Sweeping\<close>

lemma sweep_dll:
  assumes inv: "\<And>seen rest s. I seen rest s \<Longrightarrow> dll (hp s) l (seen @ rest)"
    and step: "\<And>seen x rest s. I seen (x # rest) s \<Longrightarrow>
      \<exists>s'. body x s = Some s' \<and> I (if keep x then seen @ [x] else seen) rest s'"
    and start: "I seen rest s"
  shows "\<exists>s'. sweep hp body (hd (rest @ [Sent l])) (nxt (hp s) (hd (rest @ [Sent l]))) (Sent l) s = Some s' \<and>
    I (seen @ filter keep rest) [] s'"
  using start
proof (induction rest arbitrary: seen s)
  case Nil
  then show ?case by (subst sweep.simps) auto
next
  case (Cons x rest)
  have d: "dll (hp s) l (seen @ x # rest)" using Cons.prems by (rule inv)
  have n: "nxt (hp s) x = hd (rest @ [Sent l])" using dll_nxt [of "hp s" l "seen @ [x]" rest] d by simp
  have "hd (rest @ [Sent l]) \<noteq> Null" "x \<noteq> Sent l"
    using dll_neq_Null [OF d] hd_mem [of rest "Sent l"] dll_distinct [OF d] by auto
  moreover obtain s1 where s1: "body x s = Some s1" "I (if keep x then seen @ [x] else seen) rest s1"
    using step [OF Cons.prems] by auto
  moreover from Cons.IH [OF s1(2)] obtain s' where
    "sweep hp body (hd (rest @ [Sent l])) (nxt (hp s1) (hd (rest @ [Sent l]))) (Sent l) s1 = Some s'"
    "I (seen @ filter keep (x # rest)) [] s'" by (auto split: if_splits)
  ultimately show ?case
    by (subst sweep.simps) (simp add: n deref_def)
qed

lemma foreach_safe_dll:
  assumes inv: "\<And>seen rest s. I seen rest s \<Longrightarrow> dll (hp s) l (seen @ rest)"
    and step: "\<And>seen x rest s. I seen (x # rest) s \<Longrightarrow>
      \<exists>s'. body x s = Some s' \<and> I (if keep x then seen @ [x] else seen) rest s'"
    and start: "I [] xs s"
  shows "\<exists>s'. UNIT_LIST_FOREACH_SAFE hp body l s = Some s' \<and> I (filter keep xs) [] s'"
proof -
  have d: "dll (hp s) l xs" using inv [OF start] by simp
  then have "nxt (hp s) (Sent l) = hd (xs @ [Sent l])" "hd (xs @ [Sent l]) \<noteq> Null"
    using dll_nxt [of "hp s" l "[]" xs] dll_neq_Null [OF d] hd_mem [of xs "Sent l"] by auto
  then show ?thesis
    using sweep_dll [where I = I and keep = keep, OF inv step start]
    by (simp add: UNIT_LIST_FOREACH_SAFE_def deref_def)
qed

section \<open>The interface of a list\<close>

text \<open>
  What the code that keeps its objects on such a list relies on: \<open>holds h l xs\<close> says which
  objects are on list \<open>l\<close>, \<open>loose h x\<close> that \<open>x\<close> is an object on no list. The laws say what a
  client sees after adding and taking objects, and that it does not disturb another list.
\<close>

locale object_list =
  fixes holds :: "'h \<Rightarrow> 'l \<Rightarrow> 'a list \<Rightarrow> bool"
    and loose :: "'h \<Rightarrow> 'a \<Rightarrow> bool"
    and capacity :: nat
    and fresh :: "'l \<Rightarrow> 'h \<Rightarrow> 'h"
    and items :: "'h \<Rightarrow> 'l \<Rightarrow> 'a list option"
    and push :: "'l \<Rightarrow> 'a \<Rightarrow> 'h \<Rightarrow> 'h option"
    and take_off :: "'l \<Rightarrow> 'a \<Rightarrow> 'h \<Rightarrow> ('a \<times> 'h) option"
  assumes fresh_holds: "holds (fresh l h) l []"
    and items_holds: "holds h l xs \<Longrightarrow> items h l = Some xs"
    and loose_not_held: "holds h l xs \<Longrightarrow> loose h x \<Longrightarrow> x \<notin> set xs"
    and held_once: "holds h l xs \<Longrightarrow> distinct xs"
    and push_holds: "holds h l xs \<Longrightarrow> loose h x \<Longrightarrow> length xs < capacity \<Longrightarrow>
      \<exists>h'. push l x h = Some h' \<and> holds h' l (xs @ [x]) \<and> (\<forall>y. y \<noteq> x \<and> loose h y \<longrightarrow> loose h' y) \<and>
        (\<forall>k ys. k \<noteq> l \<and> holds h k ys \<longrightarrow> holds h' k ys)"
    and take_holds: "holds h l (xs @ x # ys) \<Longrightarrow>
      \<exists>q h'. take_off l x h = Some (q, h') \<and> holds h' l (xs @ ys) \<and> loose h' x \<and>
        (\<forall>y. loose h y \<longrightarrow> loose h' y) \<and> (\<forall>k ys. k \<noteq> l \<and> holds h k ys \<longrightarrow> holds h' k ys)"
begin

lemma take_member:
  assumes "holds h l xs" "x \<in> set xs"
  shows "\<exists>q h'. take_off l x h = Some (q, h') \<and> holds h' l (remove1 x xs) \<and> loose h' x \<and>
    (\<forall>k ys. k \<noteq> l \<and> holds h k ys \<longrightarrow> holds h' k ys)"
proof -
  from assms(2) obtain as bs where xs: "xs = as @ x # bs" "x \<notin> set as" by (meson split_list_first)
  then have "remove1 x xs = as @ bs" by (simp add: remove1_append)
  then show ?thesis using take_holds [of h l as x bs] assms(1) xs(1) by auto
qed

lemma push_seen:
  assumes "holds h l xs" "loose h x" "length xs < capacity"
  shows "\<exists>h'. push l x h = Some h' \<and> items h' l = Some (xs @ [x])"
  using push_holds [OF assms] items_holds by blast

lemma push_take:
  assumes "holds h l xs" "loose h x" "length xs < capacity"
  shows "\<exists>h1 q h2. push l x h = Some h1 \<and> take_off l x h1 = Some (q, h2) \<and> holds h2 l xs \<and> loose h2 x"
  using push_holds [OF assms] take_holds [of _ l xs x "[]"] by fastforce

text \<open>Taking an object from one list and putting it on another one.\<close>

lemma move:
  assumes l: "holds h l (xs @ x # ys)" and k: "holds h k zs" and neq: "l \<noteq> k" and room: "length zs < capacity"
  shows "\<exists>q h1 h2. take_off l x h = Some (q, h1) \<and> push k x h1 = Some h2 \<and>
    items h2 l = Some (xs @ ys) \<and> items h2 k = Some (zs @ [x])"
proof -
  obtain q h1 where h1: "take_off l x h = Some (q, h1)" "holds h1 l (xs @ ys)" "loose h1 x" "holds h1 k zs"
    using take_holds [OF l] k neq by metis
  obtain h2 where "push k x h1 = Some h2" "holds h2 k (zs @ [x])" "holds h2 l (xs @ ys)"
    using push_holds [OF h1(4,3) room] h1(2) neq by metis
  with h1(1) show ?thesis using items_holds by blast
qed

end

lemma append_law:
  assumes "dll h l xs" "off_list h x" "length xs < 2 ^ 63 - 1"
  shows "\<exists>h'. unit_list_append here l x h = Some h' \<and> dll h' l (xs @ [x]) \<and>
    (\<forall>y. y \<noteq> x \<and> off_list h y \<longrightarrow> off_list h' y) \<and> (\<forall>k ys. k \<noteq> l \<and> dll h k ys \<longrightarrow> dll h' k ys)"
proof -
  obtain h' where h': "unit_list_append here l x h = Some h'" "dll h' l (xs @ [x])"
      "same_outside (set (x # Sent l # xs)) {l} h h'"
    using append_dll [OF assms(1,2), of here] assms(3) by auto
  have "off_list h' y" if "y \<noteq> x" "off_list h y" for y
    using off_list_other [OF that(2) h'(3)] off_list_notin [OF assms(1) that(2)] that(1) by simp
  moreover have "dll h' k ys" if "k \<noteq> l" "dll h k ys" for k ys
    using dll_other [OF that(2) h'(3)] dll_disjoint [OF assms(1) that(2)] off_list_notin [OF that(2) assms(2)] that(1)
    by auto
  ultimately show ?thesis using h'(1,2) by blast
qed

lemma remove_law:
  assumes "dll h l (xs @ x # ys)"
  shows "\<exists>q h'. unit_list_remove_item l x h = Some (q, h') \<and> dll h' l (xs @ ys) \<and> off_list h' x \<and>
    (\<forall>y. off_list h y \<longrightarrow> off_list h' y) \<and> (\<forall>k ys. k \<noteq> l \<and> dll h k ys \<longrightarrow> dll h' k ys)"
proof -
  obtain q h' where h': "unit_list_remove_item l x h = Some (q, h')" "dll h' l (xs @ ys)" "off_list h' x"
      "same_outside (set (Sent l # xs @ x # ys)) {l} h h'"
    using remove_item_dll [OF assms] by auto
  have "off_list h' y" if "off_list h y" for y
    using off_list_other [OF that h'(4)] off_list_notin [OF assms that] by blast
  moreover have "dll h' k zs" if "k \<noteq> l" "dll h k zs" for k zs
    using dll_other [OF that(2) h'(4)] dll_disjoint [OF assms that(2)] that(1) by auto
  ultimately show ?thesis using h'(1-3) by blast
qed

interpretation unit_list_objects:
  object_list dll off_list "2 ^ 63 - 1" unit_list_construct UNIT_LIST_FOREACH "unit_list_append here" unit_list_remove_item
  for here
  by unfold_locales
    (use construct_dll foreach_dll append_law remove_law off_list_notin dll_distinct in
      \<open>(simp; fail) | (auto; fail) | (blast; fail)\<close>)+

section \<open>Properties\<close>

text \<open>A heap with the lists 0, holding the items 1 and 2, and 1, holding the item 4; item 3 is loose.\<close>

definition sample_heap :: heap where
  "sample_heap =
     \<lparr>nxt = (\<lambda>p. if p = Sent 0 then Item 1 else if p = Item 1 then Item 2 else if p = Item 2 then Sent 0
        else if p = Sent 1 then Item 4 else if p = Item 4 then Sent 1 else Null),
      prv = (\<lambda>p. if p = Sent 0 then Item 2 else if p = Item 1 then Sent 0 else if p = Item 2 then Item 1
        else if p = Sent 1 then Item 4 else if p = Item 4 then Sent 1 else Null),
      item_free = (\<lambda>p. 1),
      refc = (\<lambda>p. if p = Item 3 then 0 else 1),
      belongs = (\<lambda>p. if p \<in> {Sent 0, Item 1, Item 2} then Some 0
        else if p \<in> {Sent 1, Item 4} then Some 1 else None),
      init_at = (\<lambda>p. (''list.c'', 1)),
      len = (\<lambda>l. if l = 0 then 2 else 1)\<rparr>"

lemma sample_dll: "dll sample_heap 0 [Item 1, Item 2]" "dll sample_heap 1 [Item 4]" "off_list sample_heap (Item 3)"
  by (simp_all add: dll_def sample_heap_def list_cell_def off_list_def is_item_def)

text \<open>
  Appending a loose item puts it at the end of the list, in both directions, the checked
  size grows by one, and every other list stays as it is.
\<close>

lemma unit_list_append_spec:
  assumes "dll h l xs" "off_list h x" "length xs < 2 ^ 63 - 1" "dll h k ys" "k \<noteq> l"
  shows "\<exists>h'. unit_list_append here l x h = Some h' \<and> UNIT_LIST_FOREACH h' l = Some (xs @ [x]) \<and>
    UNIT_LIST_FOREACH_REV h' l = Some (x # rev xs) \<and>
    unit_list_get_size h' l = Some (of_nat (length xs + 1)) \<and> UNIT_LIST_FOREACH h' k = Some ys"
proof -
  obtain h' where "unit_list_append here l x h = Some h'" "dll h' l (xs @ [x])" "dll h' k ys"
    using unit_list_objects.push_holds [OF assms(1-3)] assms(4,5) by metis
  then show ?thesis
    using foreach_dll foreach_rev_dll [of h' l "xs @ [x]"] get_size_dll [of h' l "xs @ [x]"] by auto
qed

text \<open>
  C30: removing an item from the list it is on takes exactly this item out, returns its
  predecessor (the sentinel for the first one) and makes it loose; for an item that is not
  on the list NULL is returned and nothing changes.
\<close>

theorem unit_list_remove_item_spec:
  assumes "dll h l xs" "dll h k ys" "k \<noteq> l"
  shows "\<exists>p h'. unit_list_remove_item l x h = Some (p, h') \<and>
    UNIT_LIST_FOREACH h' l = Some (remove1 x xs) \<and> UNIT_LIST_FOREACH h' k = Some ys \<and>
    unit_list_get_size h' l = Some (of_nat (length (remove1 x xs))) \<and>
    (if x \<in> set xs then p = last (Sent l # takeWhile (\<lambda>y. y \<noteq> x) xs) \<and> off_list h' x
     else p = Null \<and> h' = h)"
proof (cases "x \<in> set xs")
  case False
  then show ?thesis
    using assms remove_item_absent [OF assms(1)] by (auto simp: foreach_dll get_size_dll remove1_idem)
next
  case True
  then obtain as bs where xs: "xs = as @ x # bs" "x \<notin> set as" by (meson split_list_first)
  have t: "takeWhile (\<lambda>y. y \<noteq> x) xs = as" "remove1 x xs = as @ bs"
  proof -
    have "\<forall>y\<in>set as. y \<noteq> x" using xs(2) by auto
    then show "takeWhile (\<lambda>y. y \<noteq> x) xs = as" unfolding xs(1) by (subst takeWhile_append2) auto
    show "remove1 x xs = as @ bs" using xs by (simp add: remove1_append)
  qed
  obtain h' where h': "unit_list_remove_item l x h = Some (last (Sent l # as), h')" "dll h' l (as @ bs)" "off_list h' x"
    using remove_item_dll [of h l as x bs] assms(1) xs(1) by auto
  moreover have "dll h' k ys"
    using remove_law [of h l as x bs] assms xs(1) h'(1) by (metis option.inject prod.inject)
  ultimately show ?thesis
    unfolding t using True foreach_dll get_size_dll by auto
qed

theorem unit_list_remove_item_spec_witness:
  "\<exists>h'. unit_list_remove_item 0 (Item 2) sample_heap = Some (Item 1, h') \<and>
    UNIT_LIST_FOREACH h' 0 = Some [Item 1] \<and> UNIT_LIST_FOREACH h' 1 = Some [Item 4]"
  using unit_list_remove_item_spec [OF sample_dll(1,2), of "Item 2"] by auto

text \<open>
  \<open>unit_list_insert\<close> puts the item at a positive index below the length, and refuses an
  index from the length on (the comment in the header only promises this for indices greater
  than the length).
\<close>

lemma unit_list_insert_spec:
  assumes "dll h l xs" "off_list h x" "length xs < 2 ^ 63 - 1" "0 < idx"
  shows "if idx < int (length xs)
    then \<exists>h'. unit_list_insert l x idx h = Some (True, h') \<and>
      UNIT_LIST_FOREACH h' l = Some (take (nat idx) xs @ x # drop (nat idx) xs) \<and>
      unit_list_get_size h' l = Some (of_nat (length xs + 1))
    else unit_list_insert l x idx h = Some (False, h)"
proof (cases "idx < int (length xs)")
  case True
  then obtain h' where "unit_list_insert l x idx h = Some (True, h')"
      "dll h' l (take (nat idx) xs @ x # drop (nat idx) xs)"
    using insert_dll [OF assms(1,2)] assms(3,4) by auto
  moreover have "length (take (nat idx) xs @ x # drop (nat idx) xs) = length xs + 1" using True by simp
  ultimately show ?thesis
    using True foreach_dll get_size_dll by metis
next
  case False
  then show ?thesis using insert_refused [OF assms(1)] by simp
qed

text \<open>
  At index 0 the item becomes the first one, but the length is counted twice (once in
  \<open>unit_list_prepend\<close>), so that the next \<open>unit_list_get_size\<close> of this list aborts.
\<close>

lemma unit_list_insert_first_breaks_size:
  assumes "dll h l xs" "off_list h x" "xs \<noteq> []" "length xs < 2 ^ 63 - 1"
  shows "\<exists>h'. unit_list_insert l x 0 h = Some (True, h') \<and> UNIT_LIST_FOREACH h' l = Some (x # xs) \<and>
    len h' l = of_nat (length xs + 2) \<and> unit_list_get_size h' l = None"
  using insert_zero [OF assms(1-3)] assms(4) by simp

text \<open>
  C17: splicing moves the range \<open>ds\<close> of list \<open>k\<close> in front of a position of list \<open>l\<close>, in
  order; both lists stay well formed with the right sizes, and the moved items belong to \<open>l\<close>,
  so that \<open>unit_list_remove_item\<close> on \<open>l\<close> accepts them.
\<close>

theorem unit_list_splice_spec:
  assumes "dll h l (as @ bs)" "dll h k (cs @ ds @ es)" "l \<noteq> k" "ds \<noteq> []" "length (as @ ds @ bs) < 2 ^ 63"
  shows "\<exists>h'. unit_list_splice l (hd (bs @ [Sent l])) k (hd ds) (hd (es @ [Sent k])) h = Some h' \<and>
    UNIT_LIST_FOREACH h' l = Some (as @ ds @ bs) \<and> UNIT_LIST_FOREACH h' k = Some (cs @ es) \<and>
    unit_list_get_size h' l = Some (of_nat (length (as @ ds @ bs))) \<and>
    unit_list_get_size h' k = Some (of_nat (length (cs @ es))) \<and>
    (\<exists>h''. unit_list_remove_item l (hd ds) h' = Some (last (Sent l # as), h''))"
proof -
  obtain h' where h': "unit_list_splice l (hd (bs @ [Sent l])) k (hd ds) (hd (es @ [Sent k])) h = Some h'"
      "dll h' l (as @ ds @ bs)" "dll h' k (cs @ es)" using splice_dll [OF assms] by blast
  have "dll h' l (as @ hd ds # tl ds @ bs)" using h'(2) assms(4) by (cases ds) auto
  then show ?thesis
    using h' foreach_dll get_size_dll remove_item_dll by metis
qed

theorem unit_list_splice_spec_witness:
  "\<exists>h'. unit_list_splice 1 (Item 4) 0 (Item 1) (Item 2) sample_heap = Some h' \<and>
    UNIT_LIST_FOREACH h' 1 = Some [Item 1, Item 4] \<and> UNIT_LIST_FOREACH h' 0 = Some [Item 2]"
  using unit_list_splice_spec [of sample_heap 1 "[]" "[Item 4]" 0 "[]" "[Item 1]" "[Item 2]"] sample_dll by auto

text \<open>
  With a \<open>qsort\<close> that permutes the array into the order of the comparison,
  \<open>unit_list_sort\<close> leaves the same items in that order on the list; without memory for the
  array it reports so and leaves the list alone.
\<close>

lemma unit_list_sort_spec:
  assumes "dll h l xs" "\<And>ys. mset (qsort ys) = mset ys" "\<And>ys. sorted_wrt le (qsort ys)"
  shows "\<exists>h' ys. unit_list_sort qsort here [] l h = Some (PMIX_SUCCESS, h') \<and>
    UNIT_LIST_FOREACH h' l = Some ys \<and> mset ys = mset xs \<and> sorted_wrt le ys \<and>
    unit_list_get_size h' l = Some (of_nat (length xs)) \<and>
    (xs \<noteq> [] \<longrightarrow> unit_list_sort qsort here [False] l h = Some (PMIX_ERR_OUT_OF_RESOURCE, h))"
proof -
  let ?ys = "if xs = [] then [] else qsort xs"
  obtain h' where h': "unit_list_sort qsort here [] l h = Some (PMIX_SUCCESS, h')" "dll h' l ?ys"
    using sort_dll [OF assms(1,2)] by blast
  have "mset ?ys = mset xs" "sorted_wrt le ?ys" "length ?ys = length xs"
    using assms(2,3) mset_eq_length [OF assms(2)] by auto
  with h' foreach_dll [OF h'(2)] get_size_dll [OF h'(2)] show ?thesis
    using dll_len_0 [OF assms(1)] by (auto simp: unit_list_sort_def)
qed

text \<open>
  C27: \<open>UNIT_LIST_DESTRUCT\<close> ends, releases each item of the list exactly once, in order (its
  destructor's assertions hold), and leaves an empty list; other lists stay as they are.
\<close>

theorem UNIT_LIST_DESTRUCT_spec:
  assumes "dll h l xs" "dll h k ys" "k \<noteq> l"
  shows "\<exists>h'. UNIT_LIST_DESTRUCT l h = Some (xs, h') \<and> unit_list_is_empty h' l \<and>
    unit_list_get_size h' l = Some 0 \<and> list_all (off_list h') xs \<and> UNIT_LIST_FOREACH h' k = Some ys"
proof -
  obtain h' where h': "UNIT_LIST_DESTRUCT l h = Some (xs, h')" "dll h' l []" "list_all (off_list h') xs"
      "same_outside (set (Sent l # xs)) {l} h h'" using DESTRUCT_dll [OF assms(1)] by blast
  have "dll h' k ys"
    using dll_other [OF assms(2) h'(4)] dll_disjoint [OF assms(1,2)] assms(3) by auto
  then show ?thesis
    using h' foreach_dll is_empty_dll [OF h'(2)] get_size_dll [OF h'(2)] by auto
qed

theorem UNIT_LIST_DESTRUCT_spec_witness:
  "\<exists>h'. UNIT_LIST_DESTRUCT 0 sample_heap = Some ([Item 1, Item 2], h') \<and> unit_list_is_empty h' 0 \<and>
    UNIT_LIST_FOREACH h' 1 = Some [Item 4]"
  using UNIT_LIST_DESTRUCT_spec [OF sample_dll(1,2)] by auto

end
