(* ===== verification/PmixObject.thy ===== *)
theory PmixObject
  imports Prelude "HOL-Library.Monad_Syntax"
begin

text \<open>
  The object system of src/unit/pmix_object.h and pmix_object.c: class descriptors that
  are initialized lazily and again after every \<open>pmix_class_finalize\<close>, the arrays of constructors
  and destructors of a class hierarchy, and reference-counted objects. Class descriptors and
  functions are named by their C symbols; the \<open>malloc\<close>ed arrays are blocks with a number, so
  that reading a freed one is visible (the result \<open>None\<close>).
\<close>

section \<open>Class descriptors\<close>

type_synonym fnptr = "string option"
type_synonym arrayptr = "(nat \<times> nat) option"    \<comment> \<open>block and offset; \<open>None\<close> is NULL\<close>

record pmix_class =
  cls_parent :: "string option"
  cls_construct :: fnptr
  cls_destruct :: fnptr
  cls_initialized :: int
  cls_depth :: int
  cls_construct_array :: arrayptr
  cls_destruct_array :: arrayptr
  cls_sizeof :: nat

definition PMIX_CLASS_INSTANCE :: "string \<Rightarrow> fnptr \<Rightarrow> fnptr \<Rightarrow> nat \<Rightarrow> pmix_class" where
  "PMIX_CLASS_INSTANCE parent con des sz =
     \<lparr>cls_parent = Some parent, cls_construct = con, cls_destruct = des, cls_initialized = 0,
      cls_depth = 0, cls_construct_array = None, cls_destruct_array = None, cls_sizeof = sz\<rparr>"

text \<open>\<open>sizeof(pmix_object_t)\<close> on a 64-bit machine: two 8-byte fields, an int, a pointer, an int.\<close>

definition sizeof_pmix_object :: nat where
  "sizeof_pmix_object = 40"

definition pmix_object_t_class :: pmix_class where
  "pmix_object_t_class =
     \<lparr>cls_parent = None, cls_construct = None, cls_destruct = None, cls_initialized = 1,
      cls_depth = 0, cls_construct_array = None, cls_destruct_array = None,
      cls_sizeof = sizeof_pmix_object\<rparr>"

record class_state =
  class_at :: "string \<Rightarrow> pmix_class"            \<comment> \<open>the global descriptors\<close>
  pmix_class_init_epoch :: int
  classes :: "nat option list option"            \<comment> \<open>the saved arrays; \<open>None\<close> is NULL\<close>
  num_classes :: nat
  max_classes :: nat
  blocks :: "nat \<Rightarrow> fnptr list option"           \<comment> \<open>\<open>malloc\<close>ed arrays of function pointers\<close>
  next_block :: nat

section \<open>Initializing a class\<close>

definition class_increment :: nat where
  "class_increment = 10"

text \<open>Both functions exit when memory runs out.\<close>

definition expand_array :: "allocs \<Rightarrow> class_state \<Rightarrow> (class_state \<times> allocs) option" where
  "expand_array ms w =
     (let (ok, ms) = next_alloc ms; m = max_classes w + class_increment in
      if \<not> ok then None
      else (case classes w of
          None \<Rightarrow> Some (w\<lparr>max_classes := m, classes := Some (replicate m None)\<rparr>, ms)
        | Some cs \<Rightarrow> Some (w\<lparr>max_classes := m,
            classes := Some (take (num_classes w) cs @ replicate (m - num_classes w) None)\<rparr>, ms)))"

definition save_class :: "allocs \<Rightarrow> arrayptr \<Rightarrow> class_state \<Rightarrow> (class_state \<times> allocs) option" where
  "save_class ms arr w =
     do { (w, ms) \<leftarrow> (if num_classes w \<ge> max_classes w then expand_array ms w else Some (w, ms));
          cs \<leftarrow> classes w;
          Some (w\<lparr>classes := Some (cs[num_classes w := map_option fst arr]),
                  num_classes := num_classes w + 1\<rparr>, ms) }"

text \<open>The walk from a class to the root of its hierarchy.\<close>

partial_function (option) lineage :: "(string \<Rightarrow> pmix_class) \<Rightarrow> string option \<Rightarrow> string list option" where
  "lineage K c =
     (case c of None \<Rightarrow> Some []
      | Some c \<Rightarrow> do { cs \<leftarrow> lineage K (cls_parent (K c)); Some (c # cs) })"

text \<open>What \<open>malloc\<close> leaves in the array until it is written.\<close>

definition uninit :: fnptr where
  "uninit = Some ''(uninitialized)''"

text \<open>
  The loop that fills the two arrays in one block: \<open>ci\<close> runs down from the end of the
  constructors, \<open>di\<close> runs up through the destructors.
\<close>

fun fill_arrays ::
  "(string \<Rightarrow> pmix_class) \<Rightarrow> nat \<Rightarrow> string option \<Rightarrow> nat \<Rightarrow> nat \<Rightarrow> fnptr list \<Rightarrow> (fnptr list \<times> nat) option" where
  "fill_arrays K 0 c ci di cells = Some (cells, di)"
| "fill_arrays K (Suc n) None ci di cells = None"
| "fill_arrays K (Suc n) (Some c) ci di cells =
     (let (ci, cells) = (case cls_construct (K c) of
            None \<Rightarrow> (ci, cells) | Some f \<Rightarrow> (ci - 1, cells[ci - 1 := Some f]));
          (di, cells) = (case cls_destruct (K c) of
            None \<Rightarrow> (di, cells) | Some f \<Rightarrow> (di + 1, cells[di := Some f]))
      in fill_arrays K n (cls_parent (K c)) ci di cells)"

definition pmix_class_initialize :: "allocs \<Rightarrow> string \<Rightarrow> class_state \<Rightarrow> (class_state \<times> allocs) option" where
  "pmix_class_initialize ms cls w =
     (if pmix_class_init_epoch w = cls_initialized (class_at w cls) then Some (w, ms)
      else do {
        let K = class_at w;
        cs \<leftarrow> lineage K (Some cls);
        let nc = length (filter (\<lambda>c. cls_construct (K c) \<noteq> None) cs);
        let nd = length (filter (\<lambda>c. cls_destruct (K c) \<noteq> None) cs);
        let (ok, ms) = next_alloc ms;
        if \<not> ok then None
        else do {
          let cells = (replicate (nc + nd + 2) uninit)[nc := None];
          (cells, di) \<leftarrow> fill_arrays K (length cs) (Some cls) nc (nc + 1) cells;
          let b = next_block w;
          let d = (K cls)\<lparr>cls_depth := int (length cs), cls_construct_array := Some (b, 0),
            cls_destruct_array := Some (b, nc + 1), cls_initialized := pmix_class_init_epoch w\<rparr>;
          save_class ms (Some (b, 0))
            (w\<lparr>class_at := K(cls := d), blocks := (blocks w)(b \<mapsto> cells[di := None]),
               next_block := b + 1\<rparr>) } })"

section \<open>Finalizing all classes\<close>

definition next_epoch :: "int \<Rightarrow> int" where
  "next_epoch e = (if e = 2147483647 then 1 else e + 1)"

definition pmix_class_finalize :: "class_state \<Rightarrow> class_state" where
  "pmix_class_finalize w =
     (let w = w\<lparr>pmix_class_init_epoch := next_epoch (pmix_class_init_epoch w)\<rparr> in
      case classes w of
        None \<Rightarrow> w
      | Some cs \<Rightarrow>
          w\<lparr>blocks := (\<lambda>b. if Some b \<in> set (take (num_classes w) cs) then None else blocks w b),
            classes := None, num_classes := 0, max_classes := 0\<rparr>)"

section \<open>Objects\<close>

text \<open>\<open>(0xdeafbeedULL << 32) + 0xdeafbeedULL\<close>\<close>

definition PMIX_OBJ_MAGIC_ID :: u64 where
  "PMIX_OBJ_MAGIC_ID = push_bit 32 0xdeafbeed + 0xdeafbeed"

record pmix_object =
  obj_magic_id :: u64
  obj_class :: "string option"
  obj_reference_count :: int
  cls_init_site :: "string \<times> int"              \<comment> \<open>file name and line\<close>

record object_state =
  cstate :: class_state
  objs :: "nat \<Rightarrow> pmix_object option"             \<comment> \<open>\<open>None\<close>: not allocated, or freed\<close>
  next_obj :: nat
  calls :: "(string \<times> nat) list"                \<comment> \<open>constructors and destructors called, in order\<close>

text \<open>Running through an array of functions up to its NULL entry.\<close>

definition functions_at :: "class_state \<Rightarrow> arrayptr \<Rightarrow> string list option" where
  "functions_at w p =
     do { (b, i) \<leftarrow> p;
          cells \<leftarrow> blocks w b;
          if None \<in> set (drop i cells) then Some (upto_null (drop i cells)) else None }"

definition pmix_obj_run_constructors :: "nat \<Rightarrow> object_state \<Rightarrow> object_state option" where
  "pmix_obj_run_constructors ob s =
     do { x \<leftarrow> objs s ob;
          c \<leftarrow> obj_class x;
          fs \<leftarrow> functions_at (cstate s) (cls_construct_array (class_at (cstate s) c));
          Some (s\<lparr>calls := calls s @ map (\<lambda>f. (f, ob)) fs\<rparr>) }"

definition pmix_obj_run_destructors :: "nat \<Rightarrow> object_state \<Rightarrow> object_state option" where
  "pmix_obj_run_destructors ob s =
     do { x \<leftarrow> objs s ob;
          c \<leftarrow> obj_class x;
          fs \<leftarrow> functions_at (cstate s) (cls_destruct_array (class_at (cstate s) c));
          Some (s\<lparr>calls := calls s @ map (\<lambda>f. (f, ob)) fs\<rparr>) }"

text \<open>A store to the fields of an object; \<open>None\<close> when it is not allocated.\<close>

definition update_obj :: "nat \<Rightarrow> (pmix_object \<Rightarrow> pmix_object) \<Rightarrow> object_state \<Rightarrow> object_state option" where
  "update_obj ob f s = do { x \<leftarrow> objs s ob; Some (s\<lparr>objs := (objs s)(ob \<mapsto> f x)\<rparr>) }"

definition initialize_if_stale :: "allocs \<Rightarrow> string \<Rightarrow> object_state \<Rightarrow> (object_state \<times> allocs) option" where
  "initialize_if_stale ms c s =
     (if pmix_class_init_epoch (cstate s) \<noteq> cls_initialized (class_at (cstate s) c)
      then do { (w, ms) \<leftarrow> pmix_class_initialize ms c (cstate s); Some (s\<lparr>cstate := w\<rparr>, ms) }
      else Some (s, ms))"

text \<open>\<open>pmix_obj_new\<close>; the fields \<open>malloc\<close> leaves uninitialized are those of \<open>junk\<close>.\<close>

definition pmix_obj_new ::
  "pmix_object \<Rightarrow> allocs \<Rightarrow> string \<Rightarrow> object_state \<Rightarrow> (nat option \<times> object_state \<times> allocs) option" where
  "pmix_obj_new junk ms c s =
     (if cls_sizeof (class_at (cstate s) c) < sizeof_pmix_object then None
      else do {
        let (ok, ms) = next_alloc ms;
        (s, ms) \<leftarrow> initialize_if_stale ms c s;
        if \<not> ok then Some (None, s, ms)
        else do {
          let ob = next_obj s;
          let s = s\<lparr>objs := (objs s)(ob \<mapsto> junk\<lparr>obj_class := Some c, obj_reference_count := 1\<rparr>),
                    next_obj := ob + 1\<rparr>;
          s \<leftarrow> pmix_obj_run_constructors ob s;
          Some (Some ob, s, ms) } })"

text \<open>\<open>PMIX_NEW\<close> (\<open>pmix_obj_new_debug\<close>) writes to the object without checking for NULL.\<close>

definition PMIX_NEW ::
  "pmix_object \<Rightarrow> string \<times> int \<Rightarrow> allocs \<Rightarrow> string \<Rightarrow> object_state \<Rightarrow> (nat \<times> object_state \<times> allocs) option" where
  "PMIX_NEW junk site ms c s =
     do { (p, s, ms) \<leftarrow> pmix_obj_new junk ms c s;
          ob \<leftarrow> p;
          s \<leftarrow> update_obj ob (\<lambda>x. x\<lparr>obj_magic_id := PMIX_OBJ_MAGIC_ID, cls_init_site := site\<rparr>) s;
          Some (ob, s, ms) }"

definition pmix_obj_update :: "nat \<Rightarrow> int \<Rightarrow> object_state \<Rightarrow> (int \<times> object_state) option" where
  "pmix_obj_update ob inc s =
     do { x \<leftarrow> objs s ob;
          let n = obj_reference_count x + inc;
          if n < int_min \<or> n > int_max then None
          else Some (n, s\<lparr>objs := (objs s)(ob \<mapsto> x\<lparr>obj_reference_count := n\<rparr>)\<rparr>) }"

definition checked :: "nat \<Rightarrow> object_state \<Rightarrow> unit option" where
  "checked ob s =
     do { x \<leftarrow> objs s ob;
          if obj_class x \<noteq> None \<and> obj_magic_id x = PMIX_OBJ_MAGIC_ID then Some () else None }"

definition PMIX_RETAIN :: "nat \<Rightarrow> object_state \<Rightarrow> object_state option" where
  "PMIX_RETAIN ob s =
     do { checked ob s;
          (n, s) \<leftarrow> pmix_obj_update ob 1 s;
          if n \<ge> 0 then Some s else None }"

definition PMIX_RELEASE :: "nat \<Rightarrow> object_state \<Rightarrow> object_state option" where
  "PMIX_RELEASE ob s =
     do { checked ob s;
          (n, s) \<leftarrow> pmix_obj_update ob (- 1) s;
          if n = 0 then do {
            s \<leftarrow> update_obj ob (\<lambda>x. x\<lparr>obj_magic_id := 0\<rparr>) s;
            s \<leftarrow> pmix_obj_run_destructors ob s;
            Some (s\<lparr>objs := (objs s)(ob := None)\<rparr>) }
          else Some s }"

definition PMIX_CONSTRUCT :: "string \<times> int \<Rightarrow> allocs \<Rightarrow> nat \<Rightarrow> string \<Rightarrow> object_state \<Rightarrow> (object_state \<times> allocs) option" where
  "PMIX_CONSTRUCT site ms ob c s =
     do { s \<leftarrow> update_obj ob (\<lambda>x. x\<lparr>obj_magic_id := PMIX_OBJ_MAGIC_ID\<rparr>) s;
          (s, ms) \<leftarrow> initialize_if_stale ms c s;
          s \<leftarrow> update_obj ob (\<lambda>x. x\<lparr>obj_class := Some c, obj_reference_count := 1\<rparr>) s;
          s \<leftarrow> pmix_obj_run_constructors ob s;
          s \<leftarrow> update_obj ob (\<lambda>x. x\<lparr>cls_init_site := site\<rparr>) s;
          Some (s, ms) }"

definition PMIX_DESTRUCT :: "string \<times> int \<Rightarrow> nat \<Rightarrow> object_state \<Rightarrow> object_state option" where
  "PMIX_DESTRUCT site ob s =
     do { x \<leftarrow> objs s ob;
          if obj_magic_id x \<noteq> PMIX_OBJ_MAGIC_ID then None
          else do {
            s \<leftarrow> update_obj ob (\<lambda>x. x\<lparr>obj_magic_id := 0\<rparr>) s;
            s \<leftarrow> pmix_obj_run_destructors ob s;
            update_obj ob (\<lambda>x. x\<lparr>cls_init_site := site\<rparr>) s } }"

section \<open>The arrays of a class\<close>

text \<open>The functions a walk meets, in the order of the walk.\<close>

fun functions_of :: "('a \<Rightarrow> 'b option) \<Rightarrow> 'a list \<Rightarrow> 'b list" where
  "functions_of f [] = []"
| "functions_of f (c # cs) = (case f c of None \<Rightarrow> functions_of f cs | Some g \<Rightarrow> g # functions_of f cs)"

lemma length_functions_of: "length (filter (\<lambda>c. f c \<noteq> None) cs) = length (functions_of f cs)"
  by (induction cs) (auto split: option.splits)

lemma lineage_Nil: "lineage K c = Some [] \<longleftrightarrow> c = None"
  by (subst lineage.simps) (auto split: option.splits bind_splits)

lemma lineage_Cons: "lineage K c = Some (k # cs) \<longleftrightarrow> c = Some k \<and> lineage K (cls_parent (K k)) = Some cs"
  by (subst lineage.simps) (auto split: option.splits bind_splits)

lemma fill_arrays_lineage:
  "lineage K c = Some cs \<Longrightarrow> length g1 = length (functions_of (\<lambda>c. cls_construct (K c)) cs) \<Longrightarrow>
    length (functions_of (\<lambda>c. cls_destruct (K c)) cs) \<le> length g2 \<Longrightarrow>
    fill_arrays K (length cs) c (length g1) (length (g1 @ mid)) (g1 @ mid @ g2) =
      Some (map Some (rev (functions_of (\<lambda>c. cls_construct (K c)) cs)) @ mid @
            map Some (functions_of (\<lambda>c. cls_destruct (K c)) cs) @
            drop (length (functions_of (\<lambda>c. cls_destruct (K c)) cs)) g2,
          length (g1 @ mid) + length (functions_of (\<lambda>c. cls_destruct (K c)) cs))"
proof (induction cs arbitrary: c g1 mid g2)
  case Nil
  then show ?case by simp
next
  case (Cons k cs)
  then have c: "c = Some k" and lin: "lineage K (cls_parent (K k)) = Some cs"
    by (simp_all add: lineage_Cons)
  let ?con = "cls_construct (K k)" and ?des = "cls_destruct (K k)"
  let ?g1 = "if ?con = None then g1 else butlast g1"
    and ?mid = "(if ?con = None then [] else [?con]) @ mid @ (if ?des = None then [] else [?des])"
    and ?g2 = "if ?des = None then g2 else tl g2"
  have "fill_arrays K (length (k # cs)) c (length g1) (length (g1 @ mid)) (g1 @ mid @ g2) =
      fill_arrays K (length cs) (cls_parent (K k)) (length ?g1) (length (?g1 @ ?mid)) (?g1 @ ?mid @ ?g2)"
    using Cons.prems c
    by (cases ?con; cases ?des; cases g1 rule: rev_cases; cases g2)
      (auto simp: list_update_append nth_append)
  also have "\<dots> = Some (map Some (rev (functions_of (\<lambda>c. cls_construct (K c)) cs)) @ ?mid @
            map Some (functions_of (\<lambda>c. cls_destruct (K c)) cs) @
            drop (length (functions_of (\<lambda>c. cls_destruct (K c)) cs)) ?g2,
          length (?g1 @ ?mid) + length (functions_of (\<lambda>c. cls_destruct (K c)) cs))"
    using Cons.prems by (intro Cons.IH [OF lin]) (auto split: option.splits)
  also have "\<dots> = Some (map Some (rev (functions_of (\<lambda>c. cls_construct (K c)) (k # cs))) @ mid @
            map Some (functions_of (\<lambda>c. cls_destruct (K c)) (k # cs)) @
            drop (length (functions_of (\<lambda>c. cls_destruct (K c)) (k # cs))) g2,
          length (g1 @ mid) + length (functions_of (\<lambda>c. cls_destruct (K c)) (k # cs)))"
    using Cons.prems by (cases ?con; cases ?des; cases g2) (auto simp: drop_Suc)
  finally show ?case .
qed

text \<open>The whole block: constructors from the root down, NULL, destructors from the class up, NULL.\<close>

lemma block_filled:
  assumes "lineage K (Some c) = Some cs"
    and "con = functions_of (\<lambda>c. cls_construct (K c)) cs" "des = functions_of (\<lambda>c. cls_destruct (K c)) cs"
  shows "fill_arrays K (length cs) (Some c) (length con) (length con + 1)
      ((replicate (length con + length des + 2) uninit)[length con := None]) =
    Some (map Some (rev con) @ None # map Some des @ [uninit], length con + 1 + length des)"
proof -
  have "replicate (length con + length des + 2) uninit =
      replicate (length con) uninit @ uninit # replicate (length des + 1) uninit"
    using replicate_add [of "length con" "length des + 2" uninit] by (simp add: add.assoc)
  then have "(replicate (length con + length des + 2) uninit)[length con := None] =
      replicate (length con) uninit @ [None] @ replicate (length des + 1) uninit"
    by (simp add: list_update_append)
  moreover have "drop (length des) (replicate (length des + 1) uninit) = [uninit]"
    by (subst drop_replicate) simp
  ultimately show ?thesis
    using fill_arrays_lineage [OF assms(1), of "replicate (length con) uninit" "replicate (length des + 1) uninit" "[None]"]
      assms(2,3) by simp
qed

lemma functions_at_block:
  assumes "blocks w b = Some (map Some con @ None # map Some des @ [None])"
  shows "functions_at w (Some (b, 0)) = Some con" "functions_at w (Some (b, length con + 1)) = Some des"
  using assms by (auto simp: functions_at_def)

section \<open>The class table\<close>

text \<open>
  The invariant: a class initialized in the current epoch has its arrays (the base class is
  preinitialized without), every live array is saved and every saved array is live, and no
  class is from a later epoch (true until the epoch wraps around).
\<close>

definition class_ready :: "class_state \<Rightarrow> string \<Rightarrow> bool" where
  "class_ready w c \<longleftrightarrow>
     (\<exists>cs. lineage (class_at w) (Some c) = Some cs \<and>
       functions_at w (cls_construct_array (class_at w c)) =
         Some (rev (functions_of (\<lambda>c. cls_construct (class_at w c)) cs)) \<and>
       functions_at w (cls_destruct_array (class_at w c)) =
         Some (functions_of (\<lambda>c. cls_destruct (class_at w c)) cs))"

definition saved_blocks :: "class_state \<Rightarrow> nat option list" where
  "saved_blocks w = (case classes w of None \<Rightarrow> [] | Some cs \<Rightarrow> take (num_classes w) cs)"

definition class_table :: "class_state \<Rightarrow> bool" where
  "class_table w \<longleftrightarrow>
     (\<forall>c. c \<noteq> ''pmix_object_t'' \<longrightarrow> cls_initialized (class_at w c) = pmix_class_init_epoch w \<longrightarrow> class_ready w c) \<and>
     (\<forall>c. cls_initialized (class_at w c) \<le> pmix_class_init_epoch w) \<and>
     (case classes w of None \<Rightarrow> num_classes w = 0 \<and> max_classes w = 0
      | Some cs \<Rightarrow> length cs = max_classes w \<and> num_classes w \<le> max_classes w) \<and>
     (\<forall>b. blocks w b \<noteq> None \<longleftrightarrow> Some b \<in> set (saved_blocks w)) \<and>
     (\<forall>b. blocks w b \<noteq> None \<longrightarrow> b < next_block w)"

lemma save_class_table:
  assumes "case classes w of None \<Rightarrow> num_classes w = 0 \<and> max_classes w = 0
      | Some cs \<Rightarrow> length cs = max_classes w \<and> num_classes w \<le> max_classes w"
  shows "\<exists>w'. save_class [] arr w = Some (w', []) \<and> saved_blocks w' = saved_blocks w @ [map_option fst arr] \<and>
    class_at w' = class_at w \<and> pmix_class_init_epoch w' = pmix_class_init_epoch w \<and>
    blocks w' = blocks w \<and> next_block w' = next_block w \<and>
    (case classes w' of None \<Rightarrow> num_classes w' = 0 \<and> max_classes w' = 0
      | Some cs \<Rightarrow> length cs = max_classes w' \<and> num_classes w' \<le> max_classes w')"
  using assms
  by (cases "classes w")
    (auto simp: save_class_def expand_array_def saved_blocks_def class_increment_def take_update_swap
      take_Suc_conv_app_nth list_update_append)

lemma lineage_cong: "(\<And>c. cls_parent (K c) = cls_parent (L c)) \<Longrightarrow> lineage K c = Some cs \<Longrightarrow> lineage L c = Some cs"
proof (induction cs arbitrary: c)
  case Nil
  then show ?case by (simp add: lineage_Nil)
next
  case (Cons k cs)
  then show ?case by (simp add: lineage_Cons)
qed

lemma functions_of_cong: "(\<And>c. f c = g c) \<Longrightarrow> functions_of f cs = functions_of g cs"
  by (induction cs) (auto split: option.splits)

lemma functions_at_mono:
  "functions_at w p = Some fs \<Longrightarrow> (\<And>b. blocks w b \<noteq> None \<Longrightarrow> blocks w' b = blocks w b) \<Longrightarrow>
    functions_at w' p = Some fs"
  by (fastforce simp: functions_at_def split: bind_splits if_splits)

text \<open>Descriptors that differ only in what initialization writes.\<close>

definition same_classes :: "(string \<Rightarrow> pmix_class) \<Rightarrow> (string \<Rightarrow> pmix_class) \<Rightarrow> bool" where
  "same_classes K L \<longleftrightarrow> (\<forall>c. cls_parent (K c) = cls_parent (L c) \<and>
     cls_construct (K c) = cls_construct (L c) \<and> cls_destruct (K c) = cls_destruct (L c) \<and>
     cls_sizeof (K c) = cls_sizeof (L c))"

lemma class_ready_mono:
  assumes "class_ready w c" "same_classes (class_at w) (class_at w')" "class_at w' c = class_at w c"
    "\<And>b. blocks w b \<noteq> None \<Longrightarrow> blocks w' b = blocks w b"
  shows "class_ready w' c"
proof -
  from assms(1) obtain cs where cs: "lineage (class_at w) (Some c) = Some cs"
      "functions_at w (cls_construct_array (class_at w c)) =
        Some (rev (functions_of (\<lambda>c. cls_construct (class_at w c)) cs))"
      "functions_at w (cls_destruct_array (class_at w c)) =
        Some (functions_of (\<lambda>c. cls_destruct (class_at w c)) cs)"
    unfolding class_ready_def by blast
  have "functions_of (\<lambda>c. cls_construct (class_at w' c)) cs = functions_of (\<lambda>c. cls_construct (class_at w c)) cs"
    "functions_of (\<lambda>c. cls_destruct (class_at w' c)) cs = functions_of (\<lambda>c. cls_destruct (class_at w c)) cs"
    using assms(2) by (auto intro!: functions_of_cong simp: same_classes_def)
  moreover have "lineage (class_at w') (Some c) = Some cs"
    using cs(1) assms(2) by (rule_tac lineage_cong) (auto simp: same_classes_def)
  ultimately show ?thesis
    using cs functions_at_mono [OF _ assms(4)] assms(3) unfolding class_ready_def by metis
qed

lemma initialize_table:
  assumes t: "class_table w" and lin: "lineage (class_at w) (Some c) = Some cs"
    and stale: "cls_initialized (class_at w c) \<noteq> pmix_class_init_epoch w"
  shows "\<exists>w'. pmix_class_initialize [] c w = Some (w', []) \<and> class_table w' \<and> class_ready w' c \<and>
    functions_at w' (cls_construct_array (class_at w' c)) =
      Some (rev (functions_of (\<lambda>c. cls_construct (class_at w c)) cs)) \<and>
    functions_at w' (cls_destruct_array (class_at w' c)) =
      Some (functions_of (\<lambda>c. cls_destruct (class_at w c)) cs) \<and>
    cls_initialized (class_at w' c) = pmix_class_init_epoch w \<and> cls_depth (class_at w' c) = int (length cs) \<and>
    pmix_class_init_epoch w' = pmix_class_init_epoch w \<and> same_classes (class_at w) (class_at w') \<and>
    (\<forall>d. d \<noteq> c \<longrightarrow> class_at w' d = class_at w d)"
proof -
  let ?K = "class_at w" and ?b = "next_block w"
  define con des where fs: "con = functions_of (\<lambda>c. cls_construct (?K c)) cs"
    "des = functions_of (\<lambda>c. cls_destruct (?K c)) cs"
  let ?d = "(?K c)\<lparr>cls_depth := int (length cs), cls_construct_array := Some (?b, 0),
    cls_destruct_array := Some (?b, length con + 1), cls_initialized := pmix_class_init_epoch w\<rparr>"
  let ?cells = "map Some (rev con) @ None # map Some des @ [None]"
  let ?w = "w\<lparr>class_at := ?K(c := ?d), blocks := (blocks w)(?b \<mapsto> ?cells), next_block := ?b + 1\<rparr>"
  obtain w' where w': "save_class [] (Some (?b, 0)) ?w = Some (w', [])"
      "saved_blocks w' = saved_blocks ?w @ [Some ?b]" "class_at w' = ?K(c := ?d)"
      "pmix_class_init_epoch w' = pmix_class_init_epoch w"
      "blocks w' = (blocks w)(?b \<mapsto> ?cells)" "next_block w' = ?b + 1"
      "case classes w' of None \<Rightarrow> num_classes w' = 0 \<and> max_classes w' = 0
       | Some cs \<Rightarrow> length cs = max_classes w' \<and> num_classes w' \<le> max_classes w'"
  proof -
    have "case classes ?w of None \<Rightarrow> num_classes ?w = 0 \<and> max_classes ?w = 0
      | Some cs \<Rightarrow> length cs = max_classes ?w \<and> num_classes ?w \<le> max_classes ?w"
      using t by (simp add: class_table_def split: option.splits)
    from save_class_table [OF this, of "Some (?b, 0)"] that show thesis by auto
  qed
  have last_cell: "(map Some (rev con) @ None # map Some des @ [uninit])[length con + 1 + length des := None] = ?cells"
    by (simp add: list_update_append)
  have init: "pmix_class_initialize [] c w = Some (w', [])"
    using stale lin block_filled [OF lin fs] w'(1) last_cell
    by (simp add: pmix_class_initialize_def length_functions_of fs [symmetric] Let_def
        del: not_None_eq list_update.simps)
  have live: "\<And>b. blocks w b \<noteq> None \<longleftrightarrow> Some b \<in> set (saved_blocks w)" "\<And>b. blocks w b \<noteq> None \<Longrightarrow> b < ?b"
    using t unfolding class_table_def by blast+
  have fresh: "blocks w ?b = None" using live(2) by blast
  have cells: "blocks w' ?b = Some (map Some (rev con) @ None # map Some des @ [None])"
    using w'(5) by simp
  have arrays: "functions_at w' (cls_construct_array (class_at w' c)) = Some (rev con)"
    "functions_at w' (cls_destruct_array (class_at w' c)) = Some des"
    using functions_at_block [OF cells] w'(3) by simp_all
  have same: "same_classes ?K (class_at w')" using w'(3) by (simp add: same_classes_def)
  have others: "class_at w' d = ?K d" if "d \<noteq> c" for d using that w'(3) by simp
  have "lineage (class_at w') (Some c) = Some cs"
    using lin same by (rule_tac lineage_cong) (auto simp: same_classes_def)
  moreover have "functions_of (\<lambda>c. cls_construct (class_at w' c)) cs = con"
    "functions_of (\<lambda>c. cls_destruct (class_at w' c)) cs = des"
    using same unfolding fs by (auto intro!: functions_of_cong simp: same_classes_def)
  ultimately have ready: "class_ready w' c" using arrays unfolding class_ready_def by metis
  have "class_ready w' d" if "d \<noteq> ''pmix_object_t''" "cls_initialized (class_at w' d) = pmix_class_init_epoch w'" for d
  proof (cases "d = c")
    case False
    then have "class_ready w d" using t that others [OF False] w'(4) by (simp add: class_table_def)
    moreover have "blocks w' b = blocks w b" if "blocks w b \<noteq> None" for b
      using that fresh w'(5) by auto
    ultimately show ?thesis using class_ready_mono same others [OF False] by blast
  qed (use ready in simp)
  moreover have "\<forall>b. blocks w' b \<noteq> None \<longleftrightarrow> Some b \<in> set (saved_blocks w')"
  proof
    have s: "saved_blocks ?w = saved_blocks w" by (simp add: saved_blocks_def split: option.splits)
    fix b
    show "blocks w' b \<noteq> None \<longleftrightarrow> Some b \<in> set (saved_blocks w')"
      unfolding w'(2,5) s using live(1) [of b] by auto
  qed
  moreover have "\<forall>b. blocks w' b \<noteq> None \<longrightarrow> b < next_block w'"
    unfolding w'(5,6) using live(2) by (auto simp: less_Suc_eq)
  moreover have "\<forall>d. cls_initialized (class_at w' d) \<le> pmix_class_init_epoch w'"
    using t w'(3,4) by (simp add: class_table_def)
  ultimately have "class_table w'" using w'(7) by (simp add: class_table_def)
  with init ready arrays w'(3,4) same others show ?thesis by (simp add: fs)
qed

lemma finalize_table:
  assumes t: "class_table w" and e: "pmix_class_init_epoch w < 2147483647"
  shows "class_table (pmix_class_finalize w) \<and> blocks (pmix_class_finalize w) = (\<lambda>b. None) \<and>
    (\<forall>c. cls_initialized (class_at (pmix_class_finalize w) c) \<noteq> pmix_class_init_epoch (pmix_class_finalize w))"
proof -
  let ?w = "pmix_class_finalize w"
  have K: "class_at ?w = class_at w" "pmix_class_init_epoch ?w = pmix_class_init_epoch w + 1"
    "classes ?w = None" "num_classes ?w = 0" "max_classes ?w = 0" "next_block ?w = next_block w"
    using e t by (auto simp: pmix_class_finalize_def next_epoch_def Let_def class_table_def split: option.splits)
  have b: "blocks ?w = (\<lambda>b. None)"
    using t by (fastforce simp: pmix_class_finalize_def class_table_def saved_blocks_def Let_def split: option.splits)
  have lt: "cls_initialized (class_at w c) < pmix_class_init_epoch w + 1" for c
    using t by (simp add: class_table_def zle_iff_zadd le_less_trans)
  then show ?thesis
    using K b by (auto simp: class_table_def saved_blocks_def less_imp_le, metis less_irrefl, metis less_irrefl)
qed

section \<open>Objects of a ready class\<close>

lemma stale_initialized:
  assumes t: "class_table (cstate s)" and lin: "lineage (class_at (cstate s)) (Some c) = Some cs"
    and c: "c \<noteq> ''pmix_object_t''"
  shows "\<exists>w'. initialize_if_stale [] c s = Some (s\<lparr>cstate := w'\<rparr>, []) \<and> class_table w' \<and>
    functions_at w' (cls_construct_array (class_at w' c)) =
      Some (rev (functions_of (\<lambda>c. cls_construct (class_at (cstate s) c)) cs)) \<and>
    functions_at w' (cls_destruct_array (class_at w' c)) =
      Some (functions_of (\<lambda>c. cls_destruct (class_at (cstate s) c)) cs)"
proof (cases "cls_initialized (class_at (cstate s) c) = pmix_class_init_epoch (cstate s)")
  case True
  then have "class_ready (cstate s) c" using t c by (simp add: class_table_def)
  then show ?thesis
    using True t lin unfolding class_ready_def initialize_if_stale_def
    by (intro exI [of _ "cstate s"]) auto
next
  case False
  then show ?thesis
    using initialize_table [OF t lin] by (auto simp: initialize_if_stale_def)
qed

text \<open>A live object with \<open>n\<close> references whose class has the destructors \<open>ds\<close> in place.\<close>

definition live :: "object_state \<Rightarrow> nat \<Rightarrow> int \<Rightarrow> string list \<Rightarrow> bool" where
  "live s ob n ds \<longleftrightarrow>
     (\<exists>x c. objs s ob = Some x \<and> obj_class x = Some c \<and> obj_magic_id x = PMIX_OBJ_MAGIC_ID \<and>
       obj_reference_count x = n \<and> 0 < n \<and> n \<le> int_max \<and>
       functions_at (cstate s) (cls_destruct_array (class_at (cstate s) c)) = Some ds)"

lemma new_live:
  assumes "class_table (cstate s)" "lineage (class_at (cstate s)) (Some c) = Some cs"
    "c \<noteq> ''pmix_object_t''" "sizeof_pmix_object \<le> cls_sizeof (class_at (cstate s) c)"
  shows "\<exists>s'. PMIX_NEW junk site [] c s = Some (next_obj s, s', []) \<and>
    live s' (next_obj s) 1 (functions_of (\<lambda>c. cls_destruct (class_at (cstate s) c)) cs) \<and>
    calls s' = calls s @ map (\<lambda>f. (f, next_obj s)) (rev (functions_of (\<lambda>c. cls_construct (class_at (cstate s) c)) cs))"
proof -
  obtain w' where "initialize_if_stale [] c s = Some (s\<lparr>cstate := w'\<rparr>, [])"
      "functions_at w' (cls_construct_array (class_at w' c)) =
        Some (rev (functions_of (\<lambda>c. cls_construct (class_at (cstate s) c)) cs))"
      "functions_at w' (cls_destruct_array (class_at w' c)) =
        Some (functions_of (\<lambda>c. cls_destruct (class_at (cstate s) c)) cs)"
    using stale_initialized [OF assms(1-3)] by blast
  then show ?thesis
    using assms(4)
    by (simp add: PMIX_NEW_def pmix_obj_new_def pmix_obj_run_constructors_def update_obj_def live_def
        int_max_def Let_def)
qed

lemma retain_live:
  "live s ob n ds \<Longrightarrow> n < int_max \<Longrightarrow>
    \<exists>s'. PMIX_RETAIN ob s = Some s' \<and> live s' ob (n + 1) ds \<and> calls s' = calls s"
  by (auto simp: live_def PMIX_RETAIN_def checked_def pmix_obj_update_def int_min_def Let_def)

lemma release_live:
  "live s ob n ds \<Longrightarrow> 1 < n \<Longrightarrow>
    \<exists>s'. PMIX_RELEASE ob s = Some s' \<and> live s' ob (n - 1) ds \<and> calls s' = calls s"
  by (auto simp: live_def PMIX_RELEASE_def checked_def pmix_obj_update_def int_min_def Let_def)

lemma release_last:
  "live s ob 1 ds \<Longrightarrow>
    \<exists>s'. PMIX_RELEASE ob s = Some s' \<and> objs s' ob = None \<and> calls s' = calls s @ map (\<lambda>f. (f, ob)) ds"
  by (auto simp: live_def PMIX_RELEASE_def checked_def pmix_obj_update_def update_obj_def
      pmix_obj_run_destructors_def int_min_def int_max_def Let_def)

lemma released_faults:
  "objs s ob = None \<Longrightarrow> PMIX_RETAIN ob s = None \<and> PMIX_RELEASE ob s = None \<and> PMIX_DESTRUCT site ob s = None"
  by (simp add: PMIX_RETAIN_def PMIX_RELEASE_def PMIX_DESTRUCT_def checked_def)

text \<open>A client's sequence of \<open>PMIX_RETAIN\<close> and \<open>PMIX_RELEASE\<close> that never drops the last reference.\<close>

datatype ref_op = Retain | Release

fun run_refs :: "nat \<Rightarrow> ref_op list \<Rightarrow> object_state \<Rightarrow> object_state option" where
  "run_refs ob [] s = Some s"
| "run_refs ob (Retain # xs) s = do { s \<leftarrow> PMIX_RETAIN ob s; run_refs ob xs s }"
| "run_refs ob (Release # xs) s = do { s \<leftarrow> PMIX_RELEASE ob s; run_refs ob xs s }"

fun keeps_alive :: "int \<Rightarrow> ref_op list \<Rightarrow> bool" where
  "keeps_alive n [] \<longleftrightarrow> 0 < n"
| "keeps_alive n (Retain # xs) \<longleftrightarrow> n < int_max \<and> keeps_alive (n + 1) xs"
| "keeps_alive n (Release # xs) \<longleftrightarrow> 1 < n \<and> keeps_alive (n - 1) xs"

definition balance :: "ref_op list \<Rightarrow> int" where
  "balance xs = int (length (filter (\<lambda>x. x = Retain) xs)) - int (length (filter (\<lambda>x. x = Release) xs))"

lemma balance_simps [simp]:
  "balance [] = 0" "balance (Retain # xs) = balance xs + 1" "balance (Release # xs) = balance xs - 1"
  by (simp_all add: balance_def)

lemma run_refs_live:
  "live s ob n ds \<Longrightarrow> keeps_alive n xs \<Longrightarrow>
    \<exists>s'. run_refs ob xs s = Some s' \<and> live s' ob (n + balance xs) ds \<and> calls s' = calls s"
proof (induction xs arbitrary: s n)
  case (Cons x xs)
  show ?case
  proof (cases x)
    case Retain
    then obtain s1 where s1: "PMIX_RETAIN ob s = Some s1" "live s1 ob (n + 1) ds" "calls s1 = calls s"
      using retain_live [OF Cons.prems(1)] Cons.prems(2) by auto
    with Cons.IH [OF s1(2)] Cons.prems(2) Retain show ?thesis by (auto simp: algebra_simps)
  next
    case Release
    then obtain s1 where s1: "PMIX_RELEASE ob s = Some s1" "live s1 ob (n - 1) ds" "calls s1 = calls s"
      using release_live [OF Cons.prems(1)] Cons.prems(2) by auto
    with Cons.IH [OF s1(2)] Cons.prems(2) Release show ?thesis by (auto simp: algebra_simps)
  qed
qed simp

section \<open>Epochs\<close>

lemma next_epoch_mod: "1 \<le> e \<Longrightarrow> e \<le> 2147483647 \<Longrightarrow> next_epoch e = e mod 2147483647 + 1"
  by (auto simp: next_epoch_def)

lemma next_epoch_funpow:
  "1 \<le> e \<Longrightarrow> e \<le> 2147483647 \<Longrightarrow> (next_epoch ^^ n) e = (e - 1 + int n) mod 2147483647 + 1"
proof (induction n)
  case (Suc n)
  have "1 \<le> (e - 1 + int n) mod 2147483647 + 1" "(e - 1 + int n) mod 2147483647 + 1 \<le> 2147483647"
    by (simp_all add: add1_zle_eq)
  then have "(next_epoch ^^ Suc n) e = ((e - 1 + int n) mod 2147483647 + 1) mod 2147483647 + 1"
    using Suc next_epoch_mod by simp
  then show ?case by (simp add: mod_simps algebra_simps)
qed simp

lemma finalize_funpow:
  "class_at ((pmix_class_finalize ^^ n) w) = class_at w \<and>
    pmix_class_init_epoch ((pmix_class_finalize ^^ n) w) = (next_epoch ^^ n) (pmix_class_init_epoch w)"
  by (induction n) (auto simp: pmix_class_finalize_def Let_def split: option.splits)

lemma finalize_no_blocks:
  "class_table w \<Longrightarrow> blocks ((pmix_class_finalize ^^ Suc n) w) = (\<lambda>b. None) \<and>
    classes ((pmix_class_finalize ^^ Suc n) w) = None"
proof (induction n)
  case 0
  then show ?case
    by (fastforce simp: pmix_class_finalize_def class_table_def saved_blocks_def Let_def split: option.splits)
next
  case (Suc n)
  define v where "v = (pmix_class_finalize ^^ Suc n) w"
  have "blocks v = (\<lambda>b. None) \<and> classes v = None" using Suc by (simp add: v_def)
  then have "blocks (pmix_class_finalize v) = (\<lambda>b. None) \<and> classes (pmix_class_finalize v) = None"
    by (simp add: pmix_class_finalize_def Let_def)
  moreover have "(pmix_class_finalize ^^ Suc (Suc n)) w = pmix_class_finalize v" by (simp add: v_def)
  ultimately show ?case by (simp only:)
qed

section \<open>Properties\<close>

text \<open>The program's start: three levels of classes, of which the middle one has no destructor.\<close>

definition sample_classes :: class_state where
  "sample_classes =
     \<lparr>class_at = (\<lambda>c. if c = ''pmix_object_t'' then pmix_object_t_class
        else if c = ''tracker_t'' then PMIX_CLASS_INSTANCE ''item_t'' (Some ''tcon'') (Some ''tdes'') 88
        else PMIX_CLASS_INSTANCE ''pmix_object_t'' (Some ''icon'') None 72),
      pmix_class_init_epoch = 1, classes = None, num_classes = 0, max_classes = 0,
      blocks = (\<lambda>b. None), next_block = 0\<rparr>"

definition sample_objects :: object_state where
  "sample_objects = \<lparr>cstate = sample_classes, objs = (\<lambda>ob. None), next_obj = 7, calls = []\<rparr>"

definition sample_junk :: pmix_object where
  "sample_junk = \<lparr>obj_magic_id = 0, obj_class = None, obj_reference_count = - 5, cls_init_site = (''x'', 0)\<rparr>"

lemma sample_lineage:
  "lineage (class_at sample_classes) (Some ''tracker_t'') = Some [''tracker_t'', ''item_t'', ''pmix_object_t'']"
  by (simp add: lineage_Cons lineage_Nil sample_classes_def PMIX_CLASS_INSTANCE_def pmix_object_t_class_def)

lemma sample_table: "class_table sample_classes"
  by (auto simp: class_table_def saved_blocks_def sample_classes_def PMIX_CLASS_INSTANCE_def pmix_object_t_class_def)

text \<open>
  Initializing a class of a finite hierarchy fills its two arrays: the constructors from
  the root down to the class, its destructors from the class up to the root, each ended by
  NULL; other descriptors are not touched, and the class table stays consistent (every live
  array is saved for \<open>pmix_class_finalize\<close>, in particular when the table itself has to grow).
\<close>

lemma pmix_class_initialize_spec:
  assumes "class_table w" "lineage (class_at w) (Some c) = Some cs"
    "cls_initialized (class_at w c) \<noteq> pmix_class_init_epoch w"
  shows "\<exists>w'. pmix_class_initialize [] c w = Some (w', []) \<and> class_table w' \<and>
    functions_at w' (cls_construct_array (class_at w' c)) =
      Some (rev (functions_of (\<lambda>c. cls_construct (class_at w c)) cs)) \<and>
    functions_at w' (cls_destruct_array (class_at w' c)) =
      Some (functions_of (\<lambda>c. cls_destruct (class_at w c)) cs) \<and>
    cls_depth (class_at w' c) = int (length cs) \<and>
    pmix_class_initialize [] c w' = Some (w', []) \<and> (\<forall>d. d \<noteq> c \<longrightarrow> class_at w' d = class_at w d)"
proof -
  obtain w' where w': "pmix_class_initialize [] c w = Some (w', [])" "class_table w'"
      "functions_at w' (cls_construct_array (class_at w' c)) =
        Some (rev (functions_of (\<lambda>c. cls_construct (class_at w c)) cs))"
      "functions_at w' (cls_destruct_array (class_at w' c)) =
        Some (functions_of (\<lambda>c. cls_destruct (class_at w c)) cs)"
      "cls_initialized (class_at w' c) = pmix_class_init_epoch w'"
      "cls_depth (class_at w' c) = int (length cs)" "\<forall>d. d \<noteq> c \<longrightarrow> class_at w' d = class_at w d"
    using initialize_table [OF assms] by metis
  moreover have "pmix_class_initialize [] c w' = Some (w', [])"
    using w'(5) by (simp add: pmix_class_initialize_def)
  ultimately show ?thesis by blast
qed

text \<open>
  C16: the life of an object under any sequence of retains and releases that keeps a
  reference: creation runs the constructors base class first; nothing runs in between; the
  release of the last reference runs the destructors once, derived class first, and frees the
  object; a later retain, release or destruct is a fault.
\<close>

theorem object_lifecycle:
  assumes "class_table (cstate s)" "lineage (class_at (cstate s)) (Some c) = Some cs"
    "c \<noteq> ''pmix_object_t''" "sizeof_pmix_object \<le> cls_sizeof (class_at (cstate s) c)"
    "keeps_alive 1 ops" "balance ops = 0"
  shows "\<exists>s1 s2 s3. PMIX_NEW junk site [] c s = Some (next_obj s, s1, []) \<and>
    calls s1 = calls s @ map (\<lambda>f. (f, next_obj s)) (rev (functions_of (\<lambda>c. cls_construct (class_at (cstate s) c)) cs)) \<and>
    run_refs (next_obj s) ops s1 = Some s2 \<and> calls s2 = calls s1 \<and> PMIX_RELEASE (next_obj s) s2 = Some s3 \<and>
    calls s3 = calls s2 @ map (\<lambda>f. (f, next_obj s)) (functions_of (\<lambda>c. cls_destruct (class_at (cstate s) c)) cs) \<and>
    objs s3 (next_obj s) = None \<and> PMIX_RELEASE (next_obj s) s3 = None \<and> PMIX_RETAIN (next_obj s) s3 = None"
proof -
  let ?ds = "functions_of (\<lambda>c. cls_destruct (class_at (cstate s) c)) cs"
  obtain s1 where s1: "PMIX_NEW junk site [] c s = Some (next_obj s, s1, [])" "live s1 (next_obj s) 1 ?ds"
      "calls s1 = calls s @ map (\<lambda>f. (f, next_obj s)) (rev (functions_of (\<lambda>c. cls_construct (class_at (cstate s) c)) cs))"
    using new_live [OF assms(1-4)] by blast
  obtain s2 where s2: "run_refs (next_obj s) ops s1 = Some s2" "live s2 (next_obj s) 1 ?ds" "calls s2 = calls s1"
    using run_refs_live [OF s1(2) assms(5)] assms(6) by auto
  then show ?thesis
    using s1 release_last [OF s2(2)] released_faults by metis
qed

theorem object_lifecycle_witness:
  "\<exists>s1 s2 s3. PMIX_NEW sample_junk (''a.c'', 1) [] ''tracker_t'' sample_objects = Some (7, s1, []) \<and>
    calls s1 = [(''icon'', 7), (''tcon'', 7)] \<and> run_refs 7 [Retain, Retain, Release, Release] s1 = Some s2 \<and>
    PMIX_RELEASE 7 s2 = Some s3 \<and> calls s3 = [(''icon'', 7), (''tcon'', 7), (''tdes'', 7)]"
proof -
  have "keeps_alive 1 [Retain, Retain, Release, Release]" "balance [Retain, Retain, Release, Release] = 0"
    "class_table (cstate sample_objects)"
    "lineage (class_at (cstate sample_objects)) (Some ''tracker_t'') = Some [''tracker_t'', ''item_t'', ''pmix_object_t'']"
    "sizeof_pmix_object \<le> cls_sizeof (class_at (cstate sample_objects) ''tracker_t'')"
    using sample_table sample_lineage
    by (simp_all add: sample_objects_def int_max_def sizeof_pmix_object_def)
      (simp add: sample_classes_def PMIX_CLASS_INSTANCE_def)
  from object_lifecycle [OF this(3-4) _ this(5,1,2), of sample_junk "(''a.c'', 1)"] show ?thesis
    by (auto simp: sample_objects_def sample_classes_def PMIX_CLASS_INSTANCE_def pmix_object_t_class_def)
qed

text \<open>
  \<open>pmix_class_finalize\<close> frees every array and makes every class stale, so that the next
  use initializes it again; but the epoch counts modulo \<open>2^31 - 1\<close>: after that many calls a
  class that was initialized in the first epoch, and not since, passes for initialized although
  its arrays are gone, and creating an object of it reads freed memory.
\<close>

lemma pmix_class_finalize_epochs:
  assumes "class_table (cstate s)" "1 \<le> pmix_class_init_epoch (cstate s)"
    "pmix_class_init_epoch (cstate s) < 2147483647"
    "cls_initialized (class_at (cstate s) c) = pmix_class_init_epoch (cstate s)"
  shows "class_table (pmix_class_finalize (cstate s)) \<and> blocks (pmix_class_finalize (cstate s)) b = None \<and>
    cls_initialized (class_at (pmix_class_finalize (cstate s)) d) \<noteq>
      pmix_class_init_epoch (pmix_class_finalize (cstate s)) \<and>
    (\<forall>s' ms. cstate s' = (pmix_class_finalize ^^ 2147483647) (cstate s) \<longrightarrow>
      initialize_if_stale ms c s' = Some (s', ms) \<and> PMIX_NEW junk site ms c s' = None)"
proof -
  have "PMIX_NEW junk site ms c s' = None \<and> initialize_if_stale ms c s' = Some (s', ms)"
    if s': "cstate s' = (pmix_class_finalize ^^ 2147483647) (cstate s)" for s' ms
  proof -
    have e: "(next_epoch ^^ 2147483647) (pmix_class_init_epoch (cstate s)) = pmix_class_init_epoch (cstate s)"
    proof -
      have "(pmix_class_init_epoch (cstate s) - 1 + int 2147483647) mod 2147483647 =
          pmix_class_init_epoch (cstate s) - 1"
        using assms(2,3) by (simp only: of_nat_numeral mod_add_self2) simp
      then show ?thesis
        using next_epoch_funpow [of "pmix_class_init_epoch (cstate s)" 2147483647] assms(2,3)
        by (simp only: of_nat_numeral)
    qed
    have "(2147483647 :: nat) = Suc 2147483646" by simp
    then have "blocks (cstate s') = (\<lambda>b. None)"
      using finalize_no_blocks [OF assms(1), of 2147483646] s' by simp
    then have f: "functions_at (cstate s') p = None" for p
      by (auto simp: functions_at_def bind_eq_None_conv split: prod.splits)
    have i: "initialize_if_stale ms c s' = Some (s', ms)" for ms
      using e assms(4) s' finalize_funpow [of 2147483647 "cstate s"] by (simp add: initialize_if_stale_def)
    have "PMIX_NEW junk site ms c s' = None"
      using i f by (auto simp: PMIX_NEW_def pmix_obj_new_def pmix_obj_run_constructors_def Let_def
          bind_eq_None_conv split: prod.splits if_splits)
    with i show ?thesis by simp
  qed
  then show ?thesis using finalize_table [OF assms(1,3)] by simp
qed

text \<open>
  The base class is marked as initialized in the first epoch although its arrays are
  NULL: the first \<open>PMIX_NEW (pmix_object_t)\<close> of a program reads through NULL; after one
  \<open>pmix_class_finalize\<close> the same call works.
\<close>

lemma base_class_first_epoch:
  assumes "class_table (cstate s)" "class_at (cstate s) ''pmix_object_t'' = pmix_object_t_class"
    "pmix_class_init_epoch (cstate s) = 1"
  shows "PMIX_NEW junk site ms ''pmix_object_t'' s = None \<and>
    (\<exists>s1. PMIX_NEW junk site [] ''pmix_object_t'' (s\<lparr>cstate := pmix_class_finalize (cstate s)\<rparr>) =
       Some (next_obj s, s1, []))"
proof
  have "functions_at (cstate s) None = None" by (simp add: functions_at_def)
  then show "PMIX_NEW junk site ms ''pmix_object_t'' s = None"
    using assms by (auto simp: PMIX_NEW_def pmix_obj_new_def pmix_obj_run_constructors_def Let_def
        initialize_if_stale_def pmix_object_t_class_def bind_eq_None_conv split: prod.splits if_splits)
  let ?w = "pmix_class_finalize (cstate s)"
  have w: "class_table ?w" "class_at ?w = class_at (cstate s)" "pmix_class_init_epoch ?w = 2"
    using finalize_table [OF assms(1)] finalize_funpow [of 1 "cstate s"] assms(3)
    by (simp_all add: next_epoch_def)
  have "lineage (class_at ?w) (Some ''pmix_object_t'') = Some [''pmix_object_t'']"
    using assms(2) w(2) by (simp add: lineage_Cons lineage_Nil pmix_object_t_class_def)
  from initialize_table [OF w(1) this] obtain w' where
    "pmix_class_initialize [] ''pmix_object_t'' ?w = Some (w', [])"
    "functions_at w' (cls_construct_array (class_at w' ''pmix_object_t'')) = Some []"
    using w assms(2) by (auto simp: pmix_object_t_class_def)
  then show "\<exists>s1. PMIX_NEW junk site [] ''pmix_object_t'' (s\<lparr>cstate := ?w\<rparr>) = Some (next_obj s, s1, [])"
    using w assms(2)
    by (simp add: PMIX_NEW_def pmix_obj_new_def pmix_obj_run_constructors_def update_obj_def Let_def
        initialize_if_stale_def pmix_object_t_class_def)
qed

end
