(* ===== verification/CliStages.thy ===== *)
theory CliStages
  imports Prelude "HOL-Library.Monad_Syntax"
begin

text \<open>
  The life of the test clients as the server tracks it: src/unit/cli_stages.h and
  cli_stages.c. A client is named by its index in the array \<open>cli_info\<close>; the
  result \<open>None\<close> is a fault (an index outside an array, a second \<open>free\<close>) or a
  recursion that does not end. The operating system (\<open>waitpid\<close>, the clock, \<open>kill\<close>) is
  a script of what it reports.
\<close>

section \<open>Data\<close>

datatype cli_state =
  CLI_UNINIT | CLI_FORKED | CLI_CONNECTED | CLI_FIN | CLI_DISCONN | CLI_TERM | CLI_UNDEF

text \<open>The values of the enumeration, and their order.\<close>

fun state_index :: "cli_state \<Rightarrow> nat" where
  "state_index CLI_UNINIT = 0"
| "state_index CLI_FORKED = 1"
| "state_index CLI_CONNECTED = 2"
| "state_index CLI_FIN = 3"
| "state_index CLI_DISCONN = 4"
| "state_index CLI_TERM = 5"
| "state_index CLI_UNDEF = 6"

lemma state_index_inj [simp]: "state_index s = state_index t \<longleftrightarrow> s = t"
  by (cases s; cases t) auto

instantiation cli_state :: linorder
begin

definition less_eq_cli_state :: "cli_state \<Rightarrow> cli_state \<Rightarrow> bool" where
  "less_eq_cli_state s t \<longleftrightarrow> state_index s \<le> state_index t"

definition less_cli_state :: "cli_state \<Rightarrow> cli_state \<Rightarrow> bool" where
  "less_cli_state s t \<longleftrightarrow> state_index s < state_index t"

instance
  by standard (auto simp: less_eq_cli_state_def less_cli_state_def)

end

text \<open>A \<open>char *\<close> that is freed without being reset.\<close>

datatype ns_ptr = NsNull | Ns string | NsFreed

record cli_info_t =
  modex :: "nat list"                     \<comment> \<open>the items of the list\<close>
  pid :: int
  sd :: int
  ev :: "nat option"
  state :: cli_state
  next_state :: "cli_state list"          \<comment> \<open>\<open>CLI_TERM + 1\<close> entries\<close>
  rank :: pmix_rank_t
  ns :: ns_ptr

record harness =
  cli_info :: "cli_info_t list"           \<comment> \<open>\<open>cli_info_cnt\<close> is its length\<close>
  test_abort :: bool
  closed_sds :: "int list"                \<comment> \<open>descriptors closed, in order\<close>
  freed_evs :: "nat list"                 \<comment> \<open>events deleted and freed, in order\<close>
  killed :: "int list"                    \<comment> \<open>processes sent SIGKILL, in order\<close>

definition cli :: "nat \<Rightarrow> harness \<Rightarrow> cli_info_t option" where
  "cli i h = (if i < length (cli_info h) then Some (cli_info h ! i) else None)"

definition set_cli :: "nat \<Rightarrow> cli_info_t \<Rightarrow> harness \<Rightarrow> harness" where
  "set_cli i c h = h\<lparr>cli_info := (cli_info h)[i := c]\<rparr>"

text \<open>\<open>cli->next_state[cli->state]\<close>\<close>

definition expected :: "cli_info_t \<Rightarrow> cli_state option" where
  "expected c = (if state_index (state c) < length (next_state c)
     then Some (next_state c ! state_index (state c)) else None)"

section \<open>Operations\<close>

definition cli_rank :: "nat \<Rightarrow> harness \<Rightarrow> int" where
  "cli_rank i h = (case cli i h of None \<Rightarrow> - 1 | Some c \<Rightarrow> sint (rank c))"

text \<open>The order of the stages; the entries are those of \<open>order[]\<close> at the indices 0 to \<open>CLI_TERM\<close>.\<close>

definition cli_order :: "cli_state list" where
  "cli_order = [CLI_FORKED, CLI_FIN, CLI_UNDEF, CLI_TERM, CLI_UNDEF, CLI_UNDEF]"

definition cli_init :: "nat \<Rightarrow> harness \<Rightarrow> harness" where
  "cli_init nprocs h =
     h\<lparr>cli_info := replicate nprocs
         \<lparr>modex = [], pid = - 1, sd = - 1, ev = None, state = CLI_UNINIT, next_state = cli_order,
          rank = - 1, ns = NsNull\<rparr>\<rparr>"

text \<open>\<open>new_ev\<close> is the event \<open>pmix_event_new\<close> returns.\<close>

definition cli_connect :: "nat \<Rightarrow> int \<Rightarrow> nat \<Rightarrow> harness \<Rightarrow> harness option" where
  "cli_connect i fd new_ev h =
     do { c \<leftarrow> cli i h;
          e \<leftarrow> expected c;
          if CLI_CONNECTED \<noteq> e then Some (h\<lparr>test_abort := True\<rparr>)
          else Some (set_cli i (c\<lparr>sd := fd, ev := Some new_ev, state := CLI_CONNECTED\<rparr>) h) }"

definition cli_finalize :: "nat \<Rightarrow> harness \<Rightarrow> harness option" where
  "cli_finalize i h =
     do { c \<leftarrow> cli i h;
          e \<leftarrow> expected c;
          let h = (if CLI_FIN \<noteq> e then h\<lparr>test_abort := True\<rparr> else h);
          Some (set_cli i (c\<lparr>state := CLI_FIN\<rparr>) h) }"

definition cli_disconnect :: "nat \<Rightarrow> harness \<Rightarrow> harness option" where
  "cli_disconnect i h =
     do { c \<leftarrow> cli i h;
          e \<leftarrow> expected c;
          let h = (if CLI_DISCONN \<noteq> e then h\<lparr>test_abort := True\<rparr> else h);
          let h = (if 0 > sd c then h\<lparr>test_abort := True\<rparr> else h\<lparr>closed_sds := closed_sds h @ [sd c]\<rparr>);
          let c = (if 0 > sd c then c else c\<lparr>sd := - 1\<rparr>);
          let h = (case ev c of None \<Rightarrow> h\<lparr>test_abort := True\<rparr> | Some x \<Rightarrow> h\<lparr>freed_evs := freed_evs h @ [x]\<rparr>);
          Some (set_cli i (c\<lparr>ev := None, modex := [], state := CLI_DISCONN\<rparr>) h) }"

definition cli_terminate :: "nat \<Rightarrow> harness \<Rightarrow> harness option" where
  "cli_terminate i h =
     do { c \<leftarrow> cli i h;
          e \<leftarrow> expected c;
          let h = (if CLI_TERM \<noteq> e then h\<lparr>test_abort := True\<rparr> else h);
          let c = c\<lparr>pid := - 1, state := CLI_TERM\<rparr>;
          (case ns c of
             NsNull \<Rightarrow> Some (set_cli i c h)
           | Ns s \<Rightarrow> Some (set_cli i (c\<lparr>ns := NsFreed\<rparr>) h)
           | NsFreed \<Rightarrow> None) }"

partial_function (option) cli_cleanup :: "nat \<Rightarrow> harness \<Rightarrow> harness option" where
  "cli_cleanup i h =
     do { c \<leftarrow> cli i h;
          if CLI_TERM < state c then Some (h\<lparr>test_abort := True\<rparr>)
          else do {
            e \<leftarrow> expected c;
            (case e of
               CLI_FORKED \<Rightarrow> Some h
             | CLI_CONNECTED \<Rightarrow> Some (set_cli i (c\<lparr>state := CLI_TERM\<rparr>) (h\<lparr>test_abort := True\<rparr>))
             | CLI_FIN \<Rightarrow> do { h \<leftarrow> cli_finalize i h; h \<leftarrow> cli_cleanup i h; Some (h\<lparr>test_abort := True\<rparr>) }
             | CLI_DISCONN \<Rightarrow> do { h \<leftarrow> cli_disconnect i h; cli_cleanup i h }
             | CLI_TERM \<Rightarrow> cli_terminate i h
             | _ \<Rightarrow> Some (h\<lparr>test_abort := True\<rparr>)) } }"

definition test_terminated :: "harness \<Rightarrow> bool" where
  "test_terminated h \<longleftrightarrow> (\<forall>c \<in> set (cli_info h). CLI_TERM \<le> state c) \<or> test_abort h"

section \<open>Waiting for and killing the clients\<close>

text \<open>
  One round of \<open>cli_wait_all\<close>: the processes \<open>waitpid\<close> reports, each with "it exited or was
  killed by a signal" (and not just stopped), how the last \<open>waitpid\<close> of the round answers, and
  the time in microseconds since the start that the clock shows after it.
\<close>

datatype last_answer = Still_running | No_child | Wait_failed

type_synonym round = "(int \<times> bool) list \<times> last_answer \<times> int"

datatype wait_result =
    Done harness              \<comment> \<open>the function returns\<close>
  | Exited harness            \<comment> \<open>\<open>exit(0)\<close>\<close>
  | Waiting harness           \<comment> \<open>the script of rounds is used up and the loop goes on\<close>

fun reap_from :: "nat \<Rightarrow> nat \<Rightarrow> int \<Rightarrow> bool \<Rightarrow> harness \<Rightarrow> harness option" where
  "reap_from 0 i p gone h = Some h"
| "reap_from (Suc n) i p gone h =
     do { c \<leftarrow> cli i h;
          h \<leftarrow> (if pid c = p \<and> gone then cli_cleanup i h else Some h);
          reap_from n (i + 1) p gone h }"

definition reap :: "int \<Rightarrow> bool \<Rightarrow> harness \<Rightarrow> harness option" where
  "reap p gone h = reap_from (length (cli_info h)) 0 p gone h"

fun reap_all :: "(int \<times> bool) list \<Rightarrow> harness \<Rightarrow> harness option" where
  "reap_all [] h = Some h"
| "reap_all ((p, gone) # ps) h = do { h \<leftarrow> reap p gone h; reap_all ps h }"

fun wait_rounds :: "int \<Rightarrow> int \<Rightarrow> round list \<Rightarrow> harness \<Rightarrow> wait_result option" where
  "wait_rounds timeout elapsed rs h =
     (if test_terminated h \<or> timeout < elapsed then Some (Done h)
      else (case rs of
          [] \<Rightarrow> Some (Waiting h)
        | (ps, answer, now) # rs' \<Rightarrow> do {
            h \<leftarrow> reap_all ps h;
            (case answer of
               No_child \<Rightarrow> Some (Done h)
             | Wait_failed \<Rightarrow> Some (Exited h)
             | Still_running \<Rightarrow> wait_rounds timeout now rs' h) }))"

declare wait_rounds.simps [simp del]

definition cli_wait_all :: "int \<Rightarrow> round list \<Rightarrow> harness \<Rightarrow> wait_result option" where
  "cli_wait_all timeout rs h = wait_rounds timeout 0 rs h"

fun kill_from :: "nat \<Rightarrow> nat \<Rightarrow> harness \<Rightarrow> harness option" where
  "kill_from 0 i h = Some h"
| "kill_from (Suc n) i h =
     do { c \<leftarrow> cli i h;
          h \<leftarrow> (if state c = CLI_UNINIT \<or> CLI_TERM \<le> state c then Some h
               else cli_cleanup i (h\<lparr>killed := killed h @ [pid c]\<rparr>));
          kill_from n (i + 1) h }"

definition cli_kill_all :: "harness \<Rightarrow> harness option" where
  "cli_kill_all h = kill_from (length (cli_info h)) 0 h"

section \<open>Cleaning up one client\<close>

definition terminated :: "cli_info_t \<Rightarrow> cli_info_t" where
  "terminated c = (case ns c of
       Ns s \<Rightarrow> c\<lparr>pid := - 1, state := CLI_TERM, ns := NsFreed\<rparr>
     | _ \<Rightarrow> c\<lparr>pid := - 1, state := CLI_TERM\<rparr>)"

lemma terminated_simps [simp]:
  "pid (terminated c) = - 1" "state (terminated c) = CLI_TERM" "rank (terminated c) = rank c"
  by (simp_all add: terminated_def split: ns_ptr.splits)

lemma order_simps:
  "CLI_TERM < s \<longleftrightarrow> s = CLI_UNDEF" "CLI_TERM \<le> s \<longleftrightarrow> s = CLI_TERM \<or> s = CLI_UNDEF"
  "s < CLI_TERM \<longleftrightarrow> s \<noteq> CLI_TERM \<and> s \<noteq> CLI_UNDEF"
  by (cases s; simp add: less_eq_cli_state_def less_cli_state_def)+

lemma expected_order:
  "next_state c = cli_order \<Longrightarrow> expected c = (case state c of
     CLI_UNINIT \<Rightarrow> Some CLI_FORKED | CLI_FORKED \<Rightarrow> Some CLI_FIN | CLI_FIN \<Rightarrow> Some CLI_TERM
   | CLI_UNDEF \<Rightarrow> None | _ \<Rightarrow> Some CLI_UNDEF)"
  by (cases "state c") (simp_all add: expected_def cli_order_def)

lemma cli_set_cli [simp]: "i < length (cli_info h) \<Longrightarrow> cli i (set_cli i c h) = Some c"
  "cli i (h\<lparr>test_abort := b\<rparr>) = cli i h" "length (cli_info (set_cli i c h)) = length (cli_info h)"
  by (simp_all add: cli_def set_cli_def)

lemma cli_SomeD: "cli i h = Some c \<Longrightarrow> i < length (cli_info h) \<and> cli_info h ! i = c"
  by (simp add: cli_def split: if_splits)

text \<open>
  The outcome of \<open>cli_cleanup\<close> for each stage of a client with the order of \<open>cli_init\<close>.
\<close>

lemma cleanup_FIN:
  assumes "cli i h = Some c" "next_state c = cli_order" "state c = CLI_FIN" "ns c \<noteq> NsFreed"
  shows "cli_cleanup i h = Some (set_cli i (terminated c) h)"
  using assms by (subst cli_cleanup.simps)
    (auto simp: expected_order order_simps cli_terminate_def terminated_def Let_def split: ns_ptr.splits)

lemma cleanup_FORKED:
  assumes "cli i h = Some c" "next_state c = cli_order" "state c = CLI_FORKED" "ns c \<noteq> NsFreed"
  shows "cli_cleanup i h = Some (set_cli i (terminated c) (h\<lparr>test_abort := True\<rparr>))"
proof -
  let ?c = "c\<lparr>state := CLI_FIN\<rparr>"
  have i: "i < length (cli_info h)" using assms(1) cli_SomeD by blast
  have "cli_finalize i h = Some (set_cli i ?c h)"
    using assms by (simp add: cli_finalize_def expected_order Let_def)
  moreover have "cli_cleanup i (set_cli i ?c h) = Some (set_cli i (terminated ?c) (set_cli i ?c h))"
    using assms i by (intro cleanup_FIN) auto
  moreover have "set_cli i (terminated ?c) (set_cli i ?c h) = set_cli i (terminated c) h"
    by (simp add: set_cli_def terminated_def split: ns_ptr.splits)
  ultimately show ?thesis
    using assms by (subst cli_cleanup.simps)
      (simp add: expected_order order_simps set_cli_def)
qed

lemma cleanup_stuck:
  assumes "cli i h = Some c" "next_state c = cli_order"
  shows "state c = CLI_UNINIT \<Longrightarrow> cli_cleanup i h = Some h"
    and "state c \<in> {CLI_CONNECTED, CLI_DISCONN, CLI_TERM, CLI_UNDEF} \<Longrightarrow>
      cli_cleanup i h = Some (h\<lparr>test_abort := True\<rparr>)"
  using assms by (subst cli_cleanup.simps, auto simp: expected_order order_simps)+

section \<open>The invariant of the client table\<close>

text \<open>A client before its launch, running, and after its end; the name is freed exactly then.\<close>

definition idle :: "cli_info_t \<Rightarrow> bool" where
  "idle c \<longleftrightarrow> state c = CLI_UNINIT \<and> pid c = - 1 \<and> ns c = NsNull"

definition running :: "cli_info_t \<Rightarrow> bool" where
  "running c \<longleftrightarrow> (state c = CLI_FORKED \<or> state c = CLI_FIN) \<and> 0 < pid c \<and> (\<exists>s. ns c = Ns s)"

definition ended :: "cli_info_t \<Rightarrow> bool" where
  "ended c \<longleftrightarrow> state c = CLI_TERM \<and> pid c = - 1 \<and> ns c = NsFreed"

definition client_ok :: "cli_info_t \<Rightarrow> bool" where
  "client_ok c \<longleftrightarrow> next_state c = cli_order \<and> sd c = - 1 \<and> ev c = None \<and> (idle c \<or> running c \<or> ended c)"

definition table_ok :: "harness \<Rightarrow> bool" where
  "table_ok h \<longleftrightarrow> list_all client_ok (cli_info h) \<and> distinct (map pid (filter running (cli_info h)))"

lemma running_simps: "running c \<Longrightarrow> ns c \<noteq> NsFreed \<and> \<not> idle c \<and> \<not> ended c"
  by (auto simp: running_def idle_def ended_def)

lemma running_pid: "client_ok c \<Longrightarrow> running c \<longleftrightarrow> 0 < pid c"
  by (auto simp: client_ok_def running_def idle_def ended_def)

lemma ended_terminated [simp]: "running c \<Longrightarrow> ended (terminated c)"
  by (auto simp: running_def ended_def terminated_def)

lemma client_ok_terminated: "client_ok c \<Longrightarrow> running c \<Longrightarrow> client_ok (terminated c)"
  using ended_terminated [of c] by (auto simp: client_ok_def terminated_def split: ns_ptr.splits)

lemma cleanup_running:
  assumes "cli i h = Some c" "client_ok c" "running c"
  shows "cli_cleanup i h = Some (h\<lparr>cli_info := (cli_info h)[i := terminated c],
    test_abort := test_abort h \<or> state c = CLI_FORKED\<rparr>)"
proof (cases "state c = CLI_FORKED")
  case True
  then show ?thesis
    using cleanup_FORKED [of i h c] assms running_simps by (simp add: client_ok_def set_cli_def)
next
  case False
  then have "state c = CLI_FIN" using assms(3) by (simp add: running_def)
  then show ?thesis
    using cleanup_FIN [of i h c] assms running_simps by (simp add: client_ok_def set_cli_def)
qed

section \<open>The loops over the table\<close>

lemma reap_from_ok:
  assumes "0 < p" "n + i = length (cli_info h)" "list_all client_ok (drop i (cli_info h))"
  shows "reap_from n i p gone h = Some (h\<lparr>
      cli_info := take i (cli_info h) @
        map (\<lambda>c. if gone \<and> pid c = p then terminated c else c) (drop i (cli_info h)),
      test_abort := test_abort h \<or>
        (gone \<and> (\<exists>c \<in> set (drop i (cli_info h)). pid c = p \<and> state c = CLI_FORKED))\<rparr>)"
  using assms
proof (induction n arbitrary: i h)
  case 0
  then show ?case by simp
next
  case (Suc n)
  let ?c = "cli_info h ! i"
  have i: "i < length (cli_info h)" "cli i h = Some ?c" using Suc.prems by (auto simp: cli_def)
  have split: "drop i (cli_info h) = ?c # drop (Suc i) (cli_info h)" using i by (simp add: Cons_nth_drop_Suc)
  let ?h = "if gone \<and> pid ?c = p then h\<lparr>cli_info := (cli_info h)[i := terminated ?c],
    test_abort := test_abort h \<or> state ?c = CLI_FORKED\<rparr> else h"
  have ok: "client_ok ?c" using Suc.prems(3) split by simp
  then have step: "(if pid ?c = p \<and> gone then cli_cleanup i h else Some h) = Some ?h"
    using cleanup_running [OF i(2)] running_pid Suc.prems(1) by auto
  have "reap_from n (Suc i) p gone ?h = Some (?h\<lparr>
      cli_info := take (Suc i) (cli_info ?h) @
        map (\<lambda>c. if gone \<and> pid c = p then terminated c else c) (drop (Suc i) (cli_info ?h)),
      test_abort := test_abort ?h \<or>
        (gone \<and> (\<exists>c \<in> set (drop (Suc i) (cli_info ?h)). pid c = p \<and> state c = CLI_FORKED))\<rparr>)"
    using Suc.prems split by (intro Suc.IH) auto
  then show ?case
    using step i by (auto simp: split take_Suc_conv_app_nth)
qed

lemma kill_from_ok:
  assumes "n + i = length (cli_info h)" "list_all client_ok (drop i (cli_info h))"
  shows "kill_from n i h = Some (h\<lparr>
      cli_info := take i (cli_info h) @ map (\<lambda>c. if running c then terminated c else c) (drop i (cli_info h)),
      test_abort := test_abort h \<or> (\<exists>c \<in> set (drop i (cli_info h)). running c \<and> state c = CLI_FORKED),
      killed := killed h @ map pid (filter running (drop i (cli_info h)))\<rparr>)"
  using assms
proof (induction n arbitrary: i h)
  case 0
  then show ?case by simp
next
  case (Suc n)
  let ?c = "cli_info h ! i"
  have i: "i < length (cli_info h)" "cli i h = Some ?c" using Suc.prems by (auto simp: cli_def)
  have split: "drop i (cli_info h) = ?c # drop (Suc i) (cli_info h)" using i by (simp add: Cons_nth_drop_Suc)
  have ok: "client_ok ?c" using Suc.prems(2) split by simp
  let ?h = "if running ?c then h\<lparr>cli_info := (cli_info h)[i := terminated ?c],
    test_abort := test_abort h \<or> state ?c = CLI_FORKED, killed := killed h @ [pid ?c]\<rparr> else h"
  have skip: "(state ?c = CLI_UNINIT \<or> CLI_TERM \<le> state ?c) \<longleftrightarrow> \<not> running ?c"
    using ok by (auto simp: client_ok_def idle_def running_def ended_def order_simps)
  have "cli i (h\<lparr>killed := killed h @ [pid ?c]\<rparr>) = Some ?c" using i by (simp add: cli_def)
  then have step: "(if state ?c = CLI_UNINIT \<or> CLI_TERM \<le> state ?c then Some h
      else cli_cleanup i (h\<lparr>killed := killed h @ [pid ?c]\<rparr>)) = Some ?h"
    unfolding skip using cleanup_running ok by simp
  have "kill_from n (Suc i) ?h = Some (?h\<lparr>
      cli_info := take (Suc i) (cli_info ?h) @
        map (\<lambda>c. if running c then terminated c else c) (drop (Suc i) (cli_info ?h)),
      test_abort := test_abort ?h \<or> (\<exists>c \<in> set (drop (Suc i) (cli_info ?h)). running c \<and> state c = CLI_FORKED),
      killed := killed ?h @ map pid (filter running (drop (Suc i) (cli_info ?h)))\<rparr>)"
    using Suc.prems split by (intro Suc.IH) auto
  then show ?case
    using step i by (auto simp: split take_Suc_conv_app_nth)
qed

lemma reap_ok:
  assumes "table_ok h" "0 < p"
  shows "reap p gone h = Some (h\<lparr>
      cli_info := map (\<lambda>c. if gone \<and> pid c = p then terminated c else c) (cli_info h),
      test_abort := test_abort h \<or> (gone \<and> (\<exists>c \<in> set (cli_info h). pid c = p \<and> state c = CLI_FORKED))\<rparr>)"
  using reap_from_ok [OF assms(2), of "length (cli_info h)" 0 h gone] assms(1)
  by (simp add: reap_def table_ok_def)

lemma kill_all_ok:
  assumes "table_ok h"
  shows "cli_kill_all h = Some (h\<lparr>
      cli_info := map (\<lambda>c. if running c then terminated c else c) (cli_info h),
      test_abort := test_abort h \<or> (\<exists>c \<in> set (cli_info h). running c \<and> state c = CLI_FORKED),
      killed := killed h @ map pid (filter running (cli_info h))\<rparr>)"
  using kill_from_ok [of "length (cli_info h)" 0 h] assms
  by (simp add: cli_kill_all_def table_ok_def)

lemma kill_all_nobody:
  assumes "table_ok h" "filter running (cli_info h) = []" "\<forall>c \<in> set (cli_info h). \<not> running c"
  shows "cli_kill_all h = Some h"
proof -
  have "map (\<lambda>c. if running c then terminated c else c) (cli_info h) = cli_info h"
    using assms(3) by (intro map_idI) auto
  moreover have "(\<exists>c \<in> set (cli_info h). running c \<and> state c = CLI_FORKED) = False" using assms(3) by auto
  ultimately show ?thesis
    using kill_all_ok [OF assms(1)] unfolding assms(2) by (simp only: HOL.simp_thms) simp
qed

section \<open>The steps of the harness\<close>

text \<open>
  What the launch loop of the server writes for client \<open>i\<close> after the \<open>fork\<close> (the process
  identifier in the parent) and the \<open>strdup\<close> of the name.
\<close>

definition cli_launch :: "nat \<Rightarrow> int \<Rightarrow> pmix_rank_t \<Rightarrow> string \<Rightarrow> harness \<Rightarrow> harness option" where
  "cli_launch i p r name h =
     do { c \<leftarrow> cli i h;
          Some (set_cli i (c\<lparr>pid := p, rank := r, ns := Ns name, state := CLI_FORKED\<rparr>) h) }"

text \<open>
  A launch of a client that was not launched before, the finalize message of a client (its
  handler requires a matching name and a state before \<open>CLI_TERM\<close>), a process that is reaped,
  \<open>cli_kill_all\<close>, and the abort request of a client.
\<close>

inductive cli_step :: "harness \<Rightarrow> harness \<Rightarrow> bool" where
  launch: "cli i h = Some c \<Longrightarrow> state c = CLI_UNINIT \<Longrightarrow> 0 < p \<Longrightarrow> p \<notin> pid ` set (cli_info h) \<Longrightarrow>
    cli_launch i p r name h = Some h' \<Longrightarrow> cli_step h h'"
| finalize: "cli i h = Some c \<Longrightarrow> ns c = Ns name \<Longrightarrow> state c < CLI_TERM \<Longrightarrow>
    cli_finalize i h = Some h' \<Longrightarrow> cli_step h h'"
| reaped: "0 < p \<Longrightarrow> reap p gone h = Some h' \<Longrightarrow> cli_step h h'"
| kill: "cli_kill_all h = Some h' \<Longrightarrow> cli_step h h'"
| abort: "cli_step h (h\<lparr>test_abort := True\<rparr>)"

inductive_cases cli_stepE [consumes 1, case_names launch finalize reaped kill abort]:
  "cli_step h h'"

lemma table_ok_map:
  assumes "table_ok h" "\<And>c. c \<in> set (cli_info h) \<Longrightarrow> client_ok (f c) \<and> (running (f c) \<longrightarrow> f c = c)"
    "cli_info h' = map f (cli_info h)"
  shows "table_ok h'"
proof -
  have keep: "pid (f c) = pid c" if "c \<in> set (cli_info h)" "running (f c)" for c
    using assms(2) [OF that(1)] that(2) by simp
  have "map pid (filter running (map f cs)) = map pid (filter (\<lambda>c. running (f c)) cs)"
    if "set cs \<subseteq> set (cli_info h)" for cs
    using that keep by (induction cs) auto
  then have "map pid (filter running (cli_info h')) = map pid (filter (\<lambda>c. running (f c)) (cli_info h))"
    using assms(3) by simp
  also have "filter (\<lambda>c. running (f c)) (cli_info h) = filter (\<lambda>c. running (f c)) (filter running (cli_info h))"
  proof -
    have "running c" if "c \<in> set (cli_info h)" "running (f c)" for c
      using assms(2) [OF that(1)] that(2) by metis
    then show ?thesis by (auto intro!: filter_cong)
  qed
  finally have "distinct (map pid (filter running (cli_info h')))"
    using assms(1) distinct_map_filter [of pid "filter running (cli_info h)"]
    by (simp add: table_ok_def del: filter_filter)
  then show ?thesis using assms by (auto simp: table_ok_def list_all_iff)
qed

lemma terminated_not_running: "running c \<Longrightarrow> \<not> running (terminated c)"
  using ended_terminated running_simps by blast

lemma table_ok_reaped:
  assumes "table_ok h" "0 < p" "cli_info h' = map (\<lambda>c. if gone \<and> pid c = p then terminated c else c) (cli_info h)"
  shows "table_ok h'"
  using assms running_pid client_ok_terminated terminated_not_running
  by (intro table_ok_map [OF assms(1) _ assms(3)]) (auto simp: table_ok_def list_all_iff)

lemma table_ok_killed:
  assumes "table_ok h" "cli_info h' = map (\<lambda>c. if running c then terminated c else c) (cli_info h)"
  shows "table_ok h'"
  using assms client_ok_terminated terminated_not_running
  by (intro table_ok_map [OF assms(1) _ assms(2)]) (auto simp: table_ok_def list_all_iff)

lemma finalize_ok:
  assumes "table_ok h" "cli i h = Some c" "ns c = Ns name"
  shows "cli_finalize i h = Some (h\<lparr>cli_info := (cli_info h)[i := c\<lparr>state := CLI_FIN\<rparr>],
    test_abort := test_abort h \<or> state c = CLI_FIN\<rparr>)"
proof -
  have "client_ok c" using assms cli_SomeD [OF assms(2)] by (auto simp: table_ok_def list_all_length)
  then have "next_state c = cli_order" "state c = CLI_FORKED \<or> state c = CLI_FIN"
    using assms(3) by (auto simp: client_ok_def idle_def running_def ended_def)
  then show ?thesis
    using assms(2) by (auto simp: cli_finalize_def expected_order set_cli_def Let_def)
qed

lemma table_ok_update:
  assumes "table_ok h" "i < length (cli_info h)" "client_ok c"
    "running c \<Longrightarrow> running (cli_info h ! i) \<and> pid c = pid (cli_info h ! i) \<or> pid c \<notin> pid ` set (cli_info h)"
    "cli_info h' = (cli_info h)[i := c]"
  shows "table_ok h'"
proof -
  let ?cs = "cli_info h"
  have s: "?cs = take i ?cs @ ?cs ! i # drop (Suc i) ?cs" "?cs[i := c] = take i ?cs @ c # drop (Suc i) ?cs"
    using assms(2) by (simp_all add: id_take_nth_drop upd_conv_take_nth_drop)
  have "distinct (map pid (filter running (take i ?cs @ ?cs ! i # drop (Suc i) ?cs)))"
    using assms(1) s(1) by (simp add: table_ok_def)
  moreover have "pid ` set ?cs = pid ` set (take i ?cs) \<union> {pid (?cs ! i)} \<union> pid ` set (drop (Suc i) ?cs)"
    using s(1) by (metis Un_insert_right image_Un image_insert list.simps(15) set_append sup_bot.right_neutral Un_insert_left)
  ultimately have "distinct (map pid (filter running (take i ?cs @ c # drop (Suc i) ?cs)))"
    using assms(4) by (fastforce split: if_splits)
  moreover have "list_all client_ok (?cs[i := c])"
    using assms(1,3) set_update_subset_insert [of ?cs i c] by (auto simp: table_ok_def list_all_iff)
  ultimately show ?thesis using assms(5) s(2) by (simp add: table_ok_def)
qed

lemma table_ok_init: "table_ok (cli_init n h)"
  by (auto simp: table_ok_def cli_init_def client_ok_def idle_def running_def list_all_iff)


lemma step_table_ok:
  assumes "cli_step h h'" "table_ok h"
  shows "table_ok h'"
  using assms(1)
proof (cases rule: cli_stepE)
  case (launch i c p r name)
  then have i: "i < length (cli_info h)" "cli_info h ! i = c" using cli_SomeD by auto
  then have "client_ok c" using assms(2) by (auto simp: table_ok_def list_all_length)
  then have "client_ok (c\<lparr>pid := p, rank := r, ns := Ns name, state := CLI_FORKED\<rparr>)"
    using launch by (auto simp: client_ok_def running_def)
  then show ?thesis
    using launch i assms(2) by (intro table_ok_update [of h i _ h']) (auto simp: cli_launch_def set_cli_def)
next
  case (finalize i c name)
  then have i: "i < length (cli_info h)" "cli_info h ! i = c" using cli_SomeD by auto
  then have "client_ok c" using assms(2) by (auto simp: table_ok_def list_all_length)
  moreover have "running c" using \<open>client_ok c\<close> finalize by (auto simp: client_ok_def idle_def ended_def)
  ultimately have "client_ok (c\<lparr>state := CLI_FIN\<rparr>)" "running (c\<lparr>state := CLI_FIN\<rparr>)"
    by (auto simp: client_ok_def running_def)
  then show ?thesis
    using finalize_ok [OF assms(2)] finalize i \<open>running c\<close> assms(2)
    by (intro table_ok_update [of h i "c\<lparr>state := CLI_FIN\<rparr>" h']) auto
next
  case (reaped p gone)
  then show ?thesis using reap_ok [OF assms(2)] by (intro table_ok_reaped [OF assms(2)]) auto
next
  case kill
  then show ?thesis using kill_all_ok [OF assms(2)] by (intro table_ok_killed [OF assms(2)]) auto
next
  case abort
  then show ?thesis using assms(2) by (simp add: table_ok_def)
qed

text \<open>A client only moves forward, and the request to abort is never withdrawn.\<close>

definition forward :: "harness \<Rightarrow> harness \<Rightarrow> bool" where
  "forward h h' \<longleftrightarrow> length (cli_info h') = length (cli_info h) \<and> (test_abort h \<longrightarrow> test_abort h') \<and>
     (\<forall>i < length (cli_info h). state (cli_info h ! i) \<le> state (cli_info h' ! i))"

lemma forward_map:
  "cli_info h' = map f (cli_info h) \<Longrightarrow> (test_abort h \<longrightarrow> test_abort h') \<Longrightarrow>
    (\<And>c. c \<in> set (cli_info h) \<Longrightarrow> state c \<le> state (f c)) \<Longrightarrow> forward h h'"
  by (auto simp: forward_def)

lemma step_forward:
  assumes "cli_step h h'" "table_ok h"
  shows "forward h h'"
  using assms(1)
proof (cases rule: cli_stepE)
  case (launch i c p r name)
  then have "i < length (cli_info h)" "cli_info h ! i = c" using cli_SomeD by auto
  with launch show ?thesis
    by (auto simp: forward_def cli_launch_def set_cli_def nth_list_update less_eq_cli_state_def)
next
  case (finalize i c name)
  then have i: "i < length (cli_info h)" "cli_info h ! i = c" using cli_SomeD by auto
  then have "client_ok c" using assms(2) by (auto simp: table_ok_def list_all_length)
  then have "state c \<le> CLI_FIN"
    using finalize by (auto simp: client_ok_def idle_def running_def ended_def less_eq_cli_state_def)
  with finalize i finalize_ok [OF assms(2)] show ?thesis
    by (auto simp: forward_def nth_list_update)
next
  case (reaped p gone)
  have "state c \<le> CLI_TERM" if "c \<in> set (cli_info h)" for c
    using assms(2) that
    by (auto simp: table_ok_def list_all_iff client_ok_def idle_def running_def ended_def less_eq_cli_state_def)
  with reaped reap_ok [OF assms(2)] show ?thesis
    by (intro forward_map [where f = "\<lambda>c. if gone \<and> pid c = p then terminated c else c"]) auto
next
  case kill
  have "state c \<le> CLI_TERM" if "c \<in> set (cli_info h)" for c
    using assms(2) that
    by (auto simp: table_ok_def list_all_iff client_ok_def idle_def running_def ended_def less_eq_cli_state_def)
  with kill kill_all_ok [OF assms(2)] show ?thesis
    by (intro forward_map [where f = "\<lambda>c. if running c then terminated c else c"]) auto
next
  case abort
  then show ?thesis by (simp add: forward_def)
qed

interpretation client_table: step_relation cli_step table_ok forward
proof unfold_locales
  show "forward s u" if "forward s t" "forward t u" for s t u
    using that by (force simp: forward_def)
qed (auto simp: forward_def step_table_ok dest: step_forward)

lemmas steps_forward_table = client_table.steps_keep

lemma reachable_table_ok: "cli_step\<^sup>*\<^sup>* (cli_init n h0) h \<Longrightarrow> table_ok h"
  using steps_forward_table table_ok_init by blast

section \<open>Reaping everybody\<close>

lemma reap_all_ok:
  "table_ok h \<Longrightarrow> (\<And>p g. (p, g) \<in> set ps \<Longrightarrow> 0 < p) \<Longrightarrow>
    reap_all ps h = Some (h\<lparr>
      cli_info := map (\<lambda>c. if (pid c, True) \<in> set ps then terminated c else c) (cli_info h),
      test_abort := test_abort h \<or>
        (\<exists>c \<in> set (cli_info h). (pid c, True) \<in> set ps \<and> state c = CLI_FORKED)\<rparr>)"
proof (induction ps arbitrary: h)
  case Nil
  then show ?case by simp
next
  case (Cons q ps)
  obtain p g where q: "q = (p, g)" by (cases q)
  then have p: "0 < p" and ps: "\<And>p g. (p, g) \<in> set ps \<Longrightarrow> 0 < p" using Cons.prems(2) by auto
  let ?f = "\<lambda>c. if g \<and> pid c = p then terminated c else c"
  let ?h = "h\<lparr>cli_info := map ?f (cli_info h),
    test_abort := test_abort h \<or> (g \<and> (\<exists>c \<in> set (cli_info h). pid c = p \<and> state c = CLI_FORKED))\<rparr>"
  have r: "reap p g h = Some ?h" using reap_ok [OF Cons.prems(1) p] .
  have "table_ok ?h" by (rule table_ok_reaped [OF Cons.prems(1) p, where gone = g]) simp
  note IH = Cons.IH [OF this ps]
  have no: "(- 1, b) \<notin> set ps" for b using ps by fastforce
  have "map (\<lambda>c. if (pid c, True) \<in> set ps then terminated c else c) (map ?f (cli_info h)) =
      map (\<lambda>c. if (pid c, True) \<in> set (q # ps) then terminated c else c) (cli_info h)"
    using no by (auto simp: q)
  moreover have "(\<exists>c \<in> set (map ?f (cli_info h)). (pid c, True) \<in> set ps \<and> state c = CLI_FORKED) \<or>
      (g \<and> (\<exists>c \<in> set (cli_info h). pid c = p \<and> state c = CLI_FORKED)) \<longleftrightarrow>
      (\<exists>c \<in> set (cli_info h). (pid c, True) \<in> set (q # ps) \<and> state c = CLI_FORKED)"
    using no by (auto simp: q split: if_splits)
  ultimately show ?case
    unfolding q reap_all.simps r using IH by (simp add: q disj_commute disj_left_commute disj_assoc)
qed

section \<open>Properties\<close>

definition sample_clients :: harness where
  "sample_clients =
     \<lparr>cli_info =
       [\<lparr>modex = [], pid = 101, sd = - 1, ev = None, state = CLI_FIN, next_state = cli_order, rank = 0, ns = Ns ''smoke-0''\<rparr>,
        \<lparr>modex = [], pid = 102, sd = - 1, ev = None, state = CLI_FORKED, next_state = cli_order, rank = 1, ns = Ns ''smoke-0''\<rparr>],
      test_abort = False, closed_sds = [], freed_evs = [], killed = []\<rparr>"

lemma sample_clients_ok: "table_ok sample_clients"
  by (simp add: table_ok_def sample_clients_def client_ok_def running_def)

text \<open>
  C15: from \<open>cli_init\<close> on, whatever is launched, finalized, reaped, killed or aborted in any
  order: every client is unlaunched, running or ended (the stages \<open>CLI_CONNECTED\<close> and
  \<open>CLI_DISCONN\<close> are never reached), its name is freed exactly when it ends, live process
  identifiers are different, and none of the operations faults: no name is freed twice and
  the recursion of \<open>cli_cleanup\<close> ends, for every client.
\<close>

theorem client_table_safe:
  assumes "cli_step\<^sup>*\<^sup>* (cli_init n h0) h"
  shows "table_ok h \<and> (\<forall>i < length (cli_info h). \<exists>h'. cli_cleanup i h = Some h') \<and>
    (0 < p \<longrightarrow> (\<exists>h'. reap p gone h = Some h')) \<and> (\<exists>h'. cli_kill_all h = Some h') \<and> length (cli_info h) = n"
proof (intro conjI allI impI)
  show t: "table_ok h" by (rule reachable_table_ok [OF assms])
  show "\<exists>h'. cli_cleanup i h = Some h'" if "i < length (cli_info h)" for i
  proof -
    have c: "cli i h = Some (cli_info h ! i)" "client_ok (cli_info h ! i)"
      using that t by (auto simp: cli_def table_ok_def list_all_length)
    then show ?thesis
      using cleanup_running [OF c] cleanup_stuck [OF c(1)] by (auto simp: client_ok_def idle_def ended_def)
  qed
  show "\<exists>h'. reap p gone h = Some h'" if "0 < p" using reap_ok [OF t that] by blast
  show "\<exists>h'. cli_kill_all h = Some h'" using kill_all_ok [OF t] by blast
  show "length (cli_info h) = n"
    using steps_forward_table [OF assms table_ok_init] by (simp add: forward_def cli_init_def)
qed

theorem client_table_safe_witness:
  "\<exists>h h'. cli_launch 0 101 3 ''smoke-0'' (cli_init 1 sample_clients) = Some h \<and>
    cli_cleanup 0 h = Some h' \<and> table_ok h"
proof -
  let ?h0 = "cli_init 1 sample_clients"
  obtain h where h: "cli_launch 0 101 3 ''smoke-0'' ?h0 = Some h" "length (cli_info h) = 1"
    by (auto simp: cli_launch_def cli_init_def cli_def set_cli_def)
  have "cli_step ?h0 h"
    by (rule cli_step.launch [OF _ _ _ _ h(1)]) (auto simp: cli_init_def cli_def)
  then have "cli_step\<^sup>*\<^sup>* ?h0 h" by blast
  from client_table_safe [OF this] h show ?thesis by auto
qed



text \<open>
  C28: \<open>cli_wait_all\<close> when every client was launched, some still run, and the processes of all
  running ones are reported as gone in one round: it returns (or exits when \<open>waitpid\<close> fails)
  with every client ended, and it requests an abort exactly when one of them ended without
  having finalized.
\<close>

theorem cli_wait_all_reaps:
  assumes "table_ok h" "\<not> test_abort h" "0 \<le> timeout"
    "\<forall>c \<in> set (cli_info h). \<not> idle c" "\<exists>c \<in> set (cli_info h). running c"
    "\<forall>(p, g) \<in> set ps. 0 < p" "\<forall>c \<in> set (cli_info h). running c \<longrightarrow> (pid c, True) \<in> set ps"
  shows "\<exists>h'. cli_wait_all timeout ((ps, answer, now) # rs) h =
      Some (if answer = Wait_failed then Exited h' else Done h') \<and>
    list_all ended (cli_info h') \<and> length (cli_info h') = length (cli_info h) \<and>
    (test_abort h' \<longleftrightarrow> (\<exists>c \<in> set (cli_info h). running c \<and> state c \<noteq> CLI_FIN))"
proof -
  let ?f = "\<lambda>c. if (pid c, True) \<in> set ps then terminated c else c"
  let ?h = "h\<lparr>cli_info := map ?f (cli_info h), test_abort := test_abort h \<or>
    (\<exists>c \<in> set (cli_info h). (pid c, True) \<in> set ps \<and> state c = CLI_FORKED)\<rparr>"
  have ok: "client_ok c" if "c \<in> set (cli_info h)" for c
    using assms(1) that by (auto simp: table_ok_def list_all_iff)
  have r: "reap_all ps h = Some ?h" using assms(1,6) by (intro reap_all_ok) auto
  have e: "ended (?f c)" if "c \<in> set (cli_info h)" for c
    using ok [OF that] assms(4,6,7) that running_pid [OF ok [OF that]] by (auto simp: client_ok_def)
  have t: "\<not> test_terminated h"
    using assms(2,5) by (fastforce simp: test_terminated_def running_def order_simps)
  have e': "ended c" if "c \<in> set (cli_info ?h)" for c
  proof -
    from that obtain d where "d \<in> set (cli_info h)" "c = ?f d" by auto
    then show ?thesis by (simp only: e)
  qed
  then have "test_terminated ?h" by (auto simp: test_terminated_def ended_def)
  then have "wait_rounds timeout now rs ?h = Some (Done ?h)" by (subst wait_rounds.simps) simp
  then have "cli_wait_all timeout ((ps, answer, now) # rs) h =
      Some (if answer = Wait_failed then Exited ?h else Done ?h)"
    using t r assms(3) by (cases answer) (simp_all add: cli_wait_all_def wait_rounds.simps [of timeout 0])
  moreover have "test_abort ?h \<longleftrightarrow> (\<exists>c \<in> set (cli_info h). running c \<and> state c \<noteq> CLI_FIN)"
    using assms(2,6,7) running_pid ok by (fastforce simp: running_def)
  moreover have "list_all ended (cli_info ?h)" using e' by (simp only: list_all_iff) blast
  ultimately show ?thesis by (intro exI [of _ ?h] conjI) simp_all
qed

theorem cli_wait_all_reaps_witness:
  "\<exists>h'. cli_wait_all 0 [([(102, True), (101, True)], No_child, 7)] sample_clients = Some (Done h') \<and>
    list_all ended (cli_info h') \<and> test_abort h'"
proof -
  have c: "\<exists>c \<in> set (cli_info sample_clients). running c" "\<not> test_abort sample_clients"
    "\<forall>c \<in> set (cli_info sample_clients). \<not> idle c"
    "\<forall>c \<in> set (cli_info sample_clients). running c \<longrightarrow> (pid c, True) \<in> set [(102, True), (101, True)]"
    "\<exists>c \<in> set (cli_info sample_clients). running c \<and> state c \<noteq> CLI_FIN"
    by (simp_all add: sample_clients_def running_def idle_def)
  have "(0 :: int) \<le> 0" "\<forall>(p, g) \<in> set [(102, True), (101, True)]. (0 :: int) < p" by simp_all
  from cli_wait_all_reaps [OF sample_clients_ok c(2) this(1) c(3,1) this(2) c(4), of No_child 7 "[]"] c(5)
  show ?thesis by auto
qed

text \<open>
  \<open>cli_kill_all\<close> sends SIGKILL to exactly the running clients, in the order of the table,
  and leaves none running; clients that were never launched or have ended are left as they
  are; a second call kills nobody.
\<close>

lemma cli_kill_all_spec:
  assumes "table_ok h"
  shows "\<exists>h'. cli_kill_all h = Some h' \<and> killed h' = killed h @ map pid (filter running (cli_info h)) \<and>
    list_all (\<lambda>c. idle c \<or> ended c) (cli_info h') \<and>
    (\<forall>i < length (cli_info h). \<not> running (cli_info h ! i) \<longrightarrow> cli_info h' ! i = cli_info h ! i) \<and>
    cli_kill_all h' = Some h'"
proof -
  let ?h = "h\<lparr>cli_info := map (\<lambda>c. if running c then terminated c else c) (cli_info h),
    test_abort := test_abort h \<or> (\<exists>c \<in> set (cli_info h). running c \<and> state c = CLI_FORKED),
    killed := killed h @ map pid (filter running (cli_info h))\<rparr>"
  have k: "cli_kill_all h = Some ?h" by (rule kill_all_ok [OF assms])
  have o: "list_all (\<lambda>c. idle c \<or> ended c) (cli_info ?h)"
    using assms by (auto simp: table_ok_def list_all_iff client_ok_def)
  then have n: "filter running (cli_info ?h) = []" "\<forall>c \<in> set (cli_info ?h). \<not> running c"
    using running_simps by (auto simp: list_all_iff filter_empty_conv)
  have "table_ok ?h" by (rule table_ok_killed [OF assms]) simp
  then have "cli_kill_all ?h = Some ?h" using n by (rule kill_all_nobody)
  with k o show ?thesis by (intro exI [of _ ?h]) auto
qed

text \<open>
  With the order of stages \<open>cli_init\<close> installs, a connection is never accepted and a
  disconnection is never in order: both request an abort of the test, at every stage.
\<close>

lemma connection_stages_unused:
  assumes "cli i h = Some c" "next_state c = cli_order" "state c \<noteq> CLI_UNDEF"
  shows "cli_connect i fd e h = Some (h\<lparr>test_abort := True\<rparr>) \<and>
    (\<exists>h'. cli_disconnect i h = Some h' \<and> test_abort h')"
proof -
  obtain s where s: "expected c = Some s" "s \<noteq> CLI_CONNECTED" "s \<noteq> CLI_DISCONN"
    using assms(2,3) by (cases "state c") (simp_all add: expected_order)
  have "test_abort (set_cli i c' h') = test_abort h'" for c' h' by (simp add: set_cli_def)
  with s assms(1) show ?thesis
    by (cases "ev c") (simp_all add: cli_connect_def cli_disconnect_def Let_def)
qed

end
