(* ===== verification/Callbacks.thy ===== *)
theory Callbacks
  imports UnitList CliStages Argv
begin

text \<open>
  The server module of src/unit/server_callbacks.c: the functions the PMIx server library
  calls for requests of the clients. The published data is kept on a pointer list (the list
  0 of a heap of UnitList) of objects whose payload is found through their address. The value
  type \<open>'v\<close> and the library's \<open>pmix_value_xfer\<close>, the parameter \<open>xfer\<close>, are not looked into.
  A callback function that may be NULL is a flag; the result tells whether it was called.
\<close>

section \<open>Published data\<close>

record 'v pmix_info =
  info_key :: string
  info_value :: 'v

text \<open>The payload of a \<open>pmix_test_info_t\<close>.\<close>

record 'v pmix_test_info =
  data_key :: string
  data_value :: 'v
  namespace_published :: string
  rank_published :: int

record 'v pmix_pdata =
  pd_nspace :: string
  pd_rank :: pmix_rank_t
  pd_key :: string
  pd_value :: 'v

record 'v server =
  hp :: heap
  payload :: "ptr \<Rightarrow> 'v pmix_test_info"
  next_item :: nat                        \<comment> \<open>the items from this one on are not allocated\<close>
  have_list :: bool                       \<comment> \<open>\<open>NULL != pmix_test_published_list\<close>\<close>
  released :: "ptr list"                  \<comment> \<open>the items whose destructor ran, in order\<close>
  clients :: harness
  finalized_count :: int
  numconnect :: int
  spawn_wait :: bool

definition published_list :: nat where
  "published_list = 0"

text \<open>The search loop of \<open>publish_fn\<close> and \<open>lookup_fn\<close>: the first item of the list with the key.\<close>

definition find_key :: "string \<Rightarrow> 'v server \<Rightarrow> ptr option option" where
  "find_key k s =
     do { ps \<leftarrow> UNIT_LIST_FOREACH (hp s) published_list;
          Some (find (\<lambda>p. data_key (payload s p) = k) ps) }"

fun publish_loop ::
  "('v \<Rightarrow> 'v) \<Rightarrow> string \<times> int \<Rightarrow> proc \<Rightarrow> 'v pmix_info list \<Rightarrow> 'v server \<Rightarrow> 'v server option" where
  "publish_loop xfer here proc [] s = Some s"
| "publish_loop xfer here proc (x # xs) s =
     do { found \<leftarrow> find_key (info_key x) s;
          s \<leftarrow> (case found of
              Some p \<Rightarrow> Some s
            | None \<Rightarrow> do {
                let item = Item (next_item s);
                h \<leftarrow> unit_list_append here published_list item (unit_list_item_construct item (hp s));
                Some (s\<lparr>hp := h, next_item := next_item s + 1,
                  payload := (payload s)(item := \<lparr>data_key = info_key x, data_value = xfer (info_value x),
                    namespace_published = nspace proc, rank_published = sint (prank proc)\<rparr>)\<rparr>) });
          publish_loop xfer here proc xs s }"

definition publish_fn ::
  "('v \<Rightarrow> 'v) \<Rightarrow> string \<times> int \<Rightarrow> proc \<Rightarrow> 'v pmix_info list \<Rightarrow> bool \<Rightarrow> 'v server \<Rightarrow>
    (pmix_status \<times> bool \<times> 'v server) option" where
  "publish_fn xfer here proc info cbfunc s =
     do { let s = (if \<not> have_list s
            then s\<lparr>have_list := True, hp := unit_list_construct published_list (hp s)\<rparr> else s);
          s \<leftarrow> publish_loop xfer here proc info s;
          Some (PMIX_SUCCESS, cbfunc, s) }"

text \<open>One entry of the answer; it is zeroed before the copies, so a short string stays terminated.\<close>

definition fill_pdata :: "nat \<Rightarrow> nat \<Rightarrow> ('v \<Rightarrow> 'v) \<Rightarrow> string \<Rightarrow> 'v pmix_test_info \<Rightarrow> 'v pmix_pdata" where
  "fill_pdata nslen keylen xfer k t =
     \<lparr>pd_nspace = take nslen (namespace_published t), pd_rank = word_of_int (rank_published t),
      pd_key = take keylen k, pd_value = xfer (data_value t)\<rparr>"

fun lookup_loop ::
  "nat \<Rightarrow> nat \<Rightarrow> ('v \<Rightarrow> 'v) \<Rightarrow> string list \<Rightarrow> 'v server \<Rightarrow> 'v pmix_pdata option list option" where
  "lookup_loop nslen keylen xfer [] s = Some []"
| "lookup_loop nslen keylen xfer (k # ks) s =
     do { found \<leftarrow> find_key k s;
          rest \<leftarrow> lookup_loop nslen keylen xfer ks s;
          Some (map_option (\<lambda>p. fill_pdata nslen keylen xfer k (payload s p)) found # rest) }"

text \<open>The answer is given to the callback only when every key was found (and there is one).\<close>

definition lookup_fn ::
  "nat \<Rightarrow> nat \<Rightarrow> ('v \<Rightarrow> 'v) \<Rightarrow> argv \<Rightarrow> bool \<Rightarrow> 'v server \<Rightarrow> (pmix_status \<times> 'v pmix_pdata list option) option" where
  "lookup_fn nslen keylen xfer keys cbfunc s =
     (if \<not> have_list s then Some (PMIX_ERR_NOT_FOUND, None)
      else do {
        pdata \<leftarrow> lookup_loop nslen keylen xfer (strings keys) s;
        let ret = length (filter (\<lambda>d. d \<noteq> None) pdata);
        if ret \<noteq> length (strings keys) then Some (PMIX_ERR_NOT_FOUND, None)
        else Some (PMIX_SUCCESS, if cbfunc then Some (map the pdata) else None) })"

text \<open>\<open>unit_list_remove_item\<close> and \<open>PMIX_RELEASE\<close>: the destructor's assertions must hold.\<close>

definition drop_item :: "ptr \<Rightarrow> 'v server \<Rightarrow> 'v server option" where
  "drop_item p s =
     do { (_, h) \<leftarrow> unit_list_remove_item published_list p (hp s);
          unit_list_item_destruct p h;
          Some (s\<lparr>hp := h, released := released s @ [p]\<rparr>) }"

definition unpublish_body :: "argv \<Rightarrow> ptr \<Rightarrow> 'v server \<Rightarrow> 'v server option" where
  "unpublish_body keys p s =
     (case keys of
        None \<Rightarrow> drop_item p s
      | Some ks \<Rightarrow> if data_key (payload s p) \<in> set ks then drop_item p s else Some s)"

definition unpublish_fn :: "argv \<Rightarrow> bool \<Rightarrow> 'v server \<Rightarrow> (pmix_status \<times> bool \<times> 'v server) option" where
  "unpublish_fn keys cbfunc s =
     (if \<not> have_list s then Some (PMIX_ERR_NOT_FOUND, False, s)
      else do {
        s \<leftarrow> UNIT_LIST_FOREACH_SAFE hp (unpublish_body keys) published_list s;
        Some (PMIX_SUCCESS, cbfunc, s) })"

section \<open>Clients\<close>

text \<open>
  The search loop of \<open>finalized\<close>; comparing with a name that is NULL or freed is undefined.
\<close>

fun find_client :: "proc \<Rightarrow> nat \<Rightarrow> cli_info_t list \<Rightarrow> nat option option" where
  "find_client proc i [] = Some None"
| "find_client proc i (c # cs) =
     (if prank proc = rank c
      then (case ns c of
          Ns name \<Rightarrow> if nspace proc = name then Some (Some i) else find_client proc (i + 1) cs
        | _ \<Rightarrow> None)
      else find_client proc (i + 1) cs)"

text \<open>\<open>UNIT_LIST_RELEASE\<close> on the published list; the macro resets the pointer to NULL.\<close>

definition release_list :: "'v server \<Rightarrow> 'v server option" where
  "release_list s =
     do { (ps, h) \<leftarrow> release_items published_list (hp s);
          Some (s\<lparr>hp := unit_list_destruct published_list h, released := released s @ ps, have_list := False\<rparr>) }"

definition finalized :: "proc \<Rightarrow> bool \<Rightarrow> 'v server \<Rightarrow> (pmix_status \<times> bool \<times> 'v server) option" where
  "finalized proc cbfunc s =
     do { found \<leftarrow> find_client proc 0 (cli_info (clients s));
          (case found of
             None \<Rightarrow> Some (PMIX_SUCCESS, False, s)
           | Some i \<Rightarrow>
               if CLI_TERM \<le> state (cli_info (clients s) ! i) then Some (PMIX_SUCCESS, False, s)
               else do {
                 h \<leftarrow> cli_finalize i (clients s);
                 let s = s\<lparr>clients := h, finalized_count := finalized_count s + 1\<rparr>;
                 s \<leftarrow> (if finalized_count s = int (length (cli_info (clients s))) \<and> have_list s
                      then release_list s else Some s);
                 Some (PMIX_SUCCESS, cbfunc, s) }) }"

definition connected :: "bool \<Rightarrow> 'v server \<Rightarrow> pmix_status \<times> bool \<times> 'v server" where
  "connected cbfunc s = (PMIX_SUCCESS, cbfunc, s)"

definition abort_fn :: "bool \<Rightarrow> 'v server \<Rightarrow> pmix_status \<times> bool \<times> 'v server" where
  "abort_fn cbfunc s = (PMIX_SUCCESS, cbfunc, s\<lparr>clients := (clients s)\<lparr>test_abort := True\<rparr>\<rparr>)"

definition connect_fn :: "bool \<Rightarrow> 'v server \<Rightarrow> pmix_status \<times> bool \<times> 'v server" where
  "connect_fn cbfunc s = (PMIX_SUCCESS, cbfunc, s\<lparr>numconnect := numconnect s + 1\<rparr>)"

definition disconnect_fn :: "bool \<Rightarrow> 'v server \<Rightarrow> pmix_status \<times> bool \<times> 'v server" where
  "disconnect_fn cbfunc s = (PMIX_SUCCESS, cbfunc, s)"

definition regevents_fn :: "bool \<Rightarrow> 'v server \<Rightarrow> pmix_status \<times> bool \<times> 'v server" where
  "regevents_fn cbfunc s = (PMIX_SUCCESS, cbfunc, s)"

definition deregevents_fn :: "bool \<Rightarrow> 'v server \<Rightarrow> pmix_status \<times> bool \<times> 'v server" where
  "deregevents_fn cbfunc s = (PMIX_SUCCESS, cbfunc, s)"

text \<open>
  \<open>spawn_fn\<close> registers the namespace "foobar" with the library, which later calls
  \<open>release_cb\<close>; \<open>created\<close> tells whether \<open>pthread_create\<close> returned a value that is not
  negative. The result of the thread is the namespace it passes to the caller's callback.
\<close>

definition spawn_fn :: "allocs \<Rightarrow> 'v server \<Rightarrow> (pmix_status \<times> 'v server \<times> allocs) option" where
  "spawn_fn ms s =
     (let (ok, ms) = next_alloc ms in
      if ok then Some (PMIX_SUCCESS, s\<lparr>spawn_wait := True\<rparr>, ms) else None)"

definition release_cb :: "bool \<Rightarrow> bool \<Rightarrow> 'v server \<Rightarrow> (pmix_status \<times> string) option \<times> 'v server" where
  "release_cb created cbfunc s =
     (if \<not> created then (None, s\<lparr>spawn_wait := False\<rparr>)
      else (if cbfunc then Some (PMIX_SUCCESS, ''foobar'') else None, s\<lparr>spawn_wait := False\<rparr>))"

section \<open>The abstract store\<close>

text \<open>
  What the clients are promised: entries in the order of their publication, at most one per
  key. The first publication of a key stays; \<open>add_new\<close> publishes a list of entries.
\<close>

definition entry_for :: "('e \<Rightarrow> string) \<Rightarrow> string \<Rightarrow> 'e list \<Rightarrow> 'e option" where
  "entry_for key k es = find (\<lambda>e. key e = k) es"

fun add_new :: "('e \<Rightarrow> string) \<Rightarrow> 'e list \<Rightarrow> 'e list \<Rightarrow> 'e list" where
  "add_new key es [] = es"
| "add_new key es (x # xs) = add_new key (if key x \<in> key ` set es then es else es @ [x]) xs"

lemma entry_for_append: "entry_for key k (xs @ ys) =
    (case entry_for key k xs of Some e \<Rightarrow> Some e | None \<Rightarrow> entry_for key k ys)"
  by (induction xs) (auto simp: entry_for_def)

lemma entry_for_None: "entry_for key k es = None \<longleftrightarrow> k \<notin> key ` set es"
  by (auto simp: entry_for_def find_None_iff)

lemma entry_for_Some: "entry_for key k es = Some e \<Longrightarrow> e \<in> set es \<and> key e = k"
  by (auto simp: entry_for_def find_Some_iff)

lemma entry_for_add_new: "entry_for key k (add_new key es xs) =
    (case entry_for key k es of Some e \<Rightarrow> Some e | None \<Rightarrow> entry_for key k xs)"
proof (induction xs arbitrary: es)
  case Nil
  then show ?case by (simp add: entry_for_def split: option.splits)
next
  case (Cons x xs)
  have x: "entry_for key k [x] = (if key x = k then Some x else None)"
    "entry_for key k (x # xs) = (if key x = k then Some x else entry_for key k xs)"
    by (simp_all add: entry_for_def)
  show ?case
  proof (cases "key x \<in> key ` set es")
    case True
    then have "entry_for key k es \<noteq> None" if "key x = k" using that entry_for_None [of key k es] by simp
    with True show ?thesis using Cons.IH [of es] x by (auto split: option.splits)
  next
    case False
    then have "entry_for key k es = None" if "key x = k" using that entry_for_None [of key k es] by simp
    with False show ?thesis using Cons.IH [of "es @ [x]"] x by (auto simp: entry_for_append split: option.splits)
  qed
qed

lemma distinct_add_new: "distinct (map key es) \<Longrightarrow> distinct (map key (add_new key es xs))"
  by (induction xs arbitrary: es) auto

lemma entry_for_filter: "entry_for key k (filter (\<lambda>e. P (key e)) es) = (if P k then entry_for key k es else None)"
  by (induction es) (auto simp: entry_for_def)

lemma entry_for_map: "map_option f (find (\<lambda>p. key (f p) = k) ps) = entry_for key k (map f ps)"
  by (induction ps) (auto simp: entry_for_def)

section \<open>The interface of a publishing service\<close>

locale publish_service =
  fixes rep :: "'s \<Rightarrow> 'e list \<Rightarrow> bool"
    and key :: "'e \<Rightarrow> string"
    and capacity :: nat
    and entry :: "'x \<Rightarrow> 'e"
    and shown :: "string \<Rightarrow> 'e \<Rightarrow> 'd"
    and publish :: "'x list \<Rightarrow> 's \<Rightarrow> 's option"
    and fetch :: "string list \<Rightarrow> 's \<Rightarrow> 'd list option"
    and retract :: "string list option \<Rightarrow> 's \<Rightarrow> 's option"
  assumes publish_rep: "rep s es \<Longrightarrow> length es + length xs < capacity \<Longrightarrow>
      \<exists>s'. publish xs s = Some s' \<and> rep s' (add_new key es (map entry xs))"
    and fetch_rep: "rep s es \<Longrightarrow> ks \<noteq> [] \<Longrightarrow>
      fetch ks s = those (map (\<lambda>k. map_option (shown k) (entry_for key k es)) ks)"
    and retract_rep: "rep s es \<Longrightarrow>
      \<exists>s'. retract sel s = Some s' \<and> rep s' (filter (\<lambda>e. \<not> (case sel of None \<Rightarrow> True | Some js \<Rightarrow> key e \<in> set js)) es)"
begin

lemma fetch_one: "rep s es \<Longrightarrow> fetch [k] s = (case entry_for key k es of None \<Rightarrow> None | Some e \<Rightarrow> Some [shown k e])"
  using fetch_rep [of s es "[k]"] by (auto split: option.splits)

text \<open>The first publication of a key is the one that is found, until it is retracted.\<close>

lemma first_publication_stays:
  assumes "rep s es" "length es + length xs < capacity"
    "length (add_new key es (map entry xs)) + length ys < capacity"
    "entry_for key k es = None" "entry_for key k (map entry xs) = Some e"
  shows "\<exists>s1 s2. publish xs s = Some s1 \<and> publish ys s1 = Some s2 \<and>
    fetch [k] s1 = Some [shown k e] \<and> fetch [k] s2 = Some [shown k e]"
proof -
  obtain s1 where s1: "publish xs s = Some s1" "rep s1 (add_new key es (map entry xs))"
    using publish_rep [OF assms(1,2)] by blast
  obtain s2 where s2: "publish ys s1 = Some s2"
      "rep s2 (add_new key (add_new key es (map entry xs)) (map entry ys))"
    using publish_rep [OF s1(2) assms(3)] by blast
  have "entry_for key k (add_new key es (map entry xs)) = Some e"
    "entry_for key k (add_new key (add_new key es (map entry xs)) (map entry ys)) = Some e"
    using assms(4,5) by (simp_all add: entry_for_add_new)
  then show ?thesis using s1 s2 fetch_one [OF s1(2)] fetch_one [OF s2(2)] by simp
qed

lemma retracted_gone:
  assumes "rep s es" "k \<in> set ks"
  shows "\<exists>s'. retract (Some ks) s = Some s' \<and> fetch [k] s' = None \<and>
    (\<forall>j. j \<notin> set ks \<longrightarrow> fetch [j] s' = fetch [j] s)"
proof -
  obtain s' where s': "retract (Some ks) s = Some s'" "rep s' (filter (\<lambda>e. key e \<notin> set ks) es)"
    using retract_rep [OF assms(1), of "Some ks"] by auto
  have "entry_for key j (filter (\<lambda>e. key e \<notin> set ks) es) = (if j \<notin> set ks then entry_for key j es else None)" for j
    using entry_for_filter [of key j "\<lambda>k. k \<notin> set ks"] .
  then show ?thesis using s' assms(2) fetch_one [OF s'(2)] fetch_one [OF assms(1)] by auto
qed

lemma all_retracted:
  assumes "rep s es"
  shows "\<exists>s'. retract None s = Some s' \<and> (\<forall>k. fetch [k] s' = None)"
proof -
  obtain s' where "retract None s = Some s'" "rep s' []" using retract_rep [OF assms, of None] by auto
  then show ?thesis using fetch_one [of s' "[]"] by (auto simp: entry_for_def)
qed

end

section \<open>The handlers implement the store\<close>

text \<open>The published entries of a server, in the order of the list.\<close>

definition pub_rep :: "'v server \<Rightarrow> 'v pmix_test_info list \<Rightarrow> bool" where
  "pub_rep s es \<longleftrightarrow>
     (if have_list s
      then \<exists>ps. dll (hp s) published_list ps \<and> map (payload s) ps = es \<and>
        (\<forall>p \<in> set ps. \<exists>n < next_item s. p = Item n)
      else es = []) \<and>
     distinct (map data_key es)"

definition entry_of :: "('v \<Rightarrow> 'v) \<Rightarrow> proc \<Rightarrow> 'v pmix_info \<Rightarrow> 'v pmix_test_info" where
  "entry_of xfer proc x =
     \<lparr>data_key = info_key x, data_value = xfer (info_value x), namespace_published = nspace proc,
      rank_published = sint (prank proc)\<rparr>"

lemma data_key_entry [simp]: "data_key (entry_of xfer proc x) = info_key x"
  by (simp add: entry_of_def)

lemma find_key_dll: "dll (hp s) published_list ps \<Longrightarrow> find_key k s = Some (find (\<lambda>p. data_key (payload s p) = k) ps)"
  by (simp add: find_key_def foreach_dll)

lemma item_construct_same: "same_outside {x} {} h (unit_list_item_construct x h)"
  by (simp add: same_outside_def unit_list_item_construct_def)

text \<open>Appending one new item.\<close>

lemma append_new_item:
  assumes "dll (hp s) published_list ps" "\<forall>p \<in> set ps. \<exists>n < next_item s. p = Item n"
    "length ps + 1 < 2 ^ 63"
  shows "\<exists>h. unit_list_append here published_list (Item (next_item s))
      (unit_list_item_construct (Item (next_item s)) (hp s)) = Some h \<and>
    dll h published_list (ps @ [Item (next_item s)])"
proof -
  let ?i = "Item (next_item s)" and ?h = "unit_list_item_construct (Item (next_item s)) (hp s)"
  have "dll ?h published_list ps"
    using assms(2) by (intro dll_other [OF assms(1) item_construct_same]) auto
  moreover have "off_list ?h ?i" by (simp add: item_construct_off)
  ultimately show ?thesis using append_dll [of ?h published_list ps ?i here] assms(3) by blast
qed

lemma publish_loop_rep:
  "pub_rep s es \<Longrightarrow> have_list s \<Longrightarrow> length es + length xs < 2 ^ 63 \<Longrightarrow>
    \<exists>s'. publish_loop xfer here proc xs s = Some s' \<and> have_list s' \<and> clients s' = clients s \<and>
      pub_rep s' (add_new data_key es (map (entry_of xfer proc) xs))"
proof (induction xs arbitrary: s es)
  case Nil
  then show ?case by simp
next
  case (Cons x xs)
  from Cons.prems obtain ps where ps: "dll (hp s) published_list ps" "map (payload s) ps = es"
      "\<forall>p \<in> set ps. \<exists>n < next_item s. p = Item n" "distinct (map data_key es)"
    unfolding pub_rep_def by auto
  have len: "length ps = length es" using ps(2) by auto
  note fk = find_key_dll [OF ps(1), of "info_key x"]
  have key: "find (\<lambda>p. data_key (payload s p) = info_key x) ps = None \<longleftrightarrow> info_key x \<notin> data_key ` set es"
    using ps(2) by (force simp: find_None_iff)
  show ?case
  proof (cases "info_key x \<in> data_key ` set es")
    case True
    with key obtain p where "find (\<lambda>p. data_key (payload s p) = info_key x) ps = Some p" by fastforce
    with fk True Cons.IH [OF Cons.prems(1,2)] Cons.prems(3) show ?thesis by simp
  next
    case False
    let ?i = "Item (next_item s)"
    obtain h where h: "unit_list_append here published_list ?i (unit_list_item_construct ?i (hp s)) = Some h"
        "dll h published_list (ps @ [?i])"
      using append_new_item [OF ps(1,3), where here = here] Cons.prems(3) len by auto
    let ?s = "s\<lparr>hp := h, next_item := next_item s + 1,
      payload := (payload s)(?i := entry_of xfer proc x)\<rparr>"
    have fresh: "?i \<notin> set ps" using ps(3) by auto
    have "map (payload ?s) (ps @ [?i]) = es @ [entry_of xfer proc x]"
      using ps(2) fresh by auto
    moreover have "\<forall>p \<in> set (ps @ [?i]). \<exists>n < next_item ?s. p = Item n"
      using ps(3) by (auto simp: less_Suc_eq)
    moreover have "distinct (map data_key (es @ [entry_of xfer proc x]))" using ps(4) False by auto
    moreover have "dll (hp ?s) published_list (ps @ [?i])" "have_list ?s" using h(2) Cons.prems(2) by simp_all
    ultimately have "pub_rep ?s (es @ [entry_of xfer proc x])"
      unfolding pub_rep_def by (metis (no_types, lifting))
    from Cons.IH [OF this] have "\<exists>s'. publish_loop xfer here proc xs ?s = Some s' \<and> have_list s' \<and>
        clients s' = clients s \<and>
        pub_rep s' (add_new data_key (es @ [entry_of xfer proc x]) (map (entry_of xfer proc) xs))"
      using Cons.prems(2,3) by simp
    moreover have "find (\<lambda>p. data_key (payload s p) = info_key x) ps = None" using key False by simp
    ultimately show ?thesis
      using fk h(1) False by (simp add: entry_of_def [of xfer proc x, symmetric] Let_def)
  qed
qed

lemma publish_rep:
  assumes "pub_rep s es" "length es + length xs < 2 ^ 63"
  shows "\<exists>s'. publish_fn xfer here proc xs cb s = Some (PMIX_SUCCESS, cb, s') \<and> have_list s' \<and>
    clients s' = clients s \<and> pub_rep s' (add_new data_key es (map (entry_of xfer proc) xs))"
proof (cases "have_list s")
  case True
  then show ?thesis
    using publish_loop_rep [OF assms(1) True assms(2), of xfer here proc] by (auto simp: publish_fn_def)
next
  case False
  let ?s = "s\<lparr>have_list := True, hp := unit_list_construct published_list (hp s)\<rparr>"
  have "pub_rep ?s es" using assms(1) False construct_dll by (auto simp: pub_rep_def)
  then show ?thesis
    using publish_loop_rep [of ?s es xs xfer here proc] assms(2) False by (auto simp: publish_fn_def)
qed

lemma lookup_loop_rep:
  "pub_rep s es \<Longrightarrow> have_list s \<Longrightarrow> lookup_loop nl kl xfer ks s =
    Some (map (\<lambda>k. map_option (fill_pdata nl kl xfer k) (entry_for data_key k es)) ks)"
proof (induction ks)
  case (Cons k ks)
  then obtain ps where "dll (hp s) published_list ps" "map (payload s) ps = es"
    unfolding pub_rep_def by auto
  then have "find_key k s = Some (find (\<lambda>p. data_key (payload s p) = k) ps)"
    "map_option (payload s) (find (\<lambda>p. data_key (payload s p) = k) ps) = entry_for data_key k es"
    using find_key_dll entry_for_map [of "payload s" data_key k ps] by auto
  moreover have "map_option (\<lambda>p. fill_pdata nl kl xfer k (payload s p)) q =
      map_option (fill_pdata nl kl xfer k) (map_option (payload s) q)" for q
    by (simp add: option.map_comp comp_def)
  ultimately show ?case using Cons by simp
qed simp

lemma those_count: "length (filter (\<lambda>d. d \<noteq> None) ds) = length ds \<longleftrightarrow> those ds \<noteq> None"
  "those ds \<noteq> None \<Longrightarrow> those ds = Some (map the ds)"
proof -
  have "(length (filter (\<lambda>d. d \<noteq> None) ds) = length ds \<longleftrightarrow> those ds \<noteq> None) \<and>
      (those ds \<noteq> None \<longrightarrow> those ds = Some (map the ds))"
  proof (induction ds)
    case (Cons d ds)
    have "length (filter (\<lambda>d. d \<noteq> None) ds) \<noteq> Suc (length ds)"
      using length_filter_le [of "\<lambda>d. d \<noteq> None" ds] by linarith
    with Cons show ?case by (cases d) (auto simp del: not_None_eq)
  qed simp
  then show "length (filter (\<lambda>d. d \<noteq> None) ds) = length ds \<longleftrightarrow> those ds \<noteq> None"
    "those ds \<noteq> None \<Longrightarrow> those ds = Some (map the ds)" by blast+
qed

lemma lookup_rep:
  assumes "pub_rep s es" "have_list s"
  shows "lookup_fn nl kl xfer keys cb s =
    (case those (map (\<lambda>k. map_option (fill_pdata nl kl xfer k) (entry_for data_key k es)) (strings keys)) of
       None \<Rightarrow> Some (PMIX_ERR_NOT_FOUND, None)
     | Some ds \<Rightarrow> Some (PMIX_SUCCESS, if cb then Some ds else None))"
  using assms lookup_loop_rep [OF assms, of nl kl xfer "strings keys"]
    those_count [of "map (\<lambda>k. map_option (fill_pdata nl kl xfer k) (entry_for data_key k es)) (strings keys)"]
  by (auto simp: lookup_fn_def Let_def split: option.splits)

section \<open>Retracting\<close>

lemma drop_item_dll:
  assumes "dll (hp s) published_list (as @ x # bs)"
  shows "\<exists>h. drop_item x s = Some (s\<lparr>hp := h, released := released s @ [x]\<rparr>) \<and> dll h published_list (as @ bs)"
proof -
  obtain q h where h: "unit_list_remove_item published_list x (hp s) = Some (q, h)"
      "dll h published_list (as @ bs)" "off_list h x"
    using remove_item_dll [OF assms] by blast
  then have "unit_list_item_destruct x h = Some ()"
    by (simp add: unit_list_item_destruct_def assert_that_def off_list_def)
  with h show ?thesis by (auto simp: drop_item_def)
qed

text \<open>Which entries a call retracts: all of them, or those with one of the keys.\<close>

definition selected :: "argv \<Rightarrow> string \<Rightarrow> bool" where
  "selected keys k \<longleftrightarrow> (case keys of None \<Rightarrow> True | Some ks \<Rightarrow> k \<in> set ks)"

lemma unpublish_sweep:
  fixes s :: "'v server"
  assumes "pub_rep s es" "have_list s"
  shows "\<exists>s'. UNIT_LIST_FOREACH_SAFE hp (unpublish_body keys) published_list s = Some s' \<and>
    have_list s' \<and> clients s' = clients s \<and> pub_rep s' (filter (\<lambda>e. \<not> selected keys (data_key e)) es)"
proof -
  from assms obtain ps where ps: "dll (hp s) published_list ps" "map (payload s) ps = es"
      "\<forall>p \<in> set ps. \<exists>n < next_item s. p = Item n" "distinct (map data_key es)"
    unfolding pub_rep_def by auto
  let ?keep = "\<lambda>p. \<not> selected keys (data_key (payload s p))"
  let ?I = "\<lambda>seen rest (t :: 'v server). dll (hp t) published_list (seen @ rest) \<and> payload t = payload s \<and>
    have_list t \<and> clients t = clients s \<and> next_item t = next_item s"
  have "\<exists>s'. UNIT_LIST_FOREACH_SAFE hp (unpublish_body keys) published_list s = Some s' \<and>
      ?I (filter ?keep ps) [] s'"
  proof (rule foreach_safe_dll [where I = ?I])
    fix seen x rest t
    assume I: "?I seen (x # rest) t"
    then obtain h where "drop_item x t = Some (t\<lparr>hp := h, released := released t @ [x]\<rparr>)"
        "dll h published_list (seen @ rest)"
      using drop_item_dll by blast
    with I show "\<exists>t'. unpublish_body keys x t = Some t' \<and> ?I (if ?keep x then seen @ [x] else seen) rest t'"
      by (auto simp: unpublish_body_def selected_def split: option.splits)
  qed (use ps assms in auto)
  then obtain s' where s': "UNIT_LIST_FOREACH_SAFE hp (unpublish_body keys) published_list s = Some s'"
      "dll (hp s') published_list (filter ?keep ps)" "payload s' = payload s" "have_list s'"
      "clients s' = clients s" "next_item s' = next_item s" by auto
  have "map (payload s') (filter ?keep ps) = filter (\<lambda>e. \<not> selected keys (data_key e)) es"
    using ps(2) s'(3) by (auto simp: filter_map comp_def)
  moreover have "distinct (map data_key (filter (\<lambda>e. \<not> selected keys (data_key e)) es))"
    using ps(4) by (rule distinct_map_filter)
  moreover have "\<forall>p \<in> set (filter ?keep ps). \<exists>n < next_item s'. p = Item n" using ps(3) s'(6) by auto
  ultimately have "pub_rep s' (filter (\<lambda>e. \<not> selected keys (data_key e)) es)"
    using s'(2,4) unfolding pub_rep_def by (metis (no_types, lifting))
  with s' show ?thesis by blast
qed

lemma unpublish_rep:
  assumes "pub_rep s es"
  shows "\<exists>rc cb' s'. unpublish_fn keys cb s = Some (rc, cb', s') \<and> clients s' = clients s \<and>
    pub_rep s' (filter (\<lambda>e. \<not> selected keys (data_key e)) es) \<and>
    (rc = PMIX_SUCCESS \<longleftrightarrow> have_list s) \<and> (cb' \<longleftrightarrow> cb \<and> have_list s)"
proof (cases "have_list s")
  case True
  then show ?thesis
    using unpublish_sweep [OF assms True, of keys] by (auto simp: unpublish_fn_def)
next
  case False
  then show ?thesis using assms by (auto simp: unpublish_fn_def pub_rep_def)
qed

text \<open>The three operations of the interface, for a caller that waits for the callback.\<close>

definition service_publish :: "('v \<Rightarrow> 'v) \<Rightarrow> string \<times> int \<Rightarrow> proc \<Rightarrow> 'v pmix_info list \<Rightarrow> 'v server \<Rightarrow> 'v server option" where
  "service_publish xfer here proc xs s = map_option (\<lambda>(rc, cb, s). s) (publish_fn xfer here proc xs True s)"

definition service_lookup :: "nat \<Rightarrow> nat \<Rightarrow> ('v \<Rightarrow> 'v) \<Rightarrow> string list \<Rightarrow> 'v server \<Rightarrow> 'v pmix_pdata list option" where
  "service_lookup nl kl xfer ks s = (case lookup_fn nl kl xfer (Some ks) True s of Some (rc, r) \<Rightarrow> r | None \<Rightarrow> None)"

definition service_unpublish :: "argv \<Rightarrow> 'v server \<Rightarrow> 'v server option" where
  "service_unpublish keys s = map_option (\<lambda>(rc, cb, s). s) (unpublish_fn keys True s)"

lemma publish_fn_status: "publish_fn xfer here proc xs cb s = Some (rc, cb', s') \<Longrightarrow> rc = PMIX_SUCCESS \<and> cb' = cb"
  by (auto simp: publish_fn_def Let_def split: bind_splits if_splits)

lemma service_publish_iff:
  "service_publish xfer here proc xs s = Some s' \<longleftrightarrow>
    publish_fn xfer here proc xs True s = Some (PMIX_SUCCESS, True, s')"
  by (auto simp: service_publish_def dest: publish_fn_status)

lemma service_lookup_iff:
  "service_lookup nl kl xfer ks s = Some ds \<longleftrightarrow>
    lookup_fn nl kl xfer (Some ks) True s = Some (PMIX_SUCCESS, Some ds)"
  by (auto simp: service_lookup_def lookup_fn_def Let_def split: option.splits bind_splits if_splits)

lemma service_lookup_rep:
  assumes "pub_rep s es" "ks \<noteq> []"
  shows "service_lookup nl kl xfer ks s =
    those (map (\<lambda>k. map_option (fill_pdata nl kl xfer k) (entry_for data_key k es)) ks)"
proof (cases "have_list s")
  case True
  then show ?thesis
    using lookup_rep [OF assms(1) True, of nl kl xfer "Some ks" True]
    by (auto simp: service_lookup_def split: option.splits)
next
  case False
  then have "es = []" using assms(1) by (simp add: pub_rep_def)
  then show ?thesis
    using False assms(2) by (cases ks) (auto simp: service_lookup_def lookup_fn_def entry_for_def)
qed

interpretation published:
  publish_service pub_rep data_key "2 ^ 63" "entry_of xfer proc" "fill_pdata nl kl xfer"
    "service_publish xfer here proc" "service_lookup nl kl xfer" service_unpublish
  for xfer here proc nl kl
proof (unfold_locales, goal_cases)
  case (1 s es xs)
  then show ?case using publish_rep [OF 1, of xfer here proc True] by (auto simp: service_publish_def)
next
  case (2 s es ks)
  then show ?case by (rule service_lookup_rep)
next
  case (3 s es sel)
  then show ?case
    using unpublish_rep [OF 3, of sel True] by (auto simp: service_unpublish_def selected_def)
qed

section \<open>The end of the clients\<close>

lemma find_client_skip:
  "\<forall>c \<in> set cs. rank c \<noteq> prank proc \<Longrightarrow> find_client proc i (cs @ ds) = find_client proc (i + length cs) ds"
  by (induction cs arbitrary: i) auto

lemma release_list_rep:
  assumes "pub_rep s es" "have_list s"
  shows "\<exists>s' ps. release_list s = Some s' \<and> \<not> have_list s' \<and> map (payload s) ps = es \<and>
    released s' = released s @ ps \<and> pub_rep s' [] \<and> clients s' = clients s \<and>
    finalized_count s' = finalized_count s"
proof -
  from assms obtain ps where ps: "dll (hp s) published_list ps" "map (payload s) ps = es"
    unfolding pub_rep_def by auto
  obtain h where "release_items published_list (hp s) = Some (ps, h)"
    using release_items_dll [OF ps(1)] by blast
  then show ?thesis using ps(2) by (auto simp: release_list_def pub_rep_def)
qed

section \<open>Properties\<close>

definition sample_server :: "int server" where
  "sample_server =
     \<lparr>hp = \<lparr>nxt = (\<lambda>p. Null), prv = (\<lambda>p. Null), item_free = (\<lambda>p. 0), refc = (\<lambda>p. 0),
        belongs = (\<lambda>p. None), init_at = (\<lambda>p. ([], 0)), len = (\<lambda>l. 0)\<rparr>,
      payload = (\<lambda>p. \<lparr>data_key = [], data_value = 0, namespace_published = [], rank_published = 0\<rparr>),
      next_item = 5, have_list = False, released = [], clients = sample_clients,
      finalized_count = 1, numconnect = 0, spawn_wait = False\<rparr>"

definition sample_proc :: proc where
  "sample_proc = \<lparr>nspace = ''smoke-0'', prank = 1\<rparr>"

lemma sample_server_rep: "pub_rep sample_server []"
  by (simp add: pub_rep_def sample_server_def)

text \<open>
  C14: \<open>publish_fn\<close> on the pointer list implements the abstract store: whatever was published
  before, each key that is new is added once with the first value given for it, in order, keys
  already there keep their entry, and the callback is called with success. The list is created
  by the first publication.
\<close>

theorem publish_fn_refines:
  assumes "pub_rep s es" "length es + length xs < 2 ^ 63"
  shows "\<exists>s'. publish_fn xfer here proc xs cb s = Some (PMIX_SUCCESS, cb, s') \<and>
    pub_rep s' (add_new data_key es (map (entry_of xfer proc) xs)) \<and> have_list s'"
  using publish_rep [OF assms] by blast

theorem publish_fn_refines_witness:
  "\<exists>s'. publish_fn (\<lambda>v. v) (''cb.c'', 176) sample_proc
      [\<lparr>info_key = ''a'', info_value = 1\<rparr>, \<lparr>info_key = ''a'', info_value = 2\<rparr>] True sample_server =
      Some (PMIX_SUCCESS, True, s') \<and>
    pub_rep s' [\<lparr>data_key = ''a'', data_value = 1, namespace_published = ''smoke-0'', rank_published = 1\<rparr>]"
  using publish_fn_refines [OF sample_server_rep,
      of "[\<lparr>info_key = ''a'', info_value = 1\<rparr>, \<lparr>info_key = ''a'', info_value = 2\<rparr>]"
        "\<lambda>v. v" "(''cb.c'', 176)" sample_proc True]
  by (auto simp: entry_of_def sample_proc_def)

text \<open>
  A value that was published under a new key is what a lookup of the key returns, with
  the publisher's namespace and rank, and it still is after more data has been published,
  under the same key included.
\<close>

lemma publish_then_lookup:
  assumes "pub_rep s es" "length es + 1 + length ys < 2 ^ 63" "entry_for data_key (info_key x) es = None"
  shows "\<exists>s1 s2. publish_fn xfer here proc [x] True s = Some (PMIX_SUCCESS, True, s1) \<and>
    publish_fn xfer here proc ys True s1 = Some (PMIX_SUCCESS, True, s2) \<and>
    (\<forall>t \<in> {s1, s2}. lookup_fn nl kl xfer (Some [info_key x]) True t =
      Some (PMIX_SUCCESS, Some [fill_pdata nl kl xfer (info_key x) (entry_of xfer proc x)]))"
proof -
  have "length (add_new data_key es (map (entry_of xfer proc) [x])) \<le> length es + 1" by simp
  moreover have "entry_for data_key (info_key x) (map (entry_of xfer proc) [x]) = Some (entry_of xfer proc x)"
    by (simp add: entry_for_def)
  ultimately obtain s1 s2 where
    "service_publish xfer here proc [x] s = Some s1" "service_publish xfer here proc ys s1 = Some s2"
    "service_lookup nl kl xfer [info_key x] s1 = Some [fill_pdata nl kl xfer (info_key x) (entry_of xfer proc x)]"
    "service_lookup nl kl xfer [info_key x] s2 = Some [fill_pdata nl kl xfer (info_key x) (entry_of xfer proc x)]"
    using published.first_publication_stays [OF assms(1), of "[x]" xfer proc ys "info_key x"] assms(2,3)
    by fastforce
  then show ?thesis by (auto simp: service_publish_iff service_lookup_iff)
qed

text \<open>
  C33: \<open>unpublish_fn\<close> takes exactly the named keys out (all of them for NULL), whoever published
  them (the code's condition "if data posted by this process" is the constant 1): a lookup of a
  retracted key fails, the lookup of any other key answers as before.
\<close>

theorem unpublish_fn_spec:
  assumes "pub_rep s es" "have_list s"
  shows "\<exists>s'. unpublish_fn keys cb s = Some (PMIX_SUCCESS, cb, s') \<and>
    pub_rep s' (filter (\<lambda>e. \<not> selected keys (data_key e)) es) \<and>
    lookup_fn nl kl xfer (Some [k]) True s' =
      (if selected keys k then Some (PMIX_ERR_NOT_FOUND, None) else lookup_fn nl kl xfer (Some [k]) True s)"
proof -
  obtain s' where s': "UNIT_LIST_FOREACH_SAFE hp (unpublish_body keys) published_list s = Some s'"
      "have_list s'" "pub_rep s' (filter (\<lambda>e. \<not> selected keys (data_key e)) es)"
    using unpublish_sweep [OF assms, of keys] by blast
  have "entry_for data_key k (filter (\<lambda>e. \<not> selected keys (data_key e)) es) =
      (if selected keys k then None else entry_for data_key k es)"
    using entry_for_filter [of data_key k "\<lambda>k. \<not> selected keys k" es] by simp
  then show ?thesis
    using s' assms(2) lookup_rep [OF s'(3,2), of nl kl xfer "Some [k]" True]
      lookup_rep [OF assms, of nl kl xfer "Some [k]" True]
    by (auto simp: unpublish_fn_def split: option.splits)
qed

theorem unpublish_fn_spec_witness:
  "\<exists>s1 s2. publish_fn (\<lambda>v. v) (''cb.c'', 176) sample_proc [\<lparr>info_key = ''a'', info_value = 1\<rparr>] True sample_server =
      Some (PMIX_SUCCESS, True, s1) \<and> unpublish_fn (Some [''b'', ''a'']) False s1 = Some (PMIX_SUCCESS, False, s2) \<and>
    lookup_fn 255 511 (\<lambda>v. v) (Some [''a'']) True s2 = Some (PMIX_ERR_NOT_FOUND, None)"
proof -
  obtain s1 where s1: "publish_fn (\<lambda>v. v) (''cb.c'', 176) sample_proc [\<lparr>info_key = ''a'', info_value = 1\<rparr>] True
      sample_server = Some (PMIX_SUCCESS, True, s1)" "have_list s1"
      "pub_rep s1 (add_new data_key [] (map (entry_of (\<lambda>v. v) sample_proc) [\<lparr>info_key = ''a'', info_value = 1\<rparr>]))"
    using publish_rep [OF sample_server_rep, of "[\<lparr>info_key = ''a'', info_value = 1\<rparr>]" "\<lambda>v. v"
        "(''cb.c'', 176)" sample_proc True] by auto
  from unpublish_fn_spec [OF s1(3,2), of "Some [''b'', ''a'']" False 255 511 "\<lambda>v. v" "''a''"] s1(1)
  show ?thesis by (auto simp: selected_def)
qed

text \<open>
  The finalize message of a running client whose rank no earlier entry of the table has
  moves this client to \<open>CLI_FIN\<close>; when it is the last one, the whole list is released, each
  entry once, and a later lookup finds nothing.
\<close>

lemma finalized_releases_data:
  assumes "cli_info (clients s) = cs @ c # ds" "\<forall>b \<in> set cs. rank b \<noteq> prank proc" "rank c = prank proc"
    "ns c = Ns (nspace proc)" "table_ok (clients s)" "pub_rep s es" "have_list s"
  shows "\<exists>s'. finalized proc cb s = Some (PMIX_SUCCESS, cb, s') \<and>
    cli_info (clients s') = cs @ c\<lparr>state := CLI_FIN\<rparr> # ds \<and> finalized_count s' = finalized_count s + 1 \<and>
    (if finalized_count s + 1 = int (length (cli_info (clients s)))
     then (\<exists>ps. released s' = released s @ ps \<and> map (payload s) ps = es) \<and>
       lookup_fn nl kl xfer keys cb s' = Some (PMIX_ERR_NOT_FOUND, None)
     else pub_rep s' es)"
proof -
  have f: "find_client proc 0 (cli_info (clients s)) = Some (Some (length cs))"
    using find_client_skip [OF assms(2), of 0 "c # ds"] assms(1,3,4) by simp
  have i: "cli_info (clients s) ! length cs = c" "cli (length cs) (clients s) = Some c"
    using assms(1) by (simp_all add: cli_def)
  have "client_ok c" using assms(1,5) by (simp add: table_ok_def)
  then have lt: "\<not> CLI_TERM \<le> state c"
    using assms(4) by (auto simp: client_ok_def idle_def running_def ended_def order_simps)
  obtain h where h: "cli_finalize (length cs) (clients s) = Some h"
      "cli_info h = cs @ c\<lparr>state := CLI_FIN\<rparr> # ds"
    using finalize_ok [OF assms(5) i(2) assms(4)] assms(1) by (auto simp: list_update_append)
  let ?s = "s\<lparr>clients := h, finalized_count := finalized_count s + 1\<rparr>"
  have r: "pub_rep ?s es" "have_list ?s" using assms(6,7) by (simp_all add: pub_rep_def)
  obtain s' ps where "release_list ?s = Some s'" "\<not> have_list s'" "map (payload ?s) ps = es"
      "released s' = released ?s @ ps" "clients s' = clients ?s" "finalized_count s' = finalized_count ?s"
    using release_list_rep [OF r] by blast
  then show ?thesis
    using f i(1) lt h r assms(1) by (auto simp: finalized_def lookup_fn_def Let_def)
qed

text \<open>
  A client with the same rank in an earlier entry of the table whose process has been
  reaped makes the finalize message of any other client of this rank compare the namespace
  with freed memory, since \<open>cli_terminate\<close> frees the name without resetting it.
\<close>

lemma finalized_compares_freed_name:
  assumes "cli_info (clients s) = cs @ c # ds" "\<forall>b \<in> set cs. rank b \<noteq> prank proc" "rank c = prank proc"
    "running c" "next_state c = cli_order" "state c = CLI_FIN"
  shows "\<exists>h. cli_cleanup (length cs) (clients s) = Some h \<and> finalized proc cb (s\<lparr>clients := h\<rparr>) = None"
proof -
  have c: "cli (length cs) (clients s) = Some c" using assms(1) by (simp add: cli_def)
  have "ns c \<noteq> NsFreed" using assms(4) running_simps by blast
  from cleanup_FIN [OF c assms(5,6) this] obtain h where
    h: "cli_cleanup (length cs) (clients s) = Some h" "cli_info h = cs @ terminated c # ds"
    using assms(1) by (simp add: set_cli_def list_update_append)
  have "rank (terminated c) = rank c" "ns (terminated c) = NsFreed"
    using ended_terminated [OF assms(4)] by (simp_all add: ended_def)
  then have "find_client proc 0 (cli_info h) = None"
    using find_client_skip [OF assms(2), of 0 "terminated c # ds"] h(2) assms(3) by simp
  then show ?thesis using h(1) by (auto simp: finalized_def)
qed

end
