(* ===== verification/CString.thy ===== *)
theory CString
  imports Argv
begin

text \<open>
  The functions of the C string library the test programs use on decimal numbers and tokens:
  \<open>strtol\<close> and \<open>atoi\<close> in base 10, \<open>strtok\<close> with one delimiter, and the text of \<open>%d\<close>.
\<close>

section \<open>Numbers\<close>

definition is_space_char :: "char \<Rightarrow> bool" where
  "is_space_char c \<longleftrightarrow> of_char c = (32 :: nat) \<or> (9 \<le> (of_char c :: nat) \<and> (of_char c :: nat) \<le> 13)"

definition is_digit_char :: "char \<Rightarrow> bool" where
  "is_digit_char c \<longleftrightarrow> 48 \<le> (of_char c :: nat) \<and> (of_char c :: nat) \<le> 57"

definition digit_val :: "char \<Rightarrow> int" where
  "digit_val c = int (of_char c) - 48"

fun digits_val :: "int \<Rightarrow> string \<Rightarrow> int" where
  "digits_val v [] = v"
| "digits_val v (c # cs) = (if is_digit_char c then digits_val (v * 10 + digit_val c) cs else v)"

text \<open>The conversion to \<open>long\<close> (64 bits) saturates.\<close>

definition long_max :: int where
  "long_max = 9223372036854775807"

definition clamp_long :: "int \<Rightarrow> int" where
  "clamp_long v = max (- long_max - 1) (min long_max v)"

definition strtol :: "string \<Rightarrow> int" where
  "strtol s =
     (case dropWhile is_space_char s of
        [] \<Rightarrow> 0
      | c # cs \<Rightarrow>
          if c = CHR ''-'' then clamp_long (- digits_val 0 cs)
          else if c = CHR ''+'' then clamp_long (digits_val 0 cs)
          else clamp_long (digits_val 0 (c # cs)))"

definition atoi :: "string \<Rightarrow> int" where
  "atoi s = int32 (strtol s)"

text \<open>\<open>strtoul\<close>: too large values saturate, a minus sign negates in 64 bits.\<close>

definition ulong_max :: int where
  "ulong_max = 18446744073709551615"

definition strtoul :: "string \<Rightarrow> int" where
  "strtoul s =
     (let t = dropWhile is_space_char s;
          minus = (t \<noteq> [] \<and> hd t = CHR ''-'');
          ds = (if t \<noteq> [] \<and> (hd t = CHR ''-'' \<or> hd t = CHR ''+'') then tl t else t);
          v = digits_val 0 ds
      in if v > ulong_max then ulong_max else if minus then (- v) mod (ulong_max + 1) else v)"

text \<open>The text \<open>%d\<close> prints.\<close>

definition digit_char :: "nat \<Rightarrow> char" where
  "digit_char d = char_of (48 + d)"

fun decimal_nat :: "nat \<Rightarrow> string" where
  "decimal_nat n = (if n < 10 then [digit_char n] else decimal_nat (n div 10) @ [digit_char (n mod 10)])"

declare decimal_nat.simps [simp del]

definition decimal :: "int \<Rightarrow> string" where
  "decimal v = (if v < 0 then CHR ''-'' # decimal_nat (nat (- v)) else decimal_nat (nat v))"

lemma digit_char_val: "d < 10 \<Longrightarrow> is_digit_char (digit_char d) \<and> digit_val (digit_char d) = int d"
  by (simp add: is_digit_char_def digit_char_def digit_val_def)

lemma digits_val_append:
  "list_all is_digit_char xs \<Longrightarrow> digits_val v (xs @ ys) = digits_val (digits_val v xs) ys"
  by (induction xs arbitrary: v) auto

lemma decimal_nat_digits: "list_all is_digit_char (decimal_nat n)" "decimal_nat n \<noteq> []"
proof (induction n rule: decimal_nat.induct)
  case (1 n)
  {
    case 1
    then show ?case
      using "1.IH"(1) digit_char_val [of n] digit_char_val [of "n mod 10"]
      by (subst decimal_nat.simps) auto
  next
    case 2
    then show ?case by (subst decimal_nat.simps) auto
  }
qed

lemma digits_val_decimal: "digits_val 0 (decimal_nat n) = int n"
proof (induction n rule: decimal_nat.induct)
  case (1 n)
  have "int (n div 10 * 10 + n mod 10) = int n" by simp
  then have "int (n div 10) * 10 + int (n mod 10) = int n" by (simp only: of_nat_add of_nat_mult of_nat_numeral)
  with 1 show ?case
    using digit_char_val [of n] digit_char_val [of "n mod 10"] decimal_nat_digits(1) [of "n div 10"]
    by (subst decimal_nat.simps) (auto simp: digits_val_append)
qed

text \<open>A number is read back when it is followed by the end of the string or a character that is no digit.\<close>

lemma strtol_decimal_nat:
  assumes "int n \<le> long_max" "rest = [] \<or> \<not> is_digit_char (hd rest)"
  shows "strtol (decimal_nat n @ rest) = int n"
proof -
  obtain c cs where d: "decimal_nat n = c # cs" using decimal_nat_digits(2) by (cases "decimal_nat n") auto
  then have c: "is_digit_char c" using decimal_nat_digits(1) [of n] by simp
  then have "\<not> is_space_char c" "c \<noteq> CHR ''-''" "c \<noteq> CHR ''+''"
    by (auto simp: is_digit_char_def is_space_char_def)
  moreover have "digits_val 0 (decimal_nat n @ rest) = int n"
    using assms(2) decimal_nat_digits(1) [of n] by (cases rest) (auto simp: digits_val_append digits_val_decimal)
  moreover have "clamp_long (int n) = int n" using assms(1) by (simp add: clamp_long_def long_max_def)
  ultimately show ?thesis by (simp add: strtol_def d)
qed

lemma strtol_spaces: "list_all is_space_char sp \<Longrightarrow> strtol (sp @ s) = strtol s"
  by (simp add: strtol_def dropWhile_append list_all_iff)

lemma strtol_decimal: "- long_max \<le> v \<Longrightarrow> v \<le> long_max \<Longrightarrow> strtol (decimal v) = v"
proof (cases "v < 0")
  case True
  assume "- long_max \<le> v"
  with True show ?thesis
    by (simp add: strtol_def decimal_def is_space_char_def digits_val_decimal clamp_long_def long_max_def)
next
  case False
  assume "v \<le> long_max"
  with False strtol_decimal_nat [of "nat v" "[]"] show ?thesis by (simp add: decimal_def)
qed

lemma atoi_decimal: "int_min < v \<Longrightarrow> v \<le> int_max \<Longrightarrow> atoi (decimal v) = v"
  by (simp add: atoi_def strtol_decimal int_min_def int_max_def long_max_def int32_id)

lemma digits_val_less: "list_all is_digit_char ds \<Longrightarrow> digits_val v ds < (v + 1) * 10 ^ length ds"
proof (induction ds arbitrary: v)
  case (Cons d ds)
  then have "digit_val d \<le> 9" by (simp add: is_digit_char_def digit_val_def)
  then have "(v * 10 + digit_val d + 1) * 10 ^ length ds \<le> ((v + 1) * 10) * 10 ^ length ds"
    by (intro mult_right_mono) auto
  moreover have "digits_val (v * 10 + digit_val d) ds < (v * 10 + digit_val d + 1) * 10 ^ length ds"
    using Cons by simp
  ultimately have "digits_val (v * 10 + digit_val d) ds < ((v + 1) * 10) * 10 ^ length ds" by (rule less_le_trans [rotated])
  then show ?case using Cons.prems by (simp add: algebra_simps)
qed simp

lemma decimal_length: "\<bar>v\<bar> < 10 ^ length (decimal v)"
proof -
  have less: "int n < 10 ^ length (decimal_nat n)" for n
    using digits_val_less [OF decimal_nat_digits(1), of 0 n] by (simp add: digits_val_decimal)
  show ?thesis using less [of "nat v"] less [of "nat (- v)"] by (auto simp: decimal_def)
qed

lemma decimal_chars: "c \<in> set (decimal v) \<Longrightarrow> c = CHR ''-'' \<or> is_digit_char c"
  using decimal_nat_digits(1) by (auto simp: decimal_def list_all_iff split: if_splits)

lemma decimal_free:
  "\<not> is_digit_char d \<Longrightarrow> d \<noteq> CHR ''-'' \<Longrightarrow> d \<notin> set (decimal v)"
  using decimal_chars by blast

lemma decimal_nat_free: "\<not> is_digit_char d \<Longrightarrow> d \<notin> set (decimal_nat n)"
  using decimal_nat_digits(1) by (auto simp: list_all_iff)

lemma decimal_nat_length: "0 < k \<Longrightarrow> n < 10 ^ k \<Longrightarrow> length (decimal_nat n) \<le> k"
proof (induction k arbitrary: n rule: nat_induct_non_zero)
  case 1
  then show ?case by (simp add: decimal_nat.simps)
next
  case (Suc k)
  then have "n div 10 < 10 ^ k" by (simp add: less_mult_imp_div_less)
  with Suc.IH have "length (decimal_nat (n div 10)) \<le> k" by blast
  then show ?case by (subst decimal_nat.simps) simp
qed

lemma decimal_length_le: "0 \<le> v \<Longrightarrow> v < 10 ^ k \<Longrightarrow> 0 < k \<Longrightarrow> length (decimal v) \<le> k"
proof -
  assume v: "0 \<le> v" "v < 10 ^ k" "0 < k"
  have "nat v < 10 ^ k" using v by (simp add: nat_less_iff)
  then show ?thesis using v decimal_nat_length [of k "nat v"] by (simp add: decimal_def)
qed

lemma decimal_length_ge: "10 ^ k \<le> v \<Longrightarrow> k < length (decimal v)"
proof -
  assume "10 ^ k \<le> v"
  then have "(10 :: int) ^ k < 10 ^ length (decimal v)" using decimal_length [of v] by linarith
  then show ?thesis by simp
qed

section \<open>Tokens\<close>

text \<open>The tokens successive calls of \<open>strtok\<close> return: the fields that are not empty.\<close>

definition tokens :: "char \<Rightarrow> string \<Rightarrow> string list" where
  "tokens d s = filter (\<lambda>f. f \<noteq> []) (fields d s)"

lemma tokens_join:
  "\<forall>x \<in> set xs. x \<noteq> [] \<and> d \<notin> set x \<Longrightarrow> tokens d (join_with d xs) = xs"
  by (cases "xs = []") (auto simp: tokens_def fields_join filter_id_conv)

text \<open>\<open>strchr\<close>: the string from the first occurrence on.\<close>

definition strchr :: "string \<Rightarrow> char \<Rightarrow> string option" where
  "strchr s c = (case dropWhile (\<lambda>x. x \<noteq> c) s of [] \<Rightarrow> None | rest \<Rightarrow> Some rest)"

lemma strchr_append: "c \<notin> set xs \<Longrightarrow> strchr (xs @ c # ys) c = Some (c # ys)"
  by (induction xs) (auto simp: strchr_def)

lemma strchr_None: "c \<notin> set s \<longleftrightarrow> strchr s c = None"
  by (induction s) (auto simp: strchr_def split: list.splits)

end
