(* ===== verification/Parsing.thy ===== *)
theory Parsing
  imports CString
begin

text \<open>
  The option parsers of src/unit/test_common.c: the fence and noise descriptions
  (\<open>parse_fence\<close>, \<open>parse_noise\<close>, \<open>parse_token\<close>), the list of keys to replace
  (\<open>parse_replace\<close>), and the two readers of the distribution of processes over
  namespaces. Each parser runs in two modes: without \<open>store\<close> it checks the format, with it it
  fills the lists of the test. These lists are HOL lists in the order of the C lists.
\<close>

section \<open>Data\<close>

record fence_desc =
  blocking :: bool
  data_exchange :: bool
  fence_participants :: "proc list"

text \<open>
  The global pointer \<open>participants\<close> is NULL, or it points to the list of the fence with a given
  number (in the order of creation) or to the list made for the noise.
\<close>

datatype plist = Fence_list nat | Noise_list

record parser =
  cur_ns :: int                           \<comment> \<open>\<open>ns_id\<close>\<close>
  test_fences :: "fence_desc list"        \<comment> \<open>all fences created, the last one is \<open>fdesc\<close>\<close>
  participants :: "plist option"
  noise_range :: "proc list option"

definition TEST_NAMESPACE :: string where
  "TEST_NAMESPACE = ''smoky_nspace''"

text \<open>\<open>snprintf(.., PMIX_MAX_NSLEN, "%s-%d", TEST_NAMESPACE, ns_id)\<close>\<close>

definition ns_name :: "pmix_consts \<Rightarrow> int \<Rightarrow> string" where
  "ns_name K i = take (max_nslen K - 1) (TEST_NAMESPACE @ CHR ''-'' # decimal i)"

text \<open>Appending participants to the list \<open>participants\<close> points to.\<close>

definition add_participants :: "proc list \<Rightarrow> parser \<Rightarrow> parser" where
  "add_participants ps st =
     (case participants st of
        None \<Rightarrow> st
      | Some Noise_list \<Rightarrow> st\<lparr>noise_range := Some (the (noise_range st) @ ps)\<rparr>
      | Some (Fence_list i) \<Rightarrow>
          st\<lparr>test_fences := (test_fences st)[i := (test_fences st ! i)
            \<lparr>fence_participants := fence_participants (test_fences st ! i) @ ps\<rparr>]\<rparr>)"

section \<open>Ranks\<close>

definition strtol_int :: "string \<Rightarrow> int" where
  "strtol_int s = int32 (strtol s)"

text \<open>\<open>CHECK_STRTOL_VAL\<close>: a zero that is not written as one is an error when checking.\<close>

definition number_ok :: "bool \<Rightarrow> int \<Rightarrow> string \<Rightarrow> bool" where
  "number_ok store v s \<longleftrightarrow> v \<noteq> 0 \<or> (s \<noteq> [] \<and> hd s = CHR ''0'') \<or> store"

text \<open>What a number \<open>cur\<close> contributes, after the start \<open>remember\<close> of a range (or -1).\<close>

definition flush_rank :: "bool \<Rightarrow> string \<Rightarrow> int \<Rightarrow> int list option" where
  "flush_rank store cur remember =
     (let rank = strtol_int cur in
      if \<not> number_ok store rank cur then None
      else Some ((if remember \<noteq> - 1 then [remember..rank - 1] else []) @ [rank]))"

text \<open>
  The loop over the characters: \<open>cur\<close> holds the last \<open>count\<close> characters, \<open>acc\<close> the ranks so
  far; \<open>None\<close> is the early \<open>return 1\<close>.
\<close>

fun parse_ranks :: "bool \<Rightarrow> string \<Rightarrow> string \<Rightarrow> int \<Rightarrow> int list \<Rightarrow> int list option" where
  "parse_ranks store [] cur remember acc =
     (if cur = [] then Some acc else map_option (\<lambda>r. acc @ r) (flush_rank store cur remember))"
| "parse_ranks store (c # cs) cur remember acc =
     (if c = CHR '','' \<and> cur \<noteq> []
      then (case flush_rank store cur remember of
          None \<Rightarrow> None | Some r \<Rightarrow> parse_ranks store cs [] (- 1) (acc @ r))
      else if c = CHR ''-'' \<and> cur \<noteq> []
      then (let v = strtol_int cur in
        if number_ok store v cur then parse_ranks store cs [] v acc else None)
      else parse_ranks store cs (cur @ [c]) remember acc)"

section \<open>\<open>parse_token\<close>\<close>

definition skip_blanks :: "string \<Rightarrow> string" where
  "skip_blanks s = dropWhile (\<lambda>c. c = CHR '' '') s"

definition participant :: "pmix_consts \<Rightarrow> int \<Rightarrow> pmix_rank_t \<Rightarrow> proc" where
  "participant K n r = \<lparr>nspace = ns_name K n, prank = r\<rparr>"

text \<open>Step 3: the ranks of the current namespace; all of them when nothing is written.\<close>

definition parse_token3 :: "pmix_consts \<Rightarrow> bool \<Rightarrow> string \<Rightarrow> parser \<Rightarrow> int \<times> parser" where
  "parse_token3 K store str st =
     (let s = skip_blanks str in
      if s = [] then
        (0, if store then add_participants [participant K (cur_ns st) (rank_wildcard K)] st else st)
      else (case parse_ranks store s [] (- 1) [] of
          None \<Rightarrow> (1, st)
        | Some rs \<Rightarrow>
            (0, if store then add_participants (map (\<lambda>r. participant K (cur_ns st) (word_of_int r)) rs) st
                else st)))"

text \<open>Step 2: one namespace, "number:ranks".\<close>

definition parse_token2 :: "pmix_consts \<Rightarrow> bool \<Rightarrow> string \<Rightarrow> parser \<Rightarrow> int \<times> parser" where
  "parse_token2 K store str st =
     (case strchr str CHR '':'' of
        None \<Rightarrow> (if store then 0 else 1, st)
      | Some rest \<Rightarrow>
          (let s = skip_blanks (takeWhile (\<lambda>c. c \<noteq> CHR '':'') str);
               n = strtol_int s;
               st = st\<lparr>cur_ns := n\<rparr>
           in if \<not> number_ok store n s then (1, st)
              else (case parse_token3 K store (tl rest) st of
                  (r, st) \<Rightarrow> (if 0 < r \<and> \<not> store then 1 else 0, st))))"

text \<open>Step 1: the namespaces, separated by semicolons.\<close>

fun parse_namespaces :: "pmix_consts \<Rightarrow> bool \<Rightarrow> string list \<Rightarrow> parser \<Rightarrow> int \<times> parser" where
  "parse_namespaces K store [] st = (0, st)"
| "parse_namespaces K store (t # ts) st =
     (case parse_token2 K store t st of
        (r, st) \<Rightarrow> if 0 < r \<and> \<not> store then (1, st) else parse_namespaces K store ts st)"

definition parse_token1 :: "pmix_consts \<Rightarrow> bool \<Rightarrow> string \<Rightarrow> parser \<Rightarrow> int \<times> parser" where
  "parse_token1 K store str st =
     (let st = (if store \<and> participants st = None
         then st\<lparr>participants := Some Noise_list, noise_range := Some []\<rparr> else st)
      in parse_namespaces K store (tokens CHR '';'' str) st)"

text \<open>Step 0: the flags of a fence before the bar; \<open>None\<close> is the early \<open>return 1\<close>.\<close>

fun parse_flags :: "bool \<Rightarrow> string \<Rightarrow> fence_desc \<Rightarrow> fence_desc option" where
  "parse_flags store [] f = Some f"
| "parse_flags store (c # cs) f =
     (if c = CHR ''d'' then parse_flags store cs (if store then f\<lparr>data_exchange := True\<rparr> else f)
      else if c = CHR ''b'' then parse_flags store cs (if store then f\<lparr>blocking := True\<rparr> else f)
      else if c \<noteq> CHR '' '' \<and> \<not> store then None
      else parse_flags store cs f)"

definition new_fence :: fence_desc where
  "new_fence = \<lparr>blocking = False, data_exchange = False, fence_participants = []\<rparr>"

definition parse_token0 :: "pmix_consts \<Rightarrow> bool \<Rightarrow> string \<Rightarrow> parser \<Rightarrow> int \<times> parser" where
  "parse_token0 K store str st =
     (let i = length (test_fences st);
          st = (if store then st\<lparr>test_fences := test_fences st @ [new_fence],
            participants := Some (Fence_list i)\<rparr> else st)
      in case strchr str CHR ''|'' of
           None \<Rightarrow> (case parse_token1 K store str st of (r, st) \<Rightarrow> (if 0 < r \<and> \<not> store then 1 else 0, st))
         | Some rest \<Rightarrow>
             (case parse_flags store (takeWhile (\<lambda>c. c \<noteq> CHR ''|'') str) new_fence of
                None \<Rightarrow> (1, st)
              | Some f \<Rightarrow>
                  (let st = (if store then st\<lparr>test_fences := (test_fences st)[i := f]\<rparr> else st)
                   in case parse_token1 K store (tl rest) st of
                        (r, st) \<Rightarrow> (if 0 < r \<and> \<not> store then 1 else 0, st))))"

section \<open>Fences and noise\<close>

function fence_loop :: "pmix_consts \<Rightarrow> bool \<Rightarrow> string \<Rightarrow> int \<Rightarrow> parser \<Rightarrow> int \<times> parser" where
  "fence_loop K store s ret st =
     (let p = dropWhile (\<lambda>c. c \<noteq> CHR ''['') s in
      if p = [] then (ret, st)
      else let q = dropWhile (\<lambda>c. c \<noteq> CHR '']'') (tl p) in
        if q = [] then (1, st)
        else (case parse_token0 K store (takeWhile (\<lambda>c. c \<noteq> CHR '']'') (tl p)) st of
          (r, st') \<Rightarrow> fence_loop K store (tl q) (ret + r) st'))"
  by pat_completeness auto
termination
proof (relation "measure (\<lambda>(K, store, s, ret, st). length s)", goal_cases)
  case (2 K store s ret st p q r st1)
  have "length p \<le> length s" "length q \<le> length (tl p)"
    unfolding 2(1,3) by (rule length_dropWhile_le)+
  moreover have "p \<noteq> []" "q \<noteq> []" using 2(2,4) by auto
  ultimately show ?case by (cases p; cases q) auto
qed simp

declare fence_loop.simps [simp del]

definition parse_fence :: "pmix_consts \<Rightarrow> string \<Rightarrow> bool \<Rightarrow> parser \<Rightarrow> int \<times> parser" where
  "parse_fence K fence_param store st = fence_loop K store fence_param 0 st"

definition parse_noise :: "pmix_consts \<Rightarrow> string \<Rightarrow> bool \<Rightarrow> parser \<Rightarrow> int \<times> parser" where
  "parse_noise K noise_param store st =
     (case strchr noise_param CHR ''['' of
        None \<Rightarrow> (0, st)
      | Some p \<Rightarrow>
          (case strchr (tl p) CHR '']'' of
             None \<Rightarrow> (1, st)
           | Some q \<Rightarrow>
               if tl q \<noteq> [] then (1, st)
               else parse_token1 K store (takeWhile (\<lambda>c. c \<noteq> CHR '']'') (tl p)) st))"

section \<open>Keys to replace\<close>

definition is_digit :: "string \<Rightarrow> bool" where
  "is_digit s \<longleftrightarrow> list_all is_digit_char s"

text \<open>
  The loop of \<open>parse_replace\<close> on the text after a colon or comma: the result code and the
  indices pushed. \<open>None\<close>: a token that does not fit the buffer \<open>tmp_str[32]\<close>, or an index
  whose successor is no \<open>int\<close>.
\<close>

function replace_loop :: "bool \<Rightarrow> int \<Rightarrow> string \<Rightarrow> int list \<Rightarrow> (int \<times> int list) option" where
  "replace_loop store cnt s keys =
     (if s = [] then Some (1, keys)
      else let t = takeWhile (\<lambda>c. c \<noteq> CHR '','') s; ech = dropWhile (\<lambda>c. c \<noteq> CHR '','') s in
        if 32 \<le> length t then None
        else if \<not> is_digit t then Some (1, keys)
        else if atoi t + 1 > int_max then None
        else if atoi t + 1 > cnt then Some (1, keys)
        else let keys' = (if store then keys @ [atoi t] else keys) in
          if ech = [] then Some (0, keys') else replace_loop store cnt (tl ech) keys')"
  by pat_completeness auto
termination
proof (relation "measure (\<lambda>(store, cnt, s, keys). length s)", goal_cases)
  case (2 store cnt s keys t ech)
  then have "0 < length s" by simp
  moreover have "length ech \<le> length s" using 2 by (simp add: length_dropWhile_le)
  ultimately have "length (tl ech) < length s" by (cases ech) auto
  then show ?case by simp
qed simp

declare replace_loop.simps [simp del]

text \<open>The result: the return code, \<open>*key_num\<close>, and the indices pushed on \<open>key_replace\<close>.\<close>

definition parse_replace :: "string option \<Rightarrow> bool \<Rightarrow> (int \<times> int \<times> int list) option" where
  "parse_replace replace_param store =
     (case replace_param of
        None \<Rightarrow> None
      | Some tmp \<Rightarrow>
          (case strchr tmp CHR '':'' of
             None \<Rightarrow> None
           | Some p \<Rightarrow>
               (let t = takeWhile (\<lambda>c. c \<noteq> CHR '':'') tmp in
                if 32 \<le> length t then None
                else map_option (\<lambda>(ret, keys). (ret, atoi t, keys)) (replace_loop store (atoi t) (tl p) []))))"

section \<open>Distribution over namespaces\<close>

definition get_total_ns_number :: "string option \<Rightarrow> int" where
  "get_total_ns_number ns_dist = (case ns_dist of None \<Rightarrow> 1 | Some d \<Rightarrow> int (length (tokens CHR '':'' d)))"

text \<open>The search for the token with the number of the namespace; \<open>num\<close> counts from -1.\<close>

fun find_dist :: "string list \<Rightarrow> int \<Rightarrow> int \<Rightarrow> u64 \<Rightarrow> int \<times> u64" where
  "find_dist ts num ns num_ranks =
     (if num = ns then (num, num_ranks)
      else (case ts of [] \<Rightarrow> (num, num_ranks)
        | t # ts' \<Rightarrow> find_dist ts' (num + 1) ns (word_of_int (strtol t))))"

declare find_dist.simps [simp del]

text \<open>
  \<open>None\<close> where the name is shorter than the prefix that is skipped. The array is as long as the
  counts say; nothing limits them to what can be allocated.
\<close>

definition seq_procs :: "pmix_consts \<Rightarrow> string \<Rightarrow> nat \<Rightarrow> proc list" where
  "seq_procs K name n = map (\<lambda>j. \<lparr>nspace = take (max_nslen K) name, prank = of_nat j\<rparr>) [0..<n]"

definition get_all_ranks_from_namespace ::
  "pmix_consts \<Rightarrow> string option \<Rightarrow> int \<Rightarrow> string \<Rightarrow> (pmix_status \<times> proc list) option" where
  "get_all_ranks_from_namespace K ns_dist ns_size name =
     (case ns_dist of
        None \<Rightarrow> Some (PMIX_SUCCESS, seq_procs K name (unat (word_of_int ns_size :: u64)))
      | Some d \<Rightarrow>
          if length name < length TEST_NAMESPACE + 1 then None
          else (let ns = strtol_int (drop (length TEST_NAMESPACE + 1) name);
                    (num, num_ranks) = find_dist (tokens CHR '':'' d) (- 1) ns 0
                in if num = ns \<and> num_ranks \<noteq> 0
                   then Some (PMIX_SUCCESS, seq_procs K name (unat num_ranks))
                   else Some (PMIX_ERROR, [])))"

section \<open>Descriptions and their text\<close>

text \<open>
  What a user writes: single ranks and ranges, for each of some namespaces (no ranks means all
  of them), for each of some fences with their two flags.
\<close>

datatype rank_item = One nat | Range nat nat

fun show_item :: "rank_item \<Rightarrow> string" where
  "show_item (One n) = decimal_nat n"
| "show_item (Range a b) = decimal_nat a @ CHR ''-'' # decimal_nat b"

fun ranks_of :: "rank_item \<Rightarrow> int list" where
  "ranks_of (One n) = [int n]"
| "ranks_of (Range a b) = [int a..int b - 1] @ [int b]"

fun item_ok :: "rank_item \<Rightarrow> bool" where
  "item_ok (One n) \<longleftrightarrow> int n \<le> int_max"
| "item_ok (Range a b) \<longleftrightarrow> int a \<le> int_max \<and> int b \<le> int_max"

type_synonym ns_item = "nat \<times> rank_item list"

definition show_ns :: "ns_item \<Rightarrow> string" where
  "show_ns x = decimal_nat (fst x) @ CHR '':'' # join_with CHR '','' (map show_item (snd x))"

definition ns_ok :: "ns_item \<Rightarrow> bool" where
  "ns_ok x \<longleftrightarrow> int (fst x) \<le> int_max \<and> list_all item_ok (snd x)"

definition procs_of :: "pmix_consts \<Rightarrow> ns_item \<Rightarrow> proc list" where
  "procs_of K x =
     (if snd x = [] then [participant K (int (fst x)) (rank_wildcard K)]
      else map (\<lambda>r. participant K (int (fst x)) (word_of_int r)) (concat (map ranks_of (snd x))))"

definition show_nss :: "ns_item list \<Rightarrow> string" where
  "show_nss xs = join_with CHR '';'' (map show_ns xs)"

record fence_item =
  f_data :: bool
  f_block :: bool
  f_nss :: "ns_item list"

definition show_fence :: "fence_item \<Rightarrow> string" where
  "show_fence f = CHR ''['' # (if f_data f then ''d'' else []) @ (if f_block f then ''b'' else []) @
     CHR ''|'' # show_nss (f_nss f) @ '']''"

definition fence_of :: "pmix_consts \<Rightarrow> fence_item \<Rightarrow> fence_desc" where
  "fence_of K f = \<lparr>blocking = f_block f, data_exchange = f_data f,
     fence_participants = concat (map (procs_of K) (f_nss f))\<rparr>"

definition show_fences :: "fence_item list \<Rightarrow> string" where
  "show_fences fs = concat (map show_fence fs)"

section \<open>Reading back the ranks\<close>

lemma strtol_int_decimal: "int n \<le> int_max \<Longrightarrow> strtol_int (decimal_nat n) = int n"
  using strtol_decimal_nat [of n "[]"]
  by (simp add: strtol_int_def int_max_def long_max_def int32_id int_min_def)

lemma zero_char: "char_of (48 :: nat) = CHR ''0''"
  by code_simp

lemma number_ok_decimal: "int n \<le> int_max \<Longrightarrow> number_ok store (int n) (decimal_nat n)"
  by (cases n) (simp_all add: number_ok_def decimal_nat_digits decimal_nat.simps [of 0] digit_char_def zero_char)

lemma flush_decimal:
  "int n \<le> int_max \<Longrightarrow> flush_rank store (decimal_nat n) remember =
    Some ((if remember \<noteq> - 1 then [remember..int n - 1] else []) @ [int n])"
  using number_ok_decimal [of n store] by (simp add: flush_rank_def strtol_int_decimal Let_def)

lemma parse_ranks_digits:
  "list_all is_digit_char ds \<Longrightarrow>
    parse_ranks store (ds @ rest) cur remember acc = parse_ranks store rest (cur @ ds) remember acc"
proof (induction ds arbitrary: cur)
  case (Cons d ds)
  then have "d \<noteq> CHR '',''" "d \<noteq> CHR ''-''" by (auto simp: is_digit_char_def)
  with Cons show ?case by simp
qed simp

lemmas parse_decimal = parse_ranks_digits [OF decimal_nat_digits(1)]

lemma parse_item:
  assumes "item_ok x" "rest = [] \<or> hd rest = CHR '',''"
  shows "parse_ranks store (show_item x @ rest) [] (- 1) acc =
    (if rest = [] then Some (acc @ ranks_of x) else parse_ranks store (tl rest) [] (- 1) (acc @ ranks_of x))"
proof (cases x)
  case (One n)
  then show ?thesis
    using assms flush_decimal [of n store] decimal_nat_digits(2) [of n]
      parse_decimal [of store n "[]" "[]" "- 1" acc]
    by (cases rest) (simp_all add: parse_decimal)
next
  case (Range a b)
  have "strtol_int (decimal_nat a) = int a" "number_ok store (int a) (decimal_nat a)"
    using assms(1) Range strtol_int_decimal number_ok_decimal by auto
  then have "parse_ranks store (show_item x @ rest) [] (- 1) acc =
      parse_ranks store rest (decimal_nat b) (int a) acc"
    using Range decimal_nat_digits(2) [of a] by (simp add: parse_decimal Let_def)
  then show ?thesis
    using assms Range flush_decimal [of b store] decimal_nat_digits(2) [of b]
    by (cases rest) simp_all
qed

lemma parse_items:
  "list_all item_ok xs \<Longrightarrow> xs \<noteq> [] \<Longrightarrow>
    parse_ranks store (join_with CHR '','' (map show_item xs)) [] (- 1) acc = Some (acc @ concat (map ranks_of xs))"
proof (induction xs arbitrary: acc)
  case (Cons x xs)
  show ?case
  proof (cases "xs = []")
    case True
    then show ?thesis using Cons.prems parse_item [of x "[]" store acc] by simp
  next
    case False
    then have "join_with CHR '','' (map show_item (x # xs)) =
        show_item x @ CHR '','' # join_with CHR '','' (map show_item xs)"
      by (simp add: join_with_Cons)
    then show ?thesis using Cons False parse_item [of x "CHR '','' # _" store acc] by simp
  qed
qed simp

lemma show_item_chars: "c \<in> set (show_item x) \<Longrightarrow> is_digit_char c \<or> c = CHR ''-''"
  using decimal_nat_digits(1) by (cases x) (auto simp: list_all_iff)

lemma show_item_digit: "show_item x \<noteq> [] \<and> is_digit_char (hd (show_item x))"
proof -
  have "is_digit_char (hd (decimal_nat n))" for n
    using decimal_nat_digits [of n] hd_in_set [of "decimal_nat n"] by (simp add: list_all_iff)
  then show ?thesis using decimal_nat_digits(2) by (cases x) (auto simp: hd_append)
qed

lemma set_join_with: "set (join_with d xs) \<subseteq> insert d (\<Union>x \<in> set xs. set x)"
  by (induction d xs rule: join_with.induct) auto

lemma show_items_chars:
  "c \<in> set (join_with CHR '','' (map show_item xs)) \<Longrightarrow> is_digit_char c \<or> c = CHR ''-'' \<or> c = CHR '',''"
  using set_join_with [of "CHR '',''" "map show_item xs"] show_item_chars by fastforce

lemma skip_blanks_digit: "s = [] \<or> is_digit_char (hd s) \<Longrightarrow> skip_blanks s = s"
  by (cases s) (auto simp: skip_blanks_def is_digit_char_def)

lemma show_items_start:
  "skip_blanks (join_with CHR '','' (map show_item xs)) = join_with CHR '','' (map show_item xs)"
  using show_item_digit
  by (intro skip_blanks_digit) (cases xs; auto simp: join_with_Cons hd_append)

lemma show_items_Nil: "join_with CHR '','' (map show_item xs) = [] \<longleftrightarrow> xs = []"
  using show_item_digit by (cases xs) (auto simp: join_with_Cons)

section \<open>Reading back the namespaces\<close>

lemma takeWhile_stop: "c \<notin> set xs \<Longrightarrow> takeWhile (\<lambda>x. x \<noteq> c) (xs @ c # ys) = xs"
  by (induction xs) auto

lemma dropWhile_stop: "c \<notin> set xs \<Longrightarrow> dropWhile (\<lambda>x. x \<noteq> c) (xs @ c # ys) = c # ys"
  by (induction xs) auto

lemma token3_items:
  assumes "list_all item_ok xs"
  shows "parse_token3 K store (join_with CHR '','' (map show_item xs)) st =
    (0, if store then add_participants (if xs = [] then [participant K (cur_ns st) (rank_wildcard K)]
        else map (\<lambda>r. participant K (cur_ns st) (word_of_int r)) (concat (map ranks_of xs))) st else st)"
proof (cases "xs = []")
  case True
  then show ?thesis by (simp add: parse_token3_def skip_blanks_def)
next
  case False
  then show ?thesis
    using parse_items [OF assms False, of store "[]"]
    by (simp add: parse_token3_def show_items_start show_items_Nil)
qed

lemma token2_ns:
  assumes "ns_ok x"
  shows "parse_token2 K store (show_ns x) st =
    (0, if store then add_participants (procs_of K x) (st\<lparr>cur_ns := int (fst x)\<rparr>) else st\<lparr>cur_ns := int (fst x)\<rparr>)"
proof -
  have ok: "int (fst x) \<le> int_max" "list_all item_ok (snd x)" using assms by (simp_all add: ns_ok_def)
  have colon: "CHR '':'' \<notin> set (decimal_nat (fst x))"
    by (rule decimal_nat_free) (simp add: is_digit_char_def)
  have "is_digit_char (hd (decimal_nat (fst x)))"
    using decimal_nat_digits [of "fst x"] by (cases "decimal_nat (fst x)") auto
  then have "skip_blanks (decimal_nat (fst x)) = decimal_nat (fst x)" by (intro skip_blanks_digit) simp
  with token3_items [OF ok(2), of K store "st\<lparr>cur_ns := int (fst x)\<rparr>"] ok(1) colon show ?thesis
    by (simp add: parse_token2_def show_ns_def strchr_append takeWhile_stop strtol_int_decimal
        number_ok_decimal procs_of_def Let_def)
qed

text \<open>A state whose pointer \<open>participants\<close> is NULL or points to a list.\<close>

definition parser_ok :: "parser \<Rightarrow> bool" where
  "parser_ok st \<longleftrightarrow>
     (case participants st of
        None \<Rightarrow> True
      | Some Noise_list \<Rightarrow> noise_range st \<noteq> None
      | Some (Fence_list i) \<Rightarrow> i < length (test_fences st))"

lemma add_participants_simps:
  "participants (add_participants ps st) = participants st"
  "cur_ns (add_participants ps st) = cur_ns st"
  "add_participants ps (st\<lparr>cur_ns := n\<rparr>) = (add_participants ps st)\<lparr>cur_ns := n\<rparr>"
  by (auto simp: add_participants_def split: option.splits plist.splits)

lemma parser_ok_add: "parser_ok st \<Longrightarrow> parser_ok (add_participants ps st)"
  "parser_ok (st\<lparr>cur_ns := n\<rparr>) = parser_ok st"
  by (auto simp: parser_ok_def add_participants_def split: option.splits plist.splits)

lemma add_add: "parser_ok st \<Longrightarrow> add_participants qs (add_participants ps st) = add_participants (ps @ qs) st"
  by (auto simp: parser_ok_def add_participants_def split: option.splits plist.splits)

lemma add_Nil: "parser_ok st \<Longrightarrow> add_participants [] st = st"
  by (auto simp: parser_ok_def add_participants_def split: option.splits plist.splits)

lemma namespaces_read:
  "list_all ns_ok xs \<Longrightarrow> parser_ok st \<Longrightarrow>
    parse_namespaces K store (map show_ns xs) st =
      (0, (if store then add_participants (concat (map (procs_of K) xs)) st else st)
        \<lparr>cur_ns := (if xs = [] then cur_ns st else int (fst (last xs)))\<rparr>)"
proof (induction xs arbitrary: st)
  case Nil
  then show ?case by (simp add: add_Nil)
next
  case (Cons x xs)
  let ?st = "(if store then add_participants (procs_of K x) st else st)\<lparr>cur_ns := int (fst x)\<rparr>"
  have x: "parse_token2 K store (show_ns x) st = (0, ?st)"
    using Cons.prems token2_ns [of x K store st] by (simp add: add_participants_simps)
  have "parser_ok ?st" using Cons.prems(2) parser_ok_add by simp
  with Cons have "parse_namespaces K store (map show_ns xs) ?st =
      (0, (if store then add_participants (concat (map (procs_of K) xs)) ?st else ?st)
        \<lparr>cur_ns := (if xs = [] then cur_ns ?st else int (fst (last xs)))\<rparr>)" by simp
  with x Cons.prems(2) show ?case by (simp add: add_participants_simps add_add)
qed

lemma show_ns_free:
  assumes "c = CHR '';'' \<or> c = CHR ''['' \<or> c = CHR '']'' \<or> c = CHR ''|''"
  shows "c \<notin> set (show_ns x)"
proof
  assume "c \<in> set (show_ns x)"
  then have "is_digit_char c \<or> c = CHR '':'' \<or> c = CHR ''-'' \<or> c = CHR '',''"
    using show_items_chars decimal_nat_digits(1) [of "fst x"] by (auto simp: show_ns_def list_all_iff)
  with assms show False by (auto simp: is_digit_char_def)
qed

lemma show_nss_free: "c = CHR ''['' \<or> c = CHR '']'' \<or> c = CHR ''|'' \<Longrightarrow> c \<notin> set (show_nss xs)"
  using set_join_with [of "CHR '';''" "map show_ns xs"] show_ns_free [of c]
  by (auto simp: show_nss_def)

lemma tokens_nss: "tokens CHR '';'' (show_nss xs) = map show_ns xs"
  unfolding show_nss_def
  by (rule tokens_join) (auto simp: show_ns_free, auto simp: show_ns_def)

definition with_list :: "bool \<Rightarrow> parser \<Rightarrow> parser" where
  "with_list store st = (if store \<and> participants st = None
     then st\<lparr>participants := Some Noise_list, noise_range := Some []\<rparr> else st)"

lemma parser_ok_with_list: "parser_ok st \<Longrightarrow> parser_ok (with_list store st)"
  by (simp add: with_list_def parser_ok_def)

lemma token1_read:
  assumes "list_all ns_ok xs" "parser_ok st"
  shows "parse_token1 K store (show_nss xs) st =
    (0, (if store then add_participants (concat (map (procs_of K) xs)) (with_list True st) else st)
      \<lparr>cur_ns := (if xs = [] then cur_ns st else int (fst (last xs)))\<rparr>)"
proof -
  have "cur_ns (with_list store st) = cur_ns st" by (simp add: with_list_def)
  then show ?thesis
    using namespaces_read [OF assms(1) parser_ok_with_list [OF assms(2), of store], of K store]
    by (simp add: parse_token1_def tokens_nss with_list_def [symmetric]) (simp add: with_list_def)
qed

section \<open>Reading back the fences\<close>

lemma token0_read:
  assumes "list_all ns_ok (f_nss f)" "parser_ok st"
  shows "parse_token0 K store ((if f_data f then ''d'' else []) @ (if f_block f then ''b'' else []) @
      CHR ''|'' # show_nss (f_nss f)) st =
    (0, (if store then st\<lparr>test_fences := test_fences st @ [fence_of K f],
           participants := Some (Fence_list (length (test_fences st)))\<rparr> else st)
      \<lparr>cur_ns := (if f_nss f = [] then cur_ns st else int (fst (last (f_nss f))))\<rparr>)"
proof -
  define fl where "fl = (if f_data f then ''d'' else []) @ (if f_block f then ''b'' else [])"
  have "CHR ''|'' \<notin> set fl" by (auto simp: fl_def)
  then have s: "strchr (fl @ CHR ''|'' # show_nss (f_nss f)) CHR ''|'' = Some (CHR ''|'' # show_nss (f_nss f))"
    "takeWhile (\<lambda>c. c \<noteq> CHR ''|'') (fl @ CHR ''|'' # show_nss (f_nss f)) = fl"
    by (rule strchr_append, rule takeWhile_stop)
  have fl: "parse_flags store fl new_fence =
      Some (if store then new_fence\<lparr>data_exchange := f_data f, blocking := f_block f\<rparr> else new_fence)"
    by (auto simp: new_fence_def fl_def)
  have txt_eq: "(if f_data f then ''d'' else []) @ (if f_block f then ''b'' else []) @
      CHR ''|'' # show_nss (f_nss f) = fl @ CHR ''|'' # show_nss (f_nss f)" by (simp add: fl_def)
  have "parse_token0 K store (fl @ CHR ''|'' # show_nss (f_nss f)) st =
    (0, (if store then st\<lparr>test_fences := test_fences st @ [fence_of K f],
           participants := Some (Fence_list (length (test_fences st)))\<rparr> else st)
      \<lparr>cur_ns := (if f_nss f = [] then cur_ns st else int (fst (last (f_nss f))))\<rparr>)"
  proof (cases store)
    case False
    then show ?thesis
      using s fl token1_read [OF assms(1,2), of K False]
      by (simp add: parse_token0_def Let_def with_list_def)
  next
    case True
    let ?st = "st\<lparr>participants := Some (Fence_list (length (test_fences st))),
      test_fences := test_fences st @ [new_fence\<lparr>data_exchange := f_data f, blocking := f_block f\<rparr>]\<rparr>"
    have ok: "parser_ok ?st" by (simp add: parser_ok_def)
    have ns: "cur_ns ?st = cur_ns st" by simp
    have "add_participants (concat (map (procs_of K) (f_nss f))) ?st =
        st\<lparr>test_fences := test_fences st @ [fence_of K f],
          participants := Some (Fence_list (length (test_fences st)))\<rparr>"
      by (simp add: add_participants_def fence_of_def new_fence_def nth_append)
    then show ?thesis
      using True s fl token1_read [OF assms(1) ok, of K True]
      by (cases "f_nss f = []") (simp_all add: parse_token0_def Let_def with_list_def list_update_append)
  qed
  then show ?thesis unfolding txt_eq .
qed

lemma fence_loop_step:
  assumes "CHR '']'' \<notin> set x"
  shows "fence_loop K store (CHR ''['' # x @ CHR '']'' # rest) ret st =
    (case parse_token0 K store x st of (r, st') \<Rightarrow> fence_loop K store rest (ret + r) st')"
proof -
  have "dropWhile (\<lambda>c. c \<noteq> CHR '']'') (x @ CHR '']'' # rest) = CHR '']'' # rest"
    "takeWhile (\<lambda>c. c \<noteq> CHR '']'') (x @ CHR '']'' # rest) = x"
    using assms by (rule dropWhile_stop, rule takeWhile_stop)
  then show ?thesis by (subst fence_loop.simps) (simp add: Let_def)
qed

text \<open>What storing the fences does to the state; the current namespace is the last one named.\<close>

lemma fences_read:
  "list_all (\<lambda>f. list_all ns_ok (f_nss f)) fs \<Longrightarrow> parser_ok st \<Longrightarrow>
    \<exists>st'. fence_loop K store (show_fences fs) ret st = (ret, st') \<and> parser_ok st' \<and>
      noise_range st' = noise_range st \<and>
      test_fences st' = test_fences st @ (if store then map (fence_of K) fs else []) \<and>
      participants st' = (if store \<and> fs \<noteq> [] then Some (Fence_list (length (test_fences st) + length fs - 1))
        else participants st)"
proof (induction fs arbitrary: st)
  case Nil
  then show ?case by (subst fence_loop.simps) (simp add: show_fences_def)
next
  case (Cons f fs)
  define x where "x = (if f_data f then ''d'' else []) @ (if f_block f then ''b'' else []) @
    CHR ''|'' # show_nss (f_nss f)"
  have txt_eq: "show_fences (f # fs) = CHR ''['' # x @ CHR '']'' # show_fences fs"
    by (simp add: show_fences_def show_fence_def x_def)
  have "CHR '']'' \<notin> set x" using show_nss_free by (auto simp: x_def)
  note step = fence_loop_step [OF this, of K store "show_fences fs" ret st]
  let ?st = "(if store then st\<lparr>test_fences := test_fences st @ [fence_of K f],
      participants := Some (Fence_list (length (test_fences st)))\<rparr> else st)
    \<lparr>cur_ns := (if f_nss f = [] then cur_ns st else int (fst (last (f_nss f))))\<rparr>"
  have t: "parse_token0 K store x st = (0, ?st)"
    unfolding x_def using Cons.prems by (intro token0_read) auto
  have "parser_ok ?st" using Cons.prems(2) by (auto simp: parser_ok_def split: option.splits plist.splits)
  with Cons.IH [of ?st] Cons.prems(1) obtain st' where
    "fence_loop K store (show_fences fs) ret ?st = (ret, st')" "parser_ok st'"
    "noise_range st' = noise_range ?st"
    "test_fences st' = test_fences ?st @ (if store then map (fence_of K) fs else [])"
    "participants st' = (if store \<and> fs \<noteq> [] then Some (Fence_list (length (test_fences ?st) + length fs - 1))
        else participants ?st)" by auto
  then show ?case
    unfolding txt_eq step t by (cases store; cases fs) auto
qed

section \<open>Properties\<close>

definition sample_consts :: pmix_consts where
  "sample_consts = \<lparr>max_nslen = 255, max_keylen = 511, rank_undef = - 1, rank_wildcard = - 2\<rparr>"

definition start_parser :: parser where
  "start_parser = \<lparr>cur_ns = - 1, test_fences = [], participants = None, noise_range = None\<rparr>"

definition sample_fences :: "fence_item list" where
  "sample_fences = [\<lparr>f_data = True, f_block = False, f_nss = [(0, [One 3, Range 5 7]), (1, [])]\<rparr>]"



text \<open>
  A noise description stores its participants in a list of its own, but only when no
  fence was stored before; after a fence the participants of the noise are added to the last
  fence and \<open>noise_range\<close> stays as it was.
\<close>

lemma parse_noise_target:
  assumes "list_all ns_ok xs" "parser_ok st"
  shows "\<exists>st'. parse_noise K (CHR ''['' # show_nss xs @ '']'') True st = (0, st') \<and>
    (case participants st of
       None \<Rightarrow> noise_range st' = Some (concat (map (procs_of K) xs)) \<and> test_fences st' = test_fences st
     | Some Noise_list \<Rightarrow> noise_range st' = Some (the (noise_range st) @ concat (map (procs_of K) xs))
     | Some (Fence_list i) \<Rightarrow> noise_range st' = noise_range st \<and>
         fence_participants (test_fences st' ! i) =
           fence_participants (test_fences st ! i) @ concat (map (procs_of K) xs))"
proof -
  have free: "CHR '']'' \<notin> set (show_nss xs)" using show_nss_free by blast
  have "strchr (CHR ''['' # show_nss xs @ '']'') CHR ''['' = Some (CHR ''['' # show_nss xs @ '']'')"
    by (simp add: strchr_def)
  moreover have "strchr (show_nss xs @ CHR '']'' # []) CHR '']'' = Some '']''"
    using free by (rule strchr_append)
  moreover have "takeWhile (\<lambda>c. c \<noteq> CHR '']'') (show_nss xs @ CHR '']'' # []) = show_nss xs"
    using free by (rule takeWhile_stop)
  ultimately have "parse_noise K (CHR ''['' # show_nss xs @ '']'') True st = parse_token1 K True (show_nss xs) st"
    by (simp add: parse_noise_def)
  then show ?thesis
    using token1_read [OF assms, of K True] assms(2)
    by (auto simp: with_list_def add_participants_def parser_ok_def split: option.splits plist.splits)
qed

section \<open>The keys to replace\<close>

text \<open>What the loop makes of the fields \<open>fs\<close> of its text, for a number \<open>cnt\<close> of keys.\<close>

definition key_ok :: "int \<Rightarrow> string \<Rightarrow> bool" where
  "key_ok cnt f \<longleftrightarrow> is_digit f \<and> atoi f < cnt"

definition keys_of :: "int \<Rightarrow> string list \<Rightarrow> int list" where
  "keys_of cnt fs = map atoi (takeWhile (key_ok cnt) (if last fs = [] then butlast fs else fs))"

definition all_keys_ok :: "int \<Rightarrow> string list \<Rightarrow> bool" where
  "all_keys_ok cnt fs \<longleftrightarrow> last fs \<noteq> [] \<and> (\<forall>f \<in> set fs. key_ok cnt f)"

lemma keys_of_Cons:
  "fs \<noteq> [] \<Longrightarrow> keys_of cnt (f # fs) = (if key_ok cnt f then atoi f # keys_of cnt fs else [])"
  "keys_of cnt [f] = (if f \<noteq> [] \<and> key_ok cnt f then [atoi f] else [])"
  by (auto simp: keys_of_def)

lemma replace_loop_step:
  assumes "s \<noteq> []" "length t < 32" "atoi t < int_max" "t = takeWhile (\<lambda>c. c \<noteq> CHR '','') s"
    "e = dropWhile (\<lambda>c. c \<noteq> CHR '','') s"
  shows "replace_loop store cnt s keys =
    (if key_ok cnt t
     then (if e = [] then Some (0, if store then keys @ [atoi t] else keys)
           else replace_loop store cnt (tl e) (if store then keys @ [atoi t] else keys))
     else Some (1, keys))"
proof -
  have "\<not> 32 \<le> length t" "\<not> atoi t + 1 > int_max" "(atoi t + 1 > cnt) = (\<not> atoi t < cnt)"
    using assms(2,3) by auto
  then show ?thesis
    using assms(1) unfolding replace_loop.simps [of store cnt s keys] assms(4,5) [symmetric] Let_def key_ok_def
    by simp
qed

lemma replace_loop_spec:
  "\<forall>f \<in> set (Argv.fields CHR '','' s). length f < 32 \<and> atoi f < int_max \<Longrightarrow>
    replace_loop store cnt s keys =
      Some (if all_keys_ok cnt (Argv.fields CHR '','' s) then 0 else 1,
        keys @ (if store then keys_of cnt (Argv.fields CHR '','' s) else []))"
proof (induction s arbitrary: keys rule: measure_induct_rule [of length])
  case (less s)
  define t where "t = takeWhile (\<lambda>c. c \<noteq> CHR '','') s"
  define e where "e = dropWhile (\<lambda>c. c \<noteq> CHR '','') s"
  show ?case
  proof (cases "s = []")
    case True
    then show ?thesis by (subst replace_loop.simps) (simp add: all_keys_ok_def keys_of_Cons)
  next
    case s: False
    have fs: "Argv.fields CHR '','' s = t # (if e = [] then [] else Argv.fields CHR '','' (tl e))"
      unfolding t_def e_def using fields_unfold [of "CHR '',''" s] by (simp only: Let_def)
    then have t: "length t < 32" "atoi t < int_max" using less.prems by simp_all
    have nonempty: "e = [] \<Longrightarrow> t \<noteq> []"
      using s unfolding t_def e_def by (cases s) (simp_all split: if_splits)
    note step = replace_loop_step [OF s t t_def e_def, of store cnt keys]
    let ?keys = "if store then keys @ [atoi t] else keys"
    consider "\<not> key_ok cnt t" | "key_ok cnt t" "e = []" | "key_ok cnt t" "e \<noteq> []" by blast
    then show ?thesis
    proof cases
      case 1
      then show ?thesis using step by (simp add: fs all_keys_ok_def keys_of_Cons)
    next
      case 2
      then show ?thesis using step nonempty by (simp add: fs all_keys_ok_def keys_of_Cons)
    next
      case 3
      then have "length (tl e) < length s"
        using length_dropWhile_le [of "\<lambda>c. c \<noteq> CHR '',''" s] unfolding e_def [symmetric] by (cases e) auto
      moreover have "\<forall>f \<in> set (Argv.fields CHR '','' (tl e)). length f < 32 \<and> atoi f < int_max"
        using 3 less.prems unfolding fs by simp
      ultimately have "replace_loop store cnt (tl e) ?keys =
          Some (if all_keys_ok cnt (Argv.fields CHR '','' (tl e)) then 0 else 1,
            ?keys @ (if store then keys_of cnt (Argv.fields CHR '','' (tl e)) else []))"
        by (rule less.IH)
      with 3 step show ?thesis by (simp add: fs all_keys_ok_def keys_of_Cons)
    qed
  qed
qed

text \<open>
  C35: the list of keys to replace is accepted exactly when every field is a number below the
  number of keys and the last field is not empty; the keys before the first wrong field are
  stored. An empty field in the middle counts as key 0.
\<close>

theorem parse_replace_spec:
  assumes "CHR '':'' \<notin> set n" "length n < 32"
    "\<forall>f \<in> set (Argv.fields CHR '','' ks). length f < 32 \<and> atoi f < int_max"
  shows "parse_replace (Some (n @ CHR '':'' # ks)) store =
    Some (if last (Argv.fields CHR '','' ks) \<noteq> [] \<and>
            (\<forall>f \<in> set (Argv.fields CHR '','' ks). is_digit f \<and> atoi f < atoi n) then 0 else 1,
      atoi n, if store then keys_of (atoi n) (Argv.fields CHR '','' ks) else [])"
  using assms replace_loop_spec [OF assms(3), of store "atoi n" "[]"]
  by (simp add: parse_replace_def strchr_append takeWhile_stop Let_def all_keys_ok_def key_ok_def)

theorem parse_replace_spec_witness:
  "parse_replace (Some ''3:1,,2'') True = Some (0, 3, [1, 0, 2]) \<and>
   parse_replace (Some ''3:1,3'') False = Some (1, 3, [])"
proof -
  have "(\<forall>f \<in> set (Argv.fields CHR '','' ''1,,2''). length f < 32 \<and> atoi f < int_max) \<and>
      last (Argv.fields CHR '','' ''1,,2'') \<noteq> [] \<and>
      (\<forall>f \<in> set (Argv.fields CHR '','' ''1,,2''). is_digit f \<and> atoi f < atoi ''3'') \<and>
      keys_of 3 (Argv.fields CHR '','' ''1,,2'') = [1, 0, 2] \<and> atoi ''3'' = 3" by code_simp
  moreover have "(\<forall>f \<in> set (Argv.fields CHR '','' ''1,3''). length f < 32 \<and> atoi f < int_max) \<and>
      \<not> (\<forall>f \<in> set (Argv.fields CHR '','' ''1,3''). is_digit f \<and> atoi f < atoi ''3'')" by code_simp
  ultimately show ?thesis
    using parse_replace_spec [of "''3''" "''1,,2''" True] parse_replace_spec [of "''3''" "''1,3''" False]
    by simp
qed

section \<open>The distribution over namespaces\<close>

lemma find_dist_here [simp]: "find_dist ts n n r = (n, r)"
  by (subst find_dist.simps) simp

lemma find_dist_Nil: "find_dist [] n m r = (n, r)"
  by (subst find_dist.simps) simp

lemma find_dist_Cons: "n \<noteq> m \<Longrightarrow> find_dist (t # ts) n m r = find_dist ts (n + 1) m (word_of_int (strtol t))"
  by (subst find_dist.simps) simp

lemma find_dist_spec:
  "num < ns \<Longrightarrow> find_dist ts num ns r =
    (if nat (ns - num) \<le> length ts then (ns, word_of_int (strtol (ts ! (nat (ns - num) - 1))))
     else (num + int (length ts), if ts = [] then r else word_of_int (strtol (last ts))))"
proof (induction ts arbitrary: num r)
  case Nil
  then show ?case by (simp add: find_dist_Nil)
next
  case (Cons t ts)
  show ?case
  proof (cases "num + 1 = ns")
    case True
    then have "nat (ns - num) = 1" by simp
    then show ?thesis
      using True Cons.prems by (simp add: find_dist_Cons)
  next
    case False
    with Cons.prems have lt: "num + 1 < ns" by simp
    obtain k where k: "nat (ns - num) = Suc (Suc k)" "nat (ns - (num + 1)) = Suc k"
    proof
      show "nat (ns - num) = Suc (Suc (nat (ns - num - 2)))" "nat (ns - (num + 1)) = Suc (nat (ns - num - 2))"
        using lt by auto
    qed
    show ?thesis
      using Cons.prems False Cons.IH [OF lt, of "word_of_int (strtol t)"]
      by (simp add: find_dist_Cons k)
  qed
qed

lemma tokens_counts:
  "tokens CHR '':'' (join_with CHR '':'' (map decimal_nat ns)) = map decimal_nat ns"
  by (rule tokens_join) (auto simp: decimal_nat_digits decimal_nat_free is_digit_char_def)

definition all_procs :: "string \<Rightarrow> nat \<Rightarrow> proc list" where
  "all_procs name n = map (\<lambda>j. \<lparr>nspace = name, prank = of_nat j\<rparr>) [0..<n]"

lemma ranks_of_namespace:
  assumes "\<forall>n \<in> set ns. int n \<le> int_max" "int i \<le> int_max" "length (ns_name K (int i)) \<le> max_nslen K"
    "ns_name K (int i) = TEST_NAMESPACE @ CHR ''-'' # decimal (int i)"
  shows "get_all_ranks_from_namespace K (Some (join_with CHR '':'' (map decimal_nat ns))) sz (ns_name K (int i)) =
    Some (if i < length ns \<and> ns ! i \<noteq> 0 then (PMIX_SUCCESS, all_procs (ns_name K (int i)) (ns ! i))
      else (PMIX_ERROR, []))"
proof -
  have i: "strtol_int (drop (length TEST_NAMESPACE + 1) (ns_name K (int i))) = int i"
    using assms(2,4) by (simp add: decimal_def strtol_int_decimal)
  have count: "word_of_int (strtol (decimal_nat n)) = (word_of_nat n :: u64)" "unat (word_of_nat n :: u64) = n"
    if "n \<in> set ns" for n
    using assms(1) that strtol_decimal_nat [of n "[]"]
    by (force simp: int_max_def long_max_def unat_of_nat)+
  have zero: "(word_of_nat n :: u64) = 0 \<longleftrightarrow> n = 0" if "n \<in> set ns" for n
  proof
    assume "(word_of_nat n :: u64) = 0"
    then show "n = 0" using count(2) [OF that] by (simp only: unat_0)
  qed simp
  have "\<not> length (ns_name K (int i)) < length TEST_NAMESPACE + 1" using assms(4) by simp
  note facts = this i assms(3)
  note defs = get_all_ranks_from_namespace_def tokens_counts Let_def seq_procs_def all_procs_def
  have d: "find_dist (map decimal_nat ns) (- 1) (int i) 0 =
      (if i < length ns then (int i, word_of_nat (ns ! i))
       else (int (length ns) - 1, if ns = [] then 0 else word_of_int (strtol (decimal_nat (last ns)))))"
    using find_dist_spec [of "- 1" "int i" "map decimal_nat ns" 0] count(1) [of "ns ! i"]
    by (simp add: nat_add_distrib Suc_le_eq last_map)
  show ?thesis
  proof (cases "i < length ns")
    case True
    then have "ns ! i \<in> set ns" by simp
    then show ?thesis using True d zero count(2) facts by (simp add: defs)
  next
    case False
    then show ?thesis using d facts by (simp add: defs)
  qed
qed

text \<open>
  With the sizes of the namespaces given by the distribution option, there are as many
  namespaces as sizes, and the participants of namespace \<open>i\<close> are its ranks from 0 up to its
  size; an empty namespace and a number that is too large are errors.
\<close>

lemma namespace_distribution:
  assumes "\<forall>n \<in> set ns. int n \<le> int_max" "int i \<le> int_max"
    "length (TEST_NAMESPACE @ CHR ''-'' # decimal (int i)) < max_nslen K"
    "d = join_with CHR '':'' (map decimal_nat ns)"
  shows "get_total_ns_number (Some d) = int (length ns) \<and>
    get_all_ranks_from_namespace K (Some d) sz (ns_name K (int i)) =
      Some (if i < length ns \<and> ns ! i \<noteq> 0
        then (PMIX_SUCCESS, map (\<lambda>j. \<lparr>nspace = ns_name K (int i), prank = of_nat j\<rparr>) [0..<ns ! i])
        else (PMIX_ERROR, []))"
proof
  show "get_total_ns_number (Some d) = int (length ns)"
    by (simp add: assms(4) get_total_ns_number_def tokens_counts)
  have "ns_name K (int i) = TEST_NAMESPACE @ CHR ''-'' # decimal (int i)"
    using assms(3) by (simp add: ns_name_def)
  then show "get_all_ranks_from_namespace K (Some d) sz (ns_name K (int i)) =
      Some (if i < length ns \<and> ns ! i \<noteq> 0
        then (PMIX_SUCCESS, map (\<lambda>j. \<lparr>nspace = ns_name K (int i), prank = of_nat j\<rparr>) [0..<ns ! i])
        else (PMIX_ERROR, []))"
    using ranks_of_namespace [OF assms(1,2)] assms(3) by (simp add: assms(4) all_procs_def)
qed

end
