(* ===== verification/ClientArgv.thy ===== *)
theory ClientArgv
  imports Parsing "HOL-Library.Monad_Syntax"
begin

text \<open>
  The parameters of a test run: \<open>test_params\<close> and its initial values (test_common.h), the option
  parser \<open>parse_cmd\<close> (test_common.c), the arguments the server passes to its clients
  (\<open>set_client_argv\<close> of utils.c and the launch loop of test_server.c). The parser writes the
  usage text and error messages to stderr; they are not modelled, \<open>exit\<close> is.
\<close>

section \<open>Parameters\<close>

record test_params =
  binary :: "string option"
  np :: "string option"
  prefix :: "string option"
  pnspace :: "string option"              \<comment> \<open>\<open>nspace\<close>\<close>
  nprocs :: u32
  timeout :: int
  verbose :: int
  rank :: pmix_rank_t
  early_fail :: int
  test_job_fence :: int
  collect_bad :: int
  use_same_keys :: int
  collect :: int
  nonblocking :: int
  fences :: "string option"
  noise :: "string option"
  ns_dist :: "string option"
  ns_size :: int
  ns_id :: int
  base_rank :: pmix_rank_t
  test_publish :: int
  test_spawn :: int
  test_connect :: int
  test_resolve_peers :: int
  test_error :: int
  key_replace :: "string option"
  test_internal :: int
  gds_mode :: "string option"
  nservers :: int
  lsize :: u32

definition TEST_DEFAULT_TIMEOUT :: int where
  "TEST_DEFAULT_TIMEOUT = 10"

definition TEST_REPLACE_DEFAULT :: string where
  "TEST_REPLACE_DEFAULT = ''3:1''"

definition INIT_TEST_PARAMS :: "pmix_consts \<Rightarrow> test_params" where
  "INIT_TEST_PARAMS K = \<lparr>
     binary = None, np = None, prefix = None, pnspace = None, nprocs = 1,
     timeout = TEST_DEFAULT_TIMEOUT, verbose = 0, rank = rank_undef K, early_fail = 0,
     test_job_fence = 0, collect_bad = 0, use_same_keys = 0, collect = 0, nonblocking = 0,
     fences = None, noise = None, ns_dist = None, ns_size = - 1, ns_id = - 1, base_rank = 0,
     test_publish = 0, test_spawn = 0, test_connect = 0, test_resolve_peers = 0, test_error = 0,
     key_replace = None, test_internal = 0, gds_mode = None, nservers = 1, lsize = 0\<rparr>"

section \<open>Options\<close>

text \<open>
  One option \<open>a\<close>; \<open>arg\<close> is the following entry of \<open>argv\<close> (\<open>None\<close> for the NULL at its end).
  The result says whether the index was moved past that entry. \<open>Stop c\<close> is \<open>exit(c)\<close>; \<open>Crash\<close> is
  a call with undefined behaviour: \<open>strdup(NULL)\<close>, or what \<open>parse_replace\<close> does without a colon.
\<close>

datatype step = Next bool test_params | Stop int | Crash

definition operand :: "string option \<Rightarrow> test_params \<Rightarrow> (string \<Rightarrow> step) \<Rightarrow> step" where
  "operand arg p f = (case arg of None \<Rightarrow> Next True p | Some v \<Rightarrow> f v)"

text \<open>The checks run on the initial static variables of the parsers; they do not depend on them.\<close>

definition fence_check :: "pmix_consts \<Rightarrow> string \<Rightarrow> int" where
  "fence_check K v = fst (parse_fence K v False start_parser)"

definition noise_check :: "pmix_consts \<Rightarrow> string \<Rightarrow> int" where
  "noise_check K v = fst (parse_noise K v False start_parser)"

definition starts_with_dash :: "string \<Rightarrow> bool" where
  "starts_with_dash v \<longleftrightarrow> v \<noteq> [] \<and> hd v = CHR ''-''"

definition to_u32 :: "int \<Rightarrow> u32" where
  "to_u32 v = word_of_int v"

definition opt_np :: "string \<Rightarrow> test_params \<Rightarrow> test_params" where
  "opt_np v p =
     (let n = to_u32 (strtol v)
      in p\<lparr>np := Some v, nprocs := n, ns_size := (if ns_size p = - 1 then sint n else ns_size p)\<rparr>)"

definition opt_timeout :: "string \<Rightarrow> test_params \<Rightarrow> test_params" where
  "opt_timeout v p = p\<lparr>timeout := (if atoi v = 0 then TEST_DEFAULT_TIMEOUT else atoi v)\<rparr>"

definition opt_replace :: "string option \<Rightarrow> test_params \<Rightarrow> step" where
  "opt_replace arg p =
     (case arg of
        Some v \<Rightarrow>
          if \<not> starts_with_dash v then
            (case parse_replace (Some v) False of
               None \<Rightarrow> Crash
             | Some (ret, _) \<Rightarrow> if ret \<noteq> 0 then Stop 1 else Next True (p\<lparr>key_replace := Some v\<rparr>))
          else Next True (p\<lparr>key_replace := Some TEST_REPLACE_DEFAULT\<rparr>)
      | None \<Rightarrow> Next True (p\<lparr>key_replace := Some TEST_REPLACE_DEFAULT\<rparr>))"

definition opt_internal :: "string option \<Rightarrow> test_params \<Rightarrow> step" where
  "opt_internal arg p =
     (case arg of
        Some v \<Rightarrow> Next True (p\<lparr>test_internal := (if \<not> starts_with_dash v then strtol_int v else 1)\<rparr>)
      | None \<Rightarrow> Next True (p\<lparr>test_internal := 1\<rparr>))"

definition parse_option :: "pmix_consts \<Rightarrow> string \<Rightarrow> string option \<Rightarrow> test_params \<Rightarrow> step" where
  "parse_option K a arg p =
     (if a = ''--n'' \<or> a = ''-n'' then operand arg p (\<lambda>v. Next True (opt_np v p))
      else if a = ''--h'' \<or> a = ''-h'' then Stop 0
      else if a = ''--exec'' \<or> a = ''-e'' then operand arg p (\<lambda>v. Next True (p\<lparr>binary := Some v\<rparr>))
      else if a = ''--nservers'' \<or> a = ''-s'' then operand arg p (\<lambda>v. Next True (p\<lparr>nservers := atoi v\<rparr>))
      else if a = ''--verbose'' \<or> a = ''-v'' then Next False (p\<lparr>verbose := 1\<rparr>)
      else if a = ''--timeout'' \<or> a = ''-t'' then operand arg p (\<lambda>v. Next True (opt_timeout v p))
      else if a = ''-o'' then operand arg p (\<lambda>v. Next True (p\<lparr>prefix := Some v\<rparr>))
      else if a = ''-s'' then operand arg p (\<lambda>v. Next True (p\<lparr>pnspace := Some v\<rparr>))
      else if a = ''--rank'' \<or> a = ''-r'' then operand arg p (\<lambda>v. Next True (p\<lparr>rank := to_u32 (strtol v)\<rparr>))
      else if a = ''--early-fail'' then Next False (p\<lparr>early_fail := 1\<rparr>)
      else if a = ''--fence'' then
        operand arg p (\<lambda>v. if fence_check K v \<noteq> 0 then Stop 1 else Next True (p\<lparr>fences := Some v\<rparr>))
      else if a = ''--use-same-keys'' then Next False (p\<lparr>use_same_keys := 1\<rparr>)
      else if a = ''--job-fence'' then Next False (p\<lparr>test_job_fence := 1\<rparr>)
      else if a = ''--collect-corrupt'' then Next False (p\<lparr>collect_bad := 1\<rparr>)
      else if a = ''--collect'' \<or> a = ''-c'' then Next False (p\<lparr>collect := 1\<rparr>)
      else if a = ''--non-blocking'' \<or> a = ''-nb'' then Next False (p\<lparr>nonblocking := 1\<rparr>)
      else if a = ''--noise'' then
        operand arg p (\<lambda>v. if noise_check K v \<noteq> 0 then Stop 1 else Next True (p\<lparr>noise := Some v\<rparr>))
      else if a = ''--ns-dist'' then operand arg p (\<lambda>v. Next True (p\<lparr>ns_dist := Some v\<rparr>))
      else if a = ''--ns-size'' then operand arg p (\<lambda>v. Next True (p\<lparr>ns_size := strtol_int v\<rparr>))
      else if a = ''--ns-id'' then operand arg p (\<lambda>v. Next True (p\<lparr>ns_id := strtol_int v\<rparr>))
      else if a = ''--base-rank'' then operand arg p (\<lambda>v. Next True (p\<lparr>base_rank := to_u32 (strtol v)\<rparr>))
      else if a = ''--test-publish'' then Next False (p\<lparr>test_publish := 1\<rparr>)
      else if a = ''--test-spawn'' then Next False (p\<lparr>test_spawn := 1\<rparr>)
      else if a = ''--test-connect'' then Next False (p\<lparr>test_connect := 1\<rparr>)
      else if a = ''--test-resolve-peers'' then Next False (p\<lparr>test_resolve_peers := 1\<rparr>)
      else if a = ''--test-error'' then Next False (p\<lparr>test_error := 1\<rparr>)
      else if a = ''--test-replace'' then opt_replace arg p
      else if a = ''--test-internal'' then opt_internal arg p
      else if a = ''--gds'' then
        (case arg of None \<Rightarrow> Crash | Some v \<Rightarrow> Next True (p\<lparr>gds_mode := Some v\<rparr>))
      else Stop 1)"

text \<open>The loop over \<open>argv[1]\<close>, \<open>argv[2]\<close>, ...: \<open>None\<close> is a crash, \<open>Inl c\<close> is \<open>exit(c)\<close>.\<close>

function parse_args :: "pmix_consts \<Rightarrow> string list \<Rightarrow> test_params \<Rightarrow> (int + test_params) option" where
  "parse_args K [] p = Some (Inr p)"
| "parse_args K (a # as) p =
     (case parse_option K a (case as of [] \<Rightarrow> None | v # _ \<Rightarrow> Some v) p of
        Crash \<Rightarrow> None
      | Stop c \<Rightarrow> Some (Inl c)
      | Next used p' \<Rightarrow> parse_args K (if used then tl as else as) p')"
  by pat_completeness auto
termination
  by (relation "measure (\<lambda>(K, as, p). length as)") auto

text \<open>What follows the loop; \<open>env\<close> is \<open>getenv\<close>, \<open>cp\<close> the copy function of \<open>pmix_argv_split\<close>.\<close>

definition slurm_rank ::
  "(string \<Rightarrow> nat \<Rightarrow> string) \<Rightarrow> string \<Rightarrow> string \<Rightarrow> test_params \<Rightarrow> (int + test_params) option" where
  "slurm_rank cp ranklist rankno p =
     (let argv = fst (pmix_argv_split cp [] (Some ranklist) CHR '','');
          rankidx = int32 (strtoul rankno)
      in if pmix_argv_count argv \<le> rankidx then Some (Inl 1)
         else if rankidx < 0 then None
         else Some (Inr (p\<lparr>rank := to_u32 (strtoul (strings argv ! nat rankidx))\<rparr>)))"

definition fix_params ::
  "pmix_consts \<Rightarrow> (string \<Rightarrow> nat \<Rightarrow> string) \<Rightarrow> (string \<Rightarrow> string option) \<Rightarrow> test_params
    \<Rightarrow> (int + test_params) option" where
  "fix_params K cp env p =
     (let p = (if binary p = None then p\<lparr>binary := Some ''./pmix_client''\<rparr> else p);
          p = (if collect_bad p \<noteq> 0 then p\<lparr>collect := uint (rank p) mod 2\<rparr> else p);
          q = (if rank p = rank_undef K
               then (case (env ''SLURM_GTIDS'', env ''SLURM_LOCALID'') of
                       (Some ranklist, Some rankno) \<Rightarrow> slurm_rank cp ranklist rankno p
                     | _ \<Rightarrow> Some (Inr p))
               else Some (Inr p))
      in case q of
           Some (Inr p) \<Rightarrow>
             Some (Inr (if pnspace p = None then p\<lparr>pnspace := env ''PMIX_NAMESPACE''\<rparr> else p))
         | stopped \<Rightarrow> stopped)"

definition parse_cmd ::
  "pmix_consts \<Rightarrow> (string \<Rightarrow> nat \<Rightarrow> string) \<Rightarrow> (string \<Rightarrow> string option) \<Rightarrow> string list \<Rightarrow> test_params
    \<Rightarrow> (int + test_params) option" where
  "parse_cmd K cp env args params =
     (case parse_args K args (params\<lparr>pnspace := None\<rparr>) of
        Some (Inr p) \<Rightarrow> fix_params K cp env p
      | stopped \<Rightarrow> stopped)"

section \<open>Arguments of the clients\<close>

definition push :: "argv \<Rightarrow> string \<Rightarrow> argv" where
  "push v s = fst (snd (pmix_argv_append_nosize [] v s))"

definition flag :: "int \<Rightarrow> string \<Rightarrow> string list" where
  "flag v name = (if v \<noteq> 0 then [name] else [])"

definition option_with :: "string option \<Rightarrow> string \<Rightarrow> string list" where
  "option_with v name = (case v of None \<Rightarrow> [] | Some s \<Rightarrow> [name, s])"

text \<open>The strings \<open>set_client_argv\<close> appends after the name of the program, in order.\<close>

definition client_options :: "test_params \<Rightarrow> string list" where
  "client_options p =
     [''-n'', case np p of None \<Rightarrow> ''1'' | Some n \<Rightarrow> n] @
     flag (verbose p) ''-v'' @
     option_with (prefix p) ''-o'' @
     flag (early_fail p) ''--early-fail'' @
     (case fences p of None \<Rightarrow> [] | Some f \<Rightarrow> [''--fence'', f] @ flag (use_same_keys p) ''--use-same-keys'') @
     (if test_job_fence p \<noteq> 0 then
        ''--job-fence'' # flag (nonblocking p) ''-nb'' @ flag (collect p) ''-c'' @
        flag (collect_bad p) ''--collect-corrupt'' else []) @
     option_with (noise p) ''--noise'' @
     option_with (ns_dist p) ''--ns-dist'' @
     flag (test_publish p) ''--test-publish'' @
     flag (test_spawn p) ''--test-spawn'' @
     flag (test_connect p) ''--test-connect'' @
     flag (test_resolve_peers p) ''--test-resolve-peers'' @
     flag (test_error p) ''--test-error'' @
     option_with (key_replace p) ''--test-replace'' @
     (if test_internal p \<noteq> 0 then [''--test-internal'', decimal (test_internal p)] else []) @
     option_with (gds_mode p) ''--gds''"

text \<open>\<open>None\<close> without a program name (\<open>strdup(NULL)\<close>); allocations are taken to succeed.\<close>

definition set_client_argv :: "test_params \<Rightarrow> argv \<Rightarrow> argv option" where
  "set_client_argv p argv =
     (case binary p of None \<Rightarrow> None | Some b \<Rightarrow> Some (foldl push argv (b # client_options p)))"

text \<open>
  The arguments of the client of rank \<open>r\<close>, from the common ones. The ranks and sizes are printed
  into \<open>char digit[MAX_DIGIT_LEN]\<close>, so a number of more than nine characters is written past its
  end: \<open>None\<close>.
\<close>

definition MAX_DIGIT_LEN :: nat where
  "MAX_DIGIT_LEN = 10"

definition print_digit :: "int \<Rightarrow> string option" where
  "print_digit v = (if length (decimal v) < MAX_DIGIT_LEN then Some (decimal v) else None)"

definition client_argv :: "argv \<Rightarrow> pmix_rank_t \<Rightarrow> string \<Rightarrow> int \<Rightarrow> int \<Rightarrow> argv option" where
  "client_argv base_argv r name univ_size num_ns =
     do { v \<leftarrow> map_option fst (pmix_argv_copy [] base_argv);
          rs \<leftarrow> print_digit (sint r);
          us \<leftarrow> print_digit univ_size;
          ns \<leftarrow> print_digit num_ns;
          zs \<leftarrow> print_digit 0;
          Some (foldl push v [''-r'', rs, ''-s'', name, ''--ns-size'', us, ''--ns-id'', ns, ''--base-rank'', zs]) }"

section \<open>The checks do not depend on the static variables\<close>

text \<open>Without \<open>store\<close> the result code of a parser does not depend on the static variables.\<close>

lemma token2_check: "fst (parse_token2 K False s st) = fst (parse_token2 K False s st')"
  by (simp add: parse_token2_def parse_token3_def Let_def split: option.splits)

lemma namespaces_check: "fst (parse_namespaces K False ts st) = fst (parse_namespaces K False ts st')"
proof (induction ts arbitrary: st st')
  case (Cons t ts)
  then show ?case
    using token2_check [of K t st st'] by (auto simp: split: prod.splits)
qed simp

lemma token1_check: "fst (parse_token1 K False s st) = fst (parse_token1 K False s st')"
  using namespaces_check [of K "tokens CHR '';'' s" st st'] by (simp add: parse_token1_def)

lemma token0_check: "fst (parse_token0 K False s st) = fst (parse_token0 K False s st')"
  using token1_check [of K _ st st']
  by (auto simp: parse_token0_def Let_def split: option.splits prod.splits) (metis fst_conv)+

lemma fence_loop_check: "fst (fence_loop K False s ret st) = fst (fence_loop K False s ret st')"
proof (induction s arbitrary: ret st st' rule: measure_induct_rule [of length])
  case (less s)
  define p where "p = dropWhile (\<lambda>c. c \<noteq> CHR ''['') s"
  define q where "q = dropWhile (\<lambda>c. c \<noteq> CHR '']'') (tl p)"
  define t where "t = takeWhile (\<lambda>c. c \<noteq> CHR '']'') (tl p)"
  have unfold: "fence_loop K False s ret x =
      (if p = [] then (ret, x) else if q = [] then (1, x)
       else (case parse_token0 K False t x of (r, x') \<Rightarrow> fence_loop K False (tl q) (ret + r) x'))" for x
    unfolding p_def q_def t_def by (subst fence_loop.simps) (simp only: Let_def)
  have "length p \<le> length s" "length q \<le> length (tl p)" unfolding p_def q_def by (rule length_dropWhile_le)+
  then have "length (tl q) < length s" if "q \<noteq> []" using that by (cases q) auto
  then show ?case
    using less.IH token0_check [of K t st st'] unfolding unfold by (auto split: prod.splits)
qed

lemma fence_check_eq: "fst (parse_fence K s False st) = fst (parse_fence K s False st')"
  by (simp add: parse_fence_def fence_loop_check [of K s 0 st st'])

lemma noise_check_eq: "fst (parse_noise K s False st) = fst (parse_noise K s False st')"
  by (auto simp: parse_noise_def token1_check [of K _ st st'] split: option.splits)

section \<open>The options one by one\<close>

lemma parse_flag:
  "parse_args K (''-v'' # as) p = parse_args K as (p\<lparr>verbose := 1\<rparr>)"
  "parse_args K (''--early-fail'' # as) p = parse_args K as (p\<lparr>early_fail := 1\<rparr>)"
  "parse_args K (''--use-same-keys'' # as) p = parse_args K as (p\<lparr>use_same_keys := 1\<rparr>)"
  "parse_args K (''--job-fence'' # as) p = parse_args K as (p\<lparr>test_job_fence := 1\<rparr>)"
  "parse_args K (''-nb'' # as) p = parse_args K as (p\<lparr>nonblocking := 1\<rparr>)"
  "parse_args K (''-c'' # as) p = parse_args K as (p\<lparr>collect := 1\<rparr>)"
  "parse_args K (''--collect-corrupt'' # as) p = parse_args K as (p\<lparr>collect_bad := 1\<rparr>)"
  "parse_args K (''--test-publish'' # as) p = parse_args K as (p\<lparr>test_publish := 1\<rparr>)"
  "parse_args K (''--test-spawn'' # as) p = parse_args K as (p\<lparr>test_spawn := 1\<rparr>)"
  "parse_args K (''--test-connect'' # as) p = parse_args K as (p\<lparr>test_connect := 1\<rparr>)"
  "parse_args K (''--test-resolve-peers'' # as) p = parse_args K as (p\<lparr>test_resolve_peers := 1\<rparr>)"
  "parse_args K (''--test-error'' # as) p = parse_args K as (p\<lparr>test_error := 1\<rparr>)"
  by (simp_all add: parse_option_def)

lemma parse_operand:
  "parse_args K (''-n'' # v # as) p = parse_args K as (opt_np v p)"
  "parse_args K (''-o'' # v # as) p = parse_args K as (p\<lparr>prefix := Some v\<rparr>)"
  "parse_args K (''-s'' # v # as) p = parse_args K as (p\<lparr>nservers := atoi v\<rparr>)"
  "parse_args K (''-r'' # v # as) p = parse_args K as (p\<lparr>rank := to_u32 (strtol v)\<rparr>)"
  "parse_args K (''--ns-dist'' # v # as) p = parse_args K as (p\<lparr>ns_dist := Some v\<rparr>)"
  "parse_args K (''--ns-size'' # v # as) p = parse_args K as (p\<lparr>ns_size := strtol_int v\<rparr>)"
  "parse_args K (''--ns-id'' # v # as) p = parse_args K as (p\<lparr>ns_id := strtol_int v\<rparr>)"
  "parse_args K (''--base-rank'' # v # as) p = parse_args K as (p\<lparr>base_rank := to_u32 (strtol v)\<rparr>)"
  "parse_args K (''--gds'' # v # as) p = parse_args K as (p\<lparr>gds_mode := Some v\<rparr>)"
  "fence_check K v = 0 \<Longrightarrow> parse_args K (''--fence'' # v # as) p = parse_args K as (p\<lparr>fences := Some v\<rparr>)"
  "noise_check K v = 0 \<Longrightarrow> parse_args K (''--noise'' # v # as) p = parse_args K as (p\<lparr>noise := Some v\<rparr>)"
  by (simp_all add: parse_option_def operand_def)

definition replace_accepted :: "string \<Rightarrow> bool" where
  "replace_accepted v \<longleftrightarrow> \<not> starts_with_dash v \<and>
     (case parse_replace (Some v) False of None \<Rightarrow> False | Some (ret, _) \<Rightarrow> ret = 0)"

lemma parse_replace_option:
  "replace_accepted v \<Longrightarrow>
    parse_args K (''--test-replace'' # v # as) p = parse_args K as (p\<lparr>key_replace := Some v\<rparr>)"
  by (simp add: parse_option_def opt_replace_def replace_accepted_def split: option.splits prod.splits)

lemma parse_internal_option:
  "\<not> starts_with_dash v \<Longrightarrow>
    parse_args K (''--test-internal'' # v # as) p = parse_args K as (p\<lparr>test_internal := strtol_int v\<rparr>)"
  by (simp add: parse_option_def opt_internal_def)

lemmas parse_steps = parse_flag parse_operand parse_replace_option parse_internal_option

section \<open>Well-formed parameters\<close>

text \<open>What holds of the parameters after every option.\<close>

definition is_flag :: "int \<Rightarrow> bool" where
  "is_flag v \<longleftrightarrow> v = 0 \<or> v = 1"

definition flags_of :: "test_params \<Rightarrow> int list" where
  "flags_of p = [verbose p, early_fail p, test_job_fence p, collect_bad p, use_same_keys p, collect p,
     nonblocking p, test_publish p, test_spawn p, test_connect p, test_resolve_peers p, test_error p]"

definition params_ok :: "pmix_consts \<Rightarrow> test_params \<Rightarrow> bool" where
  "params_ok K p \<longleftrightarrow>
     list_all is_flag (flags_of p) \<and>
     nprocs p = (case np p of None \<Rightarrow> 1 | Some v \<Rightarrow> to_u32 (strtol v)) \<and>
     pred_option (\<lambda>v. fence_check K v = 0) (fences p) \<and>
     pred_option (\<lambda>v. noise_check K v = 0) (noise p) \<and>
     pred_option replace_accepted (key_replace p) \<and>
     int_min \<le> test_internal p \<and> test_internal p \<le> int_max \<and> timeout p \<noteq> 0"

lemma replace_default: "replace_accepted TEST_REPLACE_DEFAULT"
  by code_simp

lemma int32_range: "int_min \<le> int32 v \<and> int32 v \<le> int_max"
  using sint_ge [of "word_of_int v :: 32 word"] sint_lt [of "word_of_int v :: 32 word"]
  by (simp add: int32_def int_min_def int_max_def)

lemma params_ok_init: "params_ok K (INIT_TEST_PARAMS K)"
  by (simp add: params_ok_def INIT_TEST_PARAMS_def flags_of_def is_flag_def int_min_def int_max_def
      TEST_DEFAULT_TIMEOUT_def)

lemma params_ok_simps:
  "params_ok K (p\<lparr>pnspace := x\<rparr>) = params_ok K p" "params_ok K (p\<lparr>binary := x\<rparr>) = params_ok K p"
  "params_ok K (p\<lparr>prefix := x\<rparr>) = params_ok K p" "params_ok K (p\<lparr>nservers := n\<rparr>) = params_ok K p"
  "params_ok K (p\<lparr>rank := r\<rparr>) = params_ok K p" "params_ok K (p\<lparr>ns_dist := x\<rparr>) = params_ok K p"
  "params_ok K (p\<lparr>ns_size := n\<rparr>) = params_ok K p" "params_ok K (p\<lparr>ns_id := n\<rparr>) = params_ok K p"
  "params_ok K (p\<lparr>base_rank := r\<rparr>) = params_ok K p" "params_ok K (p\<lparr>gds_mode := x\<rparr>) = params_ok K p"
  by (simp_all add: params_ok_def flags_of_def)

lemma params_ok_updates:
  assumes "params_ok K p"
  shows "params_ok K (opt_np v p)" "params_ok K (opt_timeout v p)"
    "params_ok K (p\<lparr>verbose := 1\<rparr>)" "params_ok K (p\<lparr>early_fail := 1\<rparr>)" "params_ok K (p\<lparr>use_same_keys := 1\<rparr>)"
    "params_ok K (p\<lparr>test_job_fence := 1\<rparr>)" "params_ok K (p\<lparr>collect_bad := 1\<rparr>)" "params_ok K (p\<lparr>collect := 1\<rparr>)"
    "params_ok K (p\<lparr>nonblocking := 1\<rparr>)" "params_ok K (p\<lparr>test_publish := 1\<rparr>)" "params_ok K (p\<lparr>test_spawn := 1\<rparr>)"
    "params_ok K (p\<lparr>test_connect := 1\<rparr>)" "params_ok K (p\<lparr>test_resolve_peers := 1\<rparr>)"
    "params_ok K (p\<lparr>test_error := 1\<rparr>)"
    "fence_check K v = 0 \<Longrightarrow> params_ok K (p\<lparr>fences := Some v\<rparr>)"
    "noise_check K v = 0 \<Longrightarrow> params_ok K (p\<lparr>noise := Some v\<rparr>)"
    "replace_accepted v \<Longrightarrow> params_ok K (p\<lparr>key_replace := Some v\<rparr>)"
    "params_ok K (p\<lparr>test_internal := strtol_int v\<rparr>)" "params_ok K (p\<lparr>test_internal := 1\<rparr>)"
  using assms int32_range
  by (simp_all add: params_ok_def flags_of_def is_flag_def opt_np_def opt_timeout_def TEST_DEFAULT_TIMEOUT_def
      Let_def strtol_int_def int_min_def int_max_def)

text \<open>Each branch of \<open>parse_option\<close> keeps them; the rules follow the shape of the definition.\<close>

definition step_ok :: "pmix_consts \<Rightarrow> step \<Rightarrow> bool" where
  "step_ok K s \<longleftrightarrow> (case s of Next _ p \<Rightarrow> params_ok K p | _ \<Rightarrow> True)"

named_theorems step_intros

lemma step_Next [step_intros]: "params_ok K p \<Longrightarrow> step_ok K (Next u p)"
  by (simp add: step_ok_def)

lemma step_Stop [step_intros]: "step_ok K (Stop c)" "step_ok K Crash"
  by (simp_all add: step_ok_def)

lemma step_If [step_intros]:
  "(c \<Longrightarrow> step_ok K s) \<Longrightarrow> (\<not> c \<Longrightarrow> step_ok K t) \<Longrightarrow> step_ok K (if c then s else t)"
  by simp

lemma step_operand [step_intros]:
  "params_ok K p \<Longrightarrow> (\<And>v. step_ok K (f v)) \<Longrightarrow> step_ok K (operand arg p f)"
  by (simp add: operand_def step_ok_def split: option.splits)

lemma step_arg [step_intros]:
  "step_ok K s \<Longrightarrow> (\<And>v. step_ok K (f v)) \<Longrightarrow> step_ok K (case arg of None \<Rightarrow> s | Some v \<Rightarrow> f v)"
  by (simp split: option.splits)

lemma step_replace: "params_ok K p \<Longrightarrow> step_ok K (opt_replace arg p)"
  using params_ok_updates(17) [of K p] replace_default
  by (auto simp: opt_replace_def replace_accepted_def step_ok_def split: option.splits prod.splits)

lemma step_internal: "params_ok K p \<Longrightarrow> step_ok K (opt_internal arg p)"
  using params_ok_updates(18,19) [of K p] by (auto simp: opt_internal_def step_ok_def split: option.splits)

lemma parse_option_ok: "params_ok K p \<Longrightarrow> step_ok K (parse_option K a arg p)"
  unfolding parse_option_def
  by (intro step_intros step_replace step_internal; simp only: params_ok_simps params_ok_updates not_not)

lemma parse_args_ok: "params_ok K p \<Longrightarrow> parse_args K as p = Some (Inr p') \<Longrightarrow> params_ok K p'"
proof (induction K as p rule: parse_args.induct)
  case (2 K a as p)
  then show ?case
    using parse_option_ok [of K p a "case as of [] \<Rightarrow> None | v # _ \<Rightarrow> Some v"]
    by (auto simp: step_ok_def split: step.splits)
qed simp

lemma fix_params_ok:
  assumes "params_ok K p" "fix_params K cp env p = Some (Inr q)"
  shows "params_ok K q \<and> binary q \<noteq> None \<and> (rank q = rank_undef K \<longrightarrow> rank p = rank_undef K)"
proof -
  have "is_flag (uint r mod 2)" for r :: pmix_rank_t
    using pos_mod_bound [of 2 "uint r"] pos_mod_sign [of 2 "uint r"] unfolding is_flag_def by linarith
  then have c: "params_ok K p' \<Longrightarrow> params_ok K (p'\<lparr>collect := uint r mod 2\<rparr>)" for p' and r :: pmix_rank_t
    by (simp add: params_ok_def flags_of_def)
  show ?thesis
    using assms c
    by (auto simp: fix_params_def slurm_rank_def Let_def params_ok_simps split: if_splits option.splits)
qed

section \<open>What a client reads of the options of its server\<close>

text \<open>Storing the value a field has changes nothing.\<close>

lemma unchanged:
  "verbose p = 0 \<Longrightarrow> p\<lparr>verbose := 0\<rparr> = p"
  "early_fail p = 0 \<Longrightarrow> p\<lparr>early_fail := 0\<rparr> = p"
  "use_same_keys p = 0 \<Longrightarrow> p\<lparr>use_same_keys := 0\<rparr> = p"
  "test_job_fence p = 0 \<Longrightarrow> p\<lparr>test_job_fence := 0\<rparr> = p"
  "nonblocking p = 0 \<Longrightarrow> p\<lparr>nonblocking := 0\<rparr> = p"
  "collect p = 0 \<Longrightarrow> p\<lparr>collect := 0\<rparr> = p"
  "collect_bad p = 0 \<Longrightarrow> p\<lparr>collect_bad := 0\<rparr> = p"
  "test_publish p = 0 \<Longrightarrow> p\<lparr>test_publish := 0\<rparr> = p"
  "test_spawn p = 0 \<Longrightarrow> p\<lparr>test_spawn := 0\<rparr> = p"
  "test_connect p = 0 \<Longrightarrow> p\<lparr>test_connect := 0\<rparr> = p"
  "test_resolve_peers p = 0 \<Longrightarrow> p\<lparr>test_resolve_peers := 0\<rparr> = p"
  "test_error p = 0 \<Longrightarrow> p\<lparr>test_error := 0\<rparr> = p"
  "test_internal p = 0 \<Longrightarrow> p\<lparr>test_internal := 0\<rparr> = p"
  "prefix p = None \<Longrightarrow> p\<lparr>prefix := None\<rparr> = p"
  "ns_dist p = None \<Longrightarrow> p\<lparr>ns_dist := None\<rparr> = p"
  "gds_mode p = None \<Longrightarrow> p\<lparr>gds_mode := None\<rparr> = p"
  "noise p = None \<Longrightarrow> p\<lparr>noise := None\<rparr> = p"
  "key_replace p = None \<Longrightarrow> p\<lparr>key_replace := None\<rparr> = p"
  "fences p = None \<Longrightarrow> p\<lparr>fences := None\<rparr> = p"
  by (cases p; simp)+

text \<open>A flag or option is passed on when the client still has its initial value.\<close>

lemma parse_if_flag:
  "is_flag v \<Longrightarrow> verbose p = 0 \<Longrightarrow>
    parse_args K (flag v ''-v'' @ as) p = parse_args K as (p\<lparr>verbose := v\<rparr>)"
  "is_flag v \<Longrightarrow> early_fail p = 0 \<Longrightarrow>
    parse_args K (flag v ''--early-fail'' @ as) p = parse_args K as (p\<lparr>early_fail := v\<rparr>)"
  "is_flag v \<Longrightarrow> use_same_keys p = 0 \<Longrightarrow>
    parse_args K (flag v ''--use-same-keys'' @ as) p = parse_args K as (p\<lparr>use_same_keys := v\<rparr>)"
  "is_flag v \<Longrightarrow> nonblocking p = 0 \<Longrightarrow>
    parse_args K (flag v ''-nb'' @ as) p = parse_args K as (p\<lparr>nonblocking := v\<rparr>)"
  "is_flag v \<Longrightarrow> collect p = 0 \<Longrightarrow>
    parse_args K (flag v ''-c'' @ as) p = parse_args K as (p\<lparr>collect := v\<rparr>)"
  "is_flag v \<Longrightarrow> collect_bad p = 0 \<Longrightarrow>
    parse_args K (flag v ''--collect-corrupt'' @ as) p = parse_args K as (p\<lparr>collect_bad := v\<rparr>)"
  "is_flag v \<Longrightarrow> test_publish p = 0 \<Longrightarrow>
    parse_args K (flag v ''--test-publish'' @ as) p = parse_args K as (p\<lparr>test_publish := v\<rparr>)"
  "is_flag v \<Longrightarrow> test_spawn p = 0 \<Longrightarrow>
    parse_args K (flag v ''--test-spawn'' @ as) p = parse_args K as (p\<lparr>test_spawn := v\<rparr>)"
  "is_flag v \<Longrightarrow> test_connect p = 0 \<Longrightarrow>
    parse_args K (flag v ''--test-connect'' @ as) p = parse_args K as (p\<lparr>test_connect := v\<rparr>)"
  "is_flag v \<Longrightarrow> test_resolve_peers p = 0 \<Longrightarrow>
    parse_args K (flag v ''--test-resolve-peers'' @ as) p = parse_args K as (p\<lparr>test_resolve_peers := v\<rparr>)"
  "is_flag v \<Longrightarrow> test_error p = 0 \<Longrightarrow>
    parse_args K (flag v ''--test-error'' @ as) p = parse_args K as (p\<lparr>test_error := v\<rparr>)"
  by (auto simp: flag_def is_flag_def parse_flag unchanged simp del: parse_args.simps)

lemma parse_if_option:
  "prefix p = None \<Longrightarrow>
    parse_args K (option_with v ''-o'' @ as) p = parse_args K as (p\<lparr>prefix := v\<rparr>)"
  "ns_dist p = None \<Longrightarrow>
    parse_args K (option_with v ''--ns-dist'' @ as) p = parse_args K as (p\<lparr>ns_dist := v\<rparr>)"
  "gds_mode p = None \<Longrightarrow>
    parse_args K (option_with v ''--gds'' @ as) p = parse_args K as (p\<lparr>gds_mode := v\<rparr>)"
  "pred_option (\<lambda>v. noise_check K v = 0) v \<Longrightarrow> noise p = None \<Longrightarrow>
    parse_args K (option_with v ''--noise'' @ as) p = parse_args K as (p\<lparr>noise := v\<rparr>)"
  "pred_option replace_accepted v \<Longrightarrow> key_replace p = None \<Longrightarrow>
    parse_args K (option_with v ''--test-replace'' @ as) p = parse_args K as (p\<lparr>key_replace := v\<rparr>)"
  by (cases v; simp add: option_with_def parse_operand parse_replace_option unchanged del: parse_args.simps)+

lemma starts_with_dash_decimal: "0 \<le> v \<Longrightarrow> \<not> starts_with_dash (decimal v)"
  using decimal_nat_digits [of "nat v"] by (cases "decimal_nat (nat v)") (auto simp: starts_with_dash_def decimal_def is_digit_char_def)

lemma strtol_int_dec: "int_min < v \<Longrightarrow> v \<le> int_max \<Longrightarrow> strtol_int (decimal v) = v"
  using atoi_decimal [of v] by (simp add: atoi_def strtol_int_def)

lemma parse_if_internal:
  "0 \<le> v \<Longrightarrow> v \<le> int_max \<Longrightarrow> test_internal p = 0 \<Longrightarrow>
    parse_args K ((if v \<noteq> 0 then [''--test-internal'', decimal v] else []) @ as) p =
    parse_args K as (p\<lparr>test_internal := v\<rparr>)"
  by (simp add: parse_internal_option starts_with_dash_decimal strtol_int_dec int_min_def unchanged del: parse_args.simps)

lemma parse_if_fence:
  "pred_option (\<lambda>v. fence_check K v = 0) v \<Longrightarrow> is_flag u \<Longrightarrow> fences p = None \<Longrightarrow> use_same_keys p = 0 \<Longrightarrow>
    parse_args K ((case v of None \<Rightarrow> [] | Some f \<Rightarrow> ''--fence'' # f # flag u ''--use-same-keys'') @ as) p =
    parse_args K as (p\<lparr>fences := v, use_same_keys := (if v \<noteq> None then u else 0)\<rparr>)"
  by (cases v) (simp_all add: parse_operand parse_if_flag unchanged del: parse_args.simps)

lemma parse_if_job:
  "is_flag j \<Longrightarrow> is_flag n \<Longrightarrow> is_flag c \<Longrightarrow> is_flag b \<Longrightarrow>
    test_job_fence p = 0 \<Longrightarrow> nonblocking p = 0 \<Longrightarrow> collect p = 0 \<Longrightarrow> collect_bad p = 0 \<Longrightarrow>
    parse_args K ((if j \<noteq> 0 then ''--job-fence'' # flag n ''-nb'' @ flag c ''-c'' @ flag b ''--collect-corrupt''
      else []) @ as) p =
    parse_args K as (p\<lparr>test_job_fence := j, nonblocking := (if j \<noteq> 0 then n else 0),
      collect := (if j \<noteq> 0 then c else 0), collect_bad := (if j \<noteq> 0 then b else 0)\<rparr>)"
  by (cases "j = 0") (auto simp: parse_flag parse_if_flag is_flag_def [of j] unchanged simp del: parse_args.simps)

lemmas parse_segments = parse_operand parse_if_flag parse_if_option parse_if_internal parse_if_fence parse_if_job

text \<open>The parameters of a client before the fixes at the end of \<open>parse_cmd\<close>.\<close>

definition as_client :: "test_params \<Rightarrow> test_params \<Rightarrow> test_params" where
  "as_client q p =
     (opt_np (case np q of None \<Rightarrow> ''1'' | Some n \<Rightarrow> n) p)
     \<lparr>verbose := verbose q, prefix := prefix q, early_fail := early_fail q, fences := fences q,
      use_same_keys := (if fences q \<noteq> None then use_same_keys q else 0),
      test_job_fence := test_job_fence q,
      nonblocking := (if test_job_fence q \<noteq> 0 then nonblocking q else 0),
      collect := (if test_job_fence q \<noteq> 0 then collect q else 0),
      collect_bad := (if test_job_fence q \<noteq> 0 then collect_bad q else 0),
      noise := noise q, ns_dist := ns_dist q, test_publish := test_publish q, test_spawn := test_spawn q,
      test_connect := test_connect q, test_resolve_peers := test_resolve_peers q, test_error := test_error q,
      key_replace := key_replace q, test_internal := test_internal q, gds_mode := gds_mode q\<rparr>"

lemma parse_client_options:
  assumes "params_ok K q" "0 \<le> test_internal q"
  shows "parse_args K (client_options q @ as) (INIT_TEST_PARAMS K) = parse_args K as (as_client q (INIT_TEST_PARAMS K))"
proof -
  let ?n = "case np q of None \<Rightarrow> ''1'' | Some n \<Rightarrow> n"
  have flags: "is_flag (verbose q)" "is_flag (early_fail q)" "is_flag (test_job_fence q)" "is_flag (collect_bad q)"
    "is_flag (use_same_keys q)" "is_flag (collect q)" "is_flag (nonblocking q)" "is_flag (test_publish q)"
    "is_flag (test_spawn q)" "is_flag (test_connect q)" "is_flag (test_resolve_peers q)" "is_flag (test_error q)"
    using assms(1) by (simp_all add: params_ok_def flags_of_def)
  have checks: "pred_option (\<lambda>v. fence_check K v = 0) (fences q)" "pred_option (\<lambda>v. noise_check K v = 0) (noise q)"
    "pred_option replace_accepted (key_replace q)" "test_internal q \<le> int_max"
    using assms(1) by (simp_all add: params_ok_def)
  note fields = test_params.select_convs test_params.update_convs
  show ?thesis
    unfolding client_options_def append_assoc
    by (simp only: append.simps parse_operand(1),
      simp only: opt_np_def INIT_TEST_PARAMS_def Let_def fields,
      simp only: parse_segments checks flags assms(2) fields,
      simp only: as_client_def opt_np_def Let_def fields)
qed

text \<open>The arguments of the launch loop follow; the name after \<open>-s\<close> is read as a number of servers.\<close>

lemma parse_launch_options:
  assumes "int_min < sint r" "int_min < usz" "usz \<le> int_max" "int_min < n" "n \<le> int_max"
  shows "parse_args K [''-r'', decimal (sint r), ''-s'', name, ''--ns-size'', decimal usz, ''--ns-id'', decimal n,
      ''--base-rank'', decimal 0] p =
    Some (Inr (p\<lparr>rank := r, nservers := atoi name, ns_size := usz, ns_id := n, base_rank := 0\<rparr>))"
proof -
  have "sint r \<le> int_max" using sint_lt [of r] by (simp add: int_max_def)
  then have "strtol (decimal (sint r)) = sint r" "strtol (decimal 0) = 0"
    using assms(1) by (auto intro!: strtol_decimal simp: int_min_def int_max_def long_max_def)
  then show ?thesis
    using strtol_int_dec [OF assms(2,3)] strtol_int_dec [OF assms(4,5)]
    by (simp add: parse_operand to_u32_def parse_args.simps(1) del: parse_args.simps(2))
qed

lemma push_simp: "push v s = Some (strings v @ [s])"
  by (simp add: push_def)

lemma push_all: "foldl push v ss = (if ss = [] then v else Some (strings v @ ss))"
  by (induction ss arbitrary: v) (auto simp: push_simp)

lemma print_digit_Some: "print_digit v = Some s \<Longrightarrow> s = decimal v \<and> int_min < v \<and> v \<le> int_max"
proof -
  assume s: "print_digit v = Some s"
  then have "length (decimal v) \<le> 9" by (auto simp: print_digit_def MAX_DIGIT_LEN_def split: if_splits)
  then have "(10 :: int) ^ length (decimal v) \<le> 10 ^ 9" by (intro power_increasing) auto
  then have "\<bar>v\<bar> < 10 ^ 9" using decimal_length [of v] by linarith
  then show ?thesis using s by (auto simp: print_digit_def int_min_def int_max_def split: if_splits)
qed

lemma client_argv_strings:
  assumes "client_argv (Some base) r name usz n = Some v"
  shows "strings v = base @ [''-r'', decimal (sint r), ''-s'', name, ''--ns-size'', decimal usz,
      ''--ns-id'', decimal n, ''--base-rank'', decimal 0]"
    "int_min < sint r" "int_min < usz" "usz \<le> int_max" "int_min < n" "n \<le> int_max"
proof -
  have c: "pmix_argv_copy [] (Some base) = Some (Some base, [])"
    by (simp add: pmix_argv_copy_def copy_loop_Nil)
  obtain rs us ns zs where d: "print_digit (sint r) = Some rs" "print_digit usz = Some us"
    "print_digit n = Some ns" "print_digit 0 = Some zs"
    and v: "v = foldl push (Some base) [''-r'', rs, ''-s'', name, ''--ns-size'', us, ''--ns-id'', ns, ''--base-rank'', zs]"
    using assms unfolding client_argv_def c by (auto simp: bind_eq_Some_conv simp del: foldl.simps)
  note facts = d [THEN print_digit_Some]
  then show "strings v = base @ [''-r'', decimal (sint r), ''-s'', name, ''--ns-size'', decimal usz,
      ''--ns-id'', decimal n, ''--base-rank'', decimal 0]"
    unfolding v push_all by simp
  show "int_min < sint r" "int_min < usz" "usz \<le> int_max" "int_min < n" "n \<le> int_max"
    using facts by auto
qed

lemma parse_cmd_init:
  "parse_cmd K cp env as (INIT_TEST_PARAMS K) =
    (case parse_args K as (INIT_TEST_PARAMS K) of Some (Inr p) \<Rightarrow> fix_params K cp env p | stopped \<Rightarrow> stopped)"
  by (simp add: parse_cmd_def INIT_TEST_PARAMS_def)

lemma parse_cmd_ok:
  assumes "parse_cmd K cp env as (INIT_TEST_PARAMS K) = Some (Inr q)"
  shows "params_ok K q \<and> binary q \<noteq> None"
proof -
  obtain p where p: "parse_args K as (INIT_TEST_PARAMS K) = Some (Inr p)" "fix_params K cp env p = Some (Inr q)"
    using assms by (auto simp: parse_cmd_init split: option.splits sum.splits)
  then show ?thesis using parse_args_ok [OF params_ok_init p(1)] fix_params_ok [OF _ p(2)] by simp
qed

section \<open>Properties\<close>

text \<open>
  C34: the parameters a command line is accepted with are well-formed: flags are 0 or 1, the
  descriptions of fences, noise and keys pass their checks, the number of processes is the one
  written after -n, the timeout is not 0, and there is a program to run.
\<close>

theorem parse_cmd_params_ok:
  assumes "parse_cmd K cp env as (INIT_TEST_PARAMS K) = Some (Inr q)"
  shows "list_all is_flag (flags_of q) \<and> timeout q \<noteq> 0 \<and> binary q \<noteq> None \<and>
    nprocs q = (case np q of None \<Rightarrow> 1 | Some v \<Rightarrow> to_u32 (strtol v)) \<and>
    (\<forall>f st. fences q = Some f \<longrightarrow> fst (parse_fence K f False st) = 0) \<and>
    (\<forall>f st. noise q = Some f \<longrightarrow> fst (parse_noise K f False st) = 0) \<and>
    (\<forall>k. key_replace q = Some k \<longrightarrow> (\<exists>n ks. parse_replace (Some k) False = Some (0, n, ks)))"
proof -
  have "fst (parse_fence K f False st) = 0" if "fences q = Some f" for f st
    using parse_cmd_ok [OF assms] that fence_check_eq [of K f st start_parser]
    by (simp add: params_ok_def fence_check_def)
  moreover have "fst (parse_noise K f False st) = 0" if "noise q = Some f" for f st
    using parse_cmd_ok [OF assms] that noise_check_eq [of K f st start_parser]
    by (simp add: params_ok_def noise_check_def)
  moreover have "\<exists>n ks. parse_replace (Some k) False = Some (0, n, ks)" if "key_replace q = Some k" for k
    using parse_cmd_ok [OF assms] that by (auto simp: params_ok_def replace_accepted_def split: option.splits)
  ultimately show ?thesis
    using parse_cmd_ok [OF assms] by (auto simp: params_ok_def)
qed

definition sample_args :: "string list" where
  "sample_args = [''-n'', ''2'', ''-v'', ''--fence'', ''[d|0:0-1]'', ''--test-internal'', ''3'', ''--test-replace'', ''2:1'']"

definition sample_params :: test_params where
  "sample_params = (INIT_TEST_PARAMS sample_consts)\<lparr>np := Some ''2'', nprocs := 2, ns_size := 2, verbose := 1,
     fences := Some ''[d|0:0-1]'', test_internal := 3, key_replace := Some ''2:1'', binary := Some ''./pmix_client''\<rparr>"

lemma sample_parsed:
  "parse_cmd sample_consts (\<lambda>s n. take n s) (\<lambda>_. None) sample_args (INIT_TEST_PARAMS sample_consts) =
    Some (Inr sample_params)"
  by code_simp

theorem parse_cmd_params_ok_witness:
  "fst (parse_fence sample_consts ''[d|0:0-1]'' False start_parser) = 0 \<and> nprocs sample_params = to_u32 (strtol ''2'')"
  using parse_cmd_params_ok [OF sample_parsed] by (simp add: sample_params_def)

text \<open>
  C20: a client that parses the arguments its server starts it with gets the server's test
  options and its own rank, namespace number and size. Three things do not come through: the
  flags of the job fence without the job fence and the same-keys flag without fences are
  dropped, collecting is recomputed for a corrupt collection, and the name of the namespace
  (option -s) is read as the number of servers, the name itself comes from the environment.
\<close>

theorem client_reads_params:
  assumes "parse_cmd K cp env as (INIT_TEST_PARAMS K) = Some (Inr q)" "0 \<le> test_internal q"
    "set_client_argv q None = Some base" "client_argv base r name usz n = Some v" "r \<noteq> rank_undef K"
  shows "\<exists>p. parse_cmd K cp cenv (tl (strings v)) (INIT_TEST_PARAMS K) = Some (Inr p) \<and>
    Some (hd (strings v)) = binary q \<and> nprocs p = nprocs q \<and>
    rank p = r \<and> ns_size p = usz \<and> ns_id p = n \<and> base_rank p = 0 \<and>
    (verbose p, prefix p, early_fail p, fences p, noise p, ns_dist p, key_replace p, test_internal p, gds_mode p) =
    (verbose q, prefix q, early_fail q, fences q, noise q, ns_dist q, key_replace q, test_internal q, gds_mode q) \<and>
    (test_publish p, test_spawn p, test_connect p, test_resolve_peers p, test_error p, test_job_fence p) =
    (test_publish q, test_spawn q, test_connect q, test_resolve_peers q, test_error q, test_job_fence q) \<and>
    use_same_keys p = (if fences q = None then 0 else use_same_keys q) \<and>
    nonblocking p = (if test_job_fence q = 0 then 0 else nonblocking q) \<and>
    collect_bad p = (if test_job_fence q = 0 then 0 else collect_bad q) \<and>
    collect p = (if collect_bad p \<noteq> 0 then uint r mod 2 else if test_job_fence q = 0 then 0 else collect q) \<and>
    nservers p = atoi name \<and> pnspace p = cenv ''PMIX_NAMESPACE''"
proof -
  obtain b where b: "binary q = Some b" and ok: "params_ok K q"
    using parse_cmd_ok [OF assms(1)] by auto
  then have base: "base = Some (b # client_options q)"
    using assms(3) by (simp add: set_client_argv_def push_all del: foldl.simps)
  note v = client_argv_strings [OF assms(4) [unfolded base]]
  define c where "c = (as_client q (INIT_TEST_PARAMS K))
    \<lparr>rank := r, nservers := atoi name, ns_size := usz, ns_id := n, base_rank := 0\<rparr>"
  have "parse_args K (tl (strings v)) (INIT_TEST_PARAMS K) = Some (Inr c)"
    using parse_client_options [OF ok assms(2)] parse_launch_options [OF v(2-6)] by (simp add: v(1) c_def)
  then have "parse_cmd K cp cenv (tl (strings v)) (INIT_TEST_PARAMS K) = fix_params K cp cenv c"
    by (simp add: parse_cmd_init)
  moreover have "binary c = None" "pnspace c = None" "rank c = r"
    by (simp_all add: c_def as_client_def opt_np_def INIT_TEST_PARAMS_def Let_def)
  moreover have "strtol ''1'' = 1" by code_simp
  with ok have "nprocs c = nprocs q" by (auto simp: c_def as_client_def opt_np_def Let_def params_ok_def to_u32_def split: option.splits)
  ultimately show ?thesis
    using assms(5) b v(1)
    by (simp add: fix_params_def Let_def) (simp add: c_def as_client_def opt_np_def Let_def)
qed

definition sample_client :: "string list" where
  "sample_client = [''./pmix_client'', ''-n'', ''2'', ''-v'', ''--fence'', ''[d|0:0-1]'', ''--test-replace'', ''2:1'',
     ''--test-internal'', ''3'', ''-r'', ''1'', ''-s'', ''smoky_nspace-0'', ''--ns-size'', ''2'', ''--ns-id'', ''0'',
     ''--base-rank'', ''0'']"

theorem client_reads_params_witness:
  "\<exists>p. parse_cmd sample_consts (\<lambda>s n. take n s) (\<lambda>_. Some ''smoky_nspace-0'') (tl sample_client)
      (INIT_TEST_PARAMS sample_consts) = Some (Inr p) \<and>
    rank p = 1 \<and> nprocs p = 2 \<and> fences p = Some ''[d|0:0-1]'' \<and> nservers p = 0 \<and> pnspace p = Some ''smoky_nspace-0''"
proof -
  have base: "set_client_argv sample_params None = Some (Some (take 10 sample_client))" by code_simp
  have argv: "client_argv (Some (take 10 sample_client)) 1 ''smoky_nspace-0'' 2 0 = Some (Some sample_client)"
    by code_simp
  have "atoi ''smoky_nspace-0'' = 0" by code_simp
  then show ?thesis
    using client_reads_params [OF sample_parsed _ base argv, of "\<lambda>_. Some ''smoky_nspace-0''"]
    by (auto simp: sample_params_def sample_consts_def)
qed

end
