(* ===== verification/Wire.thy ===== *)
theory Wire
  imports CString "HOL-Library.Monad_Syntax"
begin

text \<open>
  The byte formats the emulated servers exchange (src/unit/test_server.c): the table that tells
  which server runs which rank (\<open>server_pack_procs\<close>, \<open>server_unpack_procs\<close>, \<open>server_find_id\<close>) and
  the request for the data of a process (\<open>server_pack_dmdx\<close>, \<open>server_unpack_dmdx\<close>). A buffer is
  the list of its bytes; an \<open>int\<close> has 4 bytes and a \<open>size_t\<close> 8, the lowest first. Reading past
  the end of a buffer, writing past it and a failed \<open>assert\<close> are \<open>None\<close>.
\<close>

section \<open>Encodings\<close>

type_synonym bytes = string

fun le_bytes :: "nat \<Rightarrow> nat \<Rightarrow> bytes" where
  "le_bytes 0 v = []"
| "le_bytes (Suc n) v = char_of v # le_bytes n (v div 256)"

fun le_val :: "bytes \<Rightarrow> nat" where
  "le_val [] = 0"
| "le_val (c # cs) = of_char c + 256 * le_val cs"

definition enc_int :: "int \<Rightarrow> bytes" where
  "enc_int v = le_bytes 4 (unat (word_of_int v :: u32))"

definition dec_int :: "bytes \<Rightarrow> (int \<times> bytes) option" where
  "dec_int bs = (if length bs < 4 then None else Some (sint (word_of_nat (le_val (take 4 bs)) :: u32), drop 4 bs))"

definition enc_size :: "nat \<Rightarrow> bytes" where
  "enc_size n = le_bytes 8 n"

definition dec_size :: "bytes \<Rightarrow> (nat \<times> bytes) option" where
  "dec_size bs = (if length bs < 8 then None else Some (le_val (take 8 bs), drop 8 bs))"

text \<open>A name in an array of \<open>PMIX_MAX_NSLEN + 1\<close> bytes, padded with zeros.\<close>

abbreviation NUL :: char where
  "NUL \<equiv> CHR 0x00"

definition enc_name :: "pmix_consts \<Rightarrow> string \<Rightarrow> bytes" where
  "enc_name K s = s @ replicate (max_nslen K + 1 - length s) NUL"

definition dec_name :: "pmix_consts \<Rightarrow> bytes \<Rightarrow> (string \<times> bytes) option" where
  "dec_name K bs =
     (if length bs < max_nslen K + 1 \<or> NUL \<notin> set (take (max_nslen K) bs) then None
      else Some (takeWhile (\<lambda>c. c \<noteq> NUL) bs, drop (max_nslen K + 1) bs))"

text \<open>An encoding that can be read back in front of any other bytes, and its repetition.\<close>

locale codec =
  fixes enc :: "'a \<Rightarrow> bytes" and dec :: "bytes \<Rightarrow> ('a \<times> bytes) option" and valid :: "'a \<Rightarrow> bool" and width :: nat
  assumes read_back: "valid x \<Longrightarrow> dec (enc x @ bs) = Some (x, bs)"
    and width_enc: "valid x \<Longrightarrow> length (enc x) = width"
    and shrinks: "dec bs = Some (x, rest) \<Longrightarrow> length rest + width = length bs"
begin

lemma width_many: "list_all valid xs \<Longrightarrow> length (concat (map enc xs)) = width * length xs"
  by (induction xs) (simp_all add: width_enc)

lemma consumed: "dec bs = Some (x, rest) \<Longrightarrow> length rest \<le> length bs"
  using shrinks by fastforce

end

lemma length_le_bytes [simp]: "length (le_bytes n v) = n"
  by (induction n arbitrary: v) auto

lemma le_val_bytes: "le_val (le_bytes n v) = v mod 256 ^ n"
proof (induction n arbitrary: v)
  case (Suc n)
  have "v mod (256 * 256 ^ n) = v mod 256 + 256 * (v div 256 mod 256 ^ n)"
    by (simp add: mod_mult2_eq)
  then show ?case using Suc by simp
qed simp

interpretation int_codec: codec enc_int dec_int "\<lambda>v. int_min \<le> v \<and> v \<le> int_max" 4
proof
  fix v bs
  assume "int_min \<le> v \<and> v \<le> int_max"
  then have "sint (word_of_int v :: u32) = v" using int32_id [of v] by (simp add: int32_def)
  moreover have "unat (word_of_int v :: u32) mod 256 ^ 4 = unat (word_of_int v :: u32)"
    by (intro mod_less order_less_le_trans [OF unsigned_less]) simp
  ultimately show "dec_int (enc_int v @ bs) = Some (v, bs)"
    by (simp add: dec_int_def enc_int_def le_val_bytes)
next
  show "length (enc_int v) = 4" for v by (simp add: enc_int_def)
  show "length rest + 4 = length bs" if "dec_int bs = Some (v, rest)" for bs v rest
    using that by (auto simp: dec_int_def split: if_splits)
qed

interpretation size_codec: codec enc_size dec_size "\<lambda>n. n < 18446744073709551616" 8
  by unfold_locales (auto simp: dec_size_def enc_size_def le_val_bytes split: if_splits)

definition name_ok :: "pmix_consts \<Rightarrow> string \<Rightarrow> bool" where
  "name_ok K s \<longleftrightarrow> NUL \<notin> set s \<and> length s < max_nslen K"

interpretation name_codec: codec "enc_name K" "dec_name K" "name_ok K" "max_nslen K + 1" for K
proof
  fix s bs
  assume ok: "name_ok K s"
  define n where "n = max_nslen K - length s"
  have n: "max_nslen K + 1 - length s = Suc n" "take (max_nslen K) (enc_name K s @ bs) = s @ replicate n NUL" "n \<noteq> 0"
    using ok by (auto simp: n_def name_ok_def enc_name_def)
  have "takeWhile (\<lambda>c. c \<noteq> NUL) (s @ NUL # replicate n NUL @ bs) = s"
    using ok by (simp add: takeWhile_append name_ok_def)
  moreover have "length (enc_name K s) = max_nslen K + 1" using ok by (simp add: enc_name_def name_ok_def)
  ultimately show "dec_name K (enc_name K s @ bs) = Some (s, bs)"
    unfolding dec_name_def n(2) using n(1,3) by (simp add: enc_name_def)
next
  show "length (enc_name K s) = max_nslen K + 1" if "name_ok K s" for s
    using that by (simp add: enc_name_def name_ok_def)
  show "length rest + (max_nslen K + 1) = length bs" if "dec_name K bs = Some (s, rest)" for bs s rest
    using that by (auto simp: dec_name_def split: if_splits)
qed

section \<open>The table of processes\<close>

record server_nspace =
  nsname :: string                        \<comment> \<open>\<open>name\<close>\<close>
  ntasks :: nat
  ltasks :: nat
  task_map :: "int list"

text \<open>
  \<open>server_find_id\<close>: the server of a rank, -1 when the namespace is unknown; \<open>None\<close> when the rank
  is outside the map.
\<close>

definition server_find_id :: "server_nspace list \<Rightarrow> string \<Rightarrow> int \<Rightarrow> int option" where
  "server_find_id nss name r =
     (case find (\<lambda>n. nsname n = name) nss of
        None \<Rightarrow> Some (- 1)
      | Some n \<Rightarrow> if 0 \<le> r \<and> nat r < length (task_map n) then Some (task_map n ! nat r) else None)"

definition own_ranks :: "int \<Rightarrow> server_nspace \<Rightarrow> nat list" where
  "own_ranks sid n = filter (\<lambda>i. task_map n ! i = sid) [0..<ntasks n]"

definition pack_ns :: "pmix_consts \<Rightarrow> int \<Rightarrow> server_nspace \<Rightarrow> bytes" where
  "pack_ns K sid n = enc_int sid @ enc_name K (nsname n) @ enc_size (ntasks n) @ enc_size (ltasks n) @
     concat (map (\<lambda>i. enc_int (int i)) (own_ranks sid n))"

text \<open>
  The buffer before the call has \<open>size\<close> bytes. The code clears as many bytes as the whole new
  buffer has from offset \<open>size\<close> on, so any other size than 0 writes past its end. The closing
  \<open>assert\<close> fails when \<open>ltasks\<close> is not the number of ranks written.
\<close>

definition server_pack_procs ::
  "pmix_consts \<Rightarrow> int \<Rightarrow> server_nspace list \<Rightarrow> bytes \<Rightarrow> (nat \<times> bytes) option" where
  "server_pack_procs K sid nss buf =
     (let ns_count = length nss; size = length buf;
          buf_size = 8 + (max_nslen K + 1) * ns_count + size + (\<Sum>n \<leftarrow> nss. 4 + 8 + 8 + 4 * ltasks n);
          packed = buf @ enc_size ns_count @ concat (map (pack_ns K sid) nss)
      in if ns_count = 0 then Some (0, buf)
         else if size \<noteq> 0 then None
         else if length packed = buf_size then Some (buf_size, packed) else None)"

fun unpack_ranks :: "nat \<Rightarrow> int \<Rightarrow> bytes \<Rightarrow> int list \<Rightarrow> (int list \<times> bytes) option" where
  "unpack_ranks 0 sid bs m = Some (m, bs)"
| "unpack_ranks (Suc n) sid bs m =
     do { (r, bs) \<leftarrow> dec_int bs;
          if r < 0 \<or> length m \<le> nat r then None
          else unpack_ranks n sid bs (if 0 \<le> m ! nat r then m else m[nat r := sid]) }"

fun find_name :: "string \<Rightarrow> server_nspace list \<Rightarrow> nat option" where
  "find_name s [] = None"
| "find_name s (n # nss) = (if s = nsname n then Some 0 else map_option Suc (find_name s nss))"

definition unpack_ns :: "pmix_consts \<Rightarrow> bytes \<Rightarrow> server_nspace list \<Rightarrow> (bytes \<times> server_nspace list) option" where
  "unpack_ns K bs nss =
     do { (sid, bs) \<leftarrow> dec_int bs;
          (s, bs) \<leftarrow> dec_name K bs;
          (nt, bs) \<leftarrow> dec_size bs;
          (lt, bs) \<leftarrow> dec_size bs;
          (case find_name s nss of
             None \<Rightarrow>
               do { (m, bs) \<leftarrow> unpack_ranks lt sid bs (replicate nt (- 1));
                    Some (bs, nss @ [\<lparr>nsname = s, ntasks = nt, ltasks = lt, task_map = m\<rparr>]) }
           | Some i \<Rightarrow>
               if ntasks (nss ! i) \<noteq> nt then None
               else do { (m, bs) \<leftarrow> unpack_ranks lt sid bs (task_map (nss ! i));
                         Some (bs, nss[i := (nss ! i)\<lparr>task_map := m\<rparr>]) }) }"

fun unpack_all :: "pmix_consts \<Rightarrow> nat \<Rightarrow> bytes \<Rightarrow> server_nspace list \<Rightarrow> (bytes \<times> server_nspace list) option" where
  "unpack_all K 0 bs nss = Some (bs, nss)"
| "unpack_all K (Suc n) bs nss = do { (bs, nss) \<leftarrow> unpack_ns K bs nss; unpack_all K n bs nss }"

lemma unpack_ranks_shrinks: "unpack_ranks n sid bs m = Some (m', bs') \<Longrightarrow> length bs' \<le> length bs"
proof (induction n arbitrary: bs m)
  case (Suc n)
  then show ?case
    by (auto simp: bind_eq_Some_conv split: if_splits dest!: int_codec.consumed Suc.IH)
qed simp

lemma unpack_ns_shrinks: "unpack_ns K bs nss = Some (bs', nss') \<Longrightarrow> length bs' \<le> length bs"
  by (auto simp: unpack_ns_def bind_eq_Some_conv split: option.splits if_splits
      dest!: int_codec.consumed name_codec.consumed size_codec.consumed unpack_ranks_shrinks)

lemma unpack_all_shrinks: "unpack_all K n bs nss = Some (bs', nss') \<Longrightarrow> length bs' \<le> length bs"
  by (induction n arbitrary: bs nss) (auto simp: bind_eq_Some_conv dest!: unpack_ns_shrinks, fastforce)

function server_unpack_procs :: "pmix_consts \<Rightarrow> bytes \<Rightarrow> server_nspace list \<Rightarrow> server_nspace list option" where
  "server_unpack_procs K bs nss =
     (if bs = [] then Some nss
      else (case dec_size bs of
          None \<Rightarrow> None
        | Some (n, bs1) \<Rightarrow>
            (case unpack_all K n bs1 nss of
               None \<Rightarrow> None
             | Some (bs2, nss2) \<Rightarrow> server_unpack_procs K bs2 nss2)))"
  by pat_completeness auto
termination
  by (relation "measure (\<lambda>(K, bs, nss). length bs)")
    (auto dest!: unpack_all_shrinks size_codec.shrinks)

declare server_unpack_procs.simps [simp del]

section \<open>Merging the tables\<close>

text \<open>The table as a map from processes to servers, and the part of it a server packs.\<close>

definition table :: "server_nspace list \<Rightarrow> (string \<times> nat) \<rightharpoonup> int" where
  "table nss = (\<lambda>(s, r).
     case find_name s nss of
       None \<Rightarrow> None
     | Some i \<Rightarrow> if r < length (task_map (nss ! i)) \<and> 0 \<le> task_map (nss ! i) ! r
         then Some (task_map (nss ! i) ! r) else None)"

definition mine :: "int \<Rightarrow> server_nspace list \<Rightarrow> (string \<times> nat) \<rightharpoonup> int" where
  "mine sid nss = (\<lambda>x. if table nss x = Some sid then Some sid else None)"

definition ns_ok :: "pmix_consts \<Rightarrow> server_nspace \<Rightarrow> bool" where
  "ns_ok K n \<longleftrightarrow> name_ok K (nsname n) \<and> length (task_map n) = ntasks n \<and> int (ntasks n) \<le> int_max"

definition nss_ok :: "pmix_consts \<Rightarrow> server_nspace list \<Rightarrow> bool" where
  "nss_ok K nss \<longleftrightarrow> distinct (map nsname nss) \<and> list_all (ns_ok K) nss"

definition packable :: "int \<Rightarrow> server_nspace list \<Rightarrow> bool" where
  "packable sid nss \<longleftrightarrow> 0 \<le> sid \<and> sid \<le> int_max \<and> list_all (\<lambda>n. length (own_ranks sid n) = ltasks n) nss"

definition same_sizes :: "server_nspace list \<Rightarrow> server_nspace list \<Rightarrow> bool" where
  "same_sizes nss src \<longleftrightarrow> (\<forall>n \<in> set src. \<forall>m \<in> set nss. nsname m = nsname n \<longrightarrow> ntasks m = ntasks n)"

lemma find_name_Some: "find_name s nss = Some i \<Longrightarrow> i < length nss \<and> nsname (nss ! i) = s"
  by (induction nss arbitrary: i) (auto split: if_splits)

lemma find_name_None: "find_name s nss = None \<longleftrightarrow> s \<notin> nsname ` set nss"
  by (induction nss) auto

lemma find_name_append:
  "find_name s (nss @ [n]) =
    (case find_name s nss of Some i \<Rightarrow> Some i | None \<Rightarrow> if s = nsname n then Some (length nss) else None)"
  by (induction nss) (auto split: option.splits)

lemma find_name_update:
  "i < length nss \<Longrightarrow> nsname n = nsname (nss ! i) \<Longrightarrow> find_name s (nss[i := n]) = find_name s nss"
proof (induction nss arbitrary: i)
  case (Cons x nss)
  then show ?case by (cases i) auto
qed simp

definition claim :: "int \<Rightarrow> nat list \<Rightarrow> int list \<Rightarrow> int list" where
  "claim sid rs m = fold (\<lambda>r m. if 0 \<le> m ! r then m else m[r := sid]) rs m"

lemma claim_simps [simp]:
  "claim sid [] m = m" "claim sid (r # rs) m = claim sid rs (if 0 \<le> m ! r then m else m[r := sid])"
  by (simp_all add: claim_def)

lemma length_claim [simp]: "length (claim sid rs m) = length m"
  by (induction rs arbitrary: m) auto

lemma nth_claim:
  "0 \<le> sid \<Longrightarrow> i < length m \<Longrightarrow>
    claim sid rs m ! i = (if 0 \<le> m ! i then m ! i else if i \<in> set rs then sid else m ! i)"
proof (induction rs arbitrary: m)
  case (Cons r rs)
  then show ?case by (cases "r = i") auto
qed simp

lemma unpack_claims:
  "\<forall>r \<in> set rs. r < length m \<and> int r \<le> int_max \<Longrightarrow>
    unpack_ranks (length rs) sid (concat (map (\<lambda>i. enc_int (int i)) rs) @ bs) m = Some (claim sid rs m, bs)"
proof (induction rs arbitrary: m)
  case (Cons r rs)
  then have "dec_int (enc_int (int r) @ concat (map (\<lambda>i. enc_int (int i)) rs) @ bs) =
      Some (int r, concat (map (\<lambda>i. enc_int (int i)) rs) @ bs)"
    by (intro int_codec.read_back) (simp add: int_min_def)
  with Cons show ?case by auto
qed simp

definition add_ns :: "int \<Rightarrow> server_nspace \<Rightarrow> server_nspace list \<Rightarrow> server_nspace list" where
  "add_ns sid n nss =
     (case find_name (nsname n) nss of
        None \<Rightarrow> nss @ [n\<lparr>task_map := claim sid (own_ranks sid n) (replicate (ntasks n) (- 1))\<rparr>]
      | Some i \<Rightarrow> nss[i := (nss ! i)\<lparr>task_map := claim sid (own_ranks sid n) (task_map (nss ! i))\<rparr>])"

lemma own_ranks_less: "r \<in> set (own_ranks sid n) \<Longrightarrow> r < ntasks n"
  by (simp add: own_ranks_def)

lemma unpack_packed_ns:
  assumes "ns_ok K n" "packable sid [n]" "nss_ok K nss" "same_sizes nss [n]"
  shows "unpack_ns K (pack_ns K sid n @ bs) nss = Some (bs, add_ns sid n nss)"
proof -
  have n: "name_ok K (nsname n)" "length (task_map n) = ntasks n" "int (ntasks n) \<le> int_max"
    "int_min \<le> sid \<and> sid \<le> int_max" "length (own_ranks sid n) = ltasks n"
    using assms(1,2) by (auto simp: ns_ok_def packable_def int_min_def)
  have small: "ntasks n < 18446744073709551616" using n(3) by (simp add: int_max_def)
  have "ltasks n \<le> ntasks n"
    using n(5) length_filter_le [of "\<lambda>i. task_map n ! i = sid" "[0..<ntasks n]"] by (simp add: own_ranks_def)
  note reads = int_codec.read_back [OF n(4)] name_codec.read_back [OF n(1)] size_codec.read_back [OF small]
    size_codec.read_back [OF le_less_trans [OF this small]]
  have ranks: "unpack_ranks (ltasks n) sid (concat (map (\<lambda>i. enc_int (int i)) (own_ranks sid n)) @ bs) m =
      Some (claim sid (own_ranks sid n) m, bs)" if "length m = ntasks n" for m
    unfolding n(5) [symmetric] using that n(3) own_ranks_less by (intro unpack_claims) force
  show ?thesis
  proof (cases "find_name (nsname n) nss")
    case None
    then show ?thesis by (simp add: unpack_ns_def pack_ns_def reads ranks add_ns_def)
  next
    case (Some i)
    then have i: "i < length nss" "nsname (nss ! i) = nsname n" using find_name_Some by auto
    then have "ntasks (nss ! i) = ntasks n" "ns_ok K (nss ! i)"
      using assms(3,4) by (auto simp: same_sizes_def nss_ok_def list_all_length)
    then show ?thesis using Some by (simp add: unpack_ns_def pack_ns_def reads ranks add_ns_def ns_ok_def)
  qed
qed

lemma names_add_ns:
  "map nsname (add_ns sid n nss) = (if nsname n \<in> nsname ` set nss then map nsname nss else map nsname nss @ [nsname n])"
proof (cases "find_name (nsname n) nss")
  case None
  moreover from this have "nsname n \<notin> nsname ` set nss" by (simp add: find_name_None)
  ultimately show ?thesis by (simp add: add_ns_def)
next
  case (Some i)
  then have "i < length nss" "nsname (nss ! i) = nsname n" using find_name_Some by auto
  moreover from this have "nsname n \<in> nsname ` set nss" by (metis image_eqI nth_mem)
  moreover have "(map nsname nss)[i := nsname (nss ! i)] = map nsname nss"
    using list_update_id [of "map nsname nss" i] \<open>i < length nss\<close> by simp
  ultimately show ?thesis using Some by (simp add: add_ns_def map_update)
qed

lemma add_ns_mem:
  assumes "m \<in> set (add_ns sid n nss)"
  shows "(\<exists>m' \<in> set nss. nsname m = nsname m' \<and> ntasks m = ntasks m' \<and> length (task_map m) = length (task_map m')) \<or>
    (nsname m = nsname n \<and> ntasks m = ntasks n \<and> length (task_map m) = ntasks n)"
proof (cases "find_name (nsname n) nss")
  case None
  then show ?thesis using assms by (auto simp: add_ns_def)
next
  case (Some i)
  then have "i < length nss" using find_name_Some by auto
  then have "m \<in> set nss \<or> m = (nss ! i)\<lparr>task_map := claim sid (own_ranks sid n) (task_map (nss ! i))\<rparr>" "nss ! i \<in> set nss"
    using assms Some set_update_subset_insert [of nss i] by (auto simp: add_ns_def)
  then show ?thesis by auto
qed

lemma add_ns_ok:
  assumes "ns_ok K n" "nss_ok K nss"
  shows "nss_ok K (add_ns sid n nss)"
proof -
  have "distinct (map nsname (add_ns sid n nss))"
    using assms(2) by (auto simp: names_add_ns nss_ok_def)
  moreover have "ns_ok K m" if "m \<in> set (add_ns sid n nss)" for m
    using add_ns_mem [OF that] assms by (auto simp: ns_ok_def nss_ok_def list_all_iff)
  ultimately show ?thesis by (simp add: nss_ok_def list_all_iff)
qed

lemma add_ns_same_sizes:
  "same_sizes nss src \<Longrightarrow> same_sizes [n] src \<Longrightarrow> same_sizes (add_ns sid n nss) src"
  unfolding same_sizes_def using add_ns_mem by fastforce

lemma table_add_ns:
  assumes "ns_ok K n" "packable sid [n]" "nss_ok K nss" "same_sizes nss [n]"
  shows "table (add_ns sid n nss) = mine sid [n] ++ table nss"
proof (rule ext, clarify)
  fix s r
  have own: "r \<in> set (own_ranks sid n) \<longleftrightarrow> r < ntasks n \<and> task_map n ! r = sid" for r
    by (auto simp: own_ranks_def)
  have n: "0 \<le> sid" "length (task_map n) = ntasks n" using assms(1,2) by (auto simp: packable_def ns_ok_def)
  have mine: "mine sid [n] (s, r) = (if s = nsname n \<and> r \<in> set (own_ranks sid n) then Some sid else None)" for s r
    using n own by (auto simp: mine_def table_def)
  show "table (add_ns sid n nss) (s, r) = (mine sid [n] ++ table nss) (s, r)"
  proof (cases "find_name (nsname n) nss")
    case None
    then show ?thesis
      using n by (auto simp: add_ns_def table_def map_add_def mine find_name_append nth_claim nth_append
          own_ranks_less split: option.splits dest!: find_name_Some)
  next
    case (Some i)
    then have i: "i < length nss" "nsname (nss ! i) = nsname n" using find_name_Some by auto
    then have "ntasks (nss ! i) = ntasks n" "ns_ok K (nss ! i)"
      using assms(3,4) by (auto simp: same_sizes_def nss_ok_def list_all_length)
    then have len: "length (task_map (nss ! i)) = ntasks n" by (simp add: ns_ok_def)
    have "find_name s (add_ns sid n nss) = find_name s nss"
      using Some i by (simp add: add_ns_def find_name_update)
    moreover have "find_name s nss = Some i \<longleftrightarrow> s = nsname n"
      using Some find_name_Some [of s nss i] i(2) by auto
    ultimately show ?thesis
      using Some i n len
      by (auto simp: add_ns_def table_def map_add_def mine nth_list_update nth_claim own_ranks_less
          split: option.splits if_split_asm dest: find_name_Some)
  qed
qed

lemma mine_Cons:
  assumes "distinct (map nsname (n # src))"
  shows "mine sid (n # src) = mine sid src ++ mine sid [n]"
proof (rule ext, clarify)
  fix s r
  have "mine sid src (s, r) = None" if "s = nsname n"
    using assms that find_name_None [of s src] by (simp add: mine_def table_def)
  moreover have "table (n # src) (s, r) = (if s = nsname n then table [n] (s, r) else table src (s, r))"
    by (simp add: table_def split: option.splits)
  ultimately show "mine sid (n # src) (s, r) = (mine sid src ++ mine sid [n]) (s, r)"
    by (auto simp: mine_def map_add_def table_def)
qed

lemma same_sizes_Cons: "same_sizes nss (n # src) \<longleftrightarrow> same_sizes nss [n] \<and> same_sizes nss src"
  by (auto simp: same_sizes_def)

lemma same_sizes_distinct: "distinct (map nsname (n # src)) \<Longrightarrow> same_sizes [n] src"
  by (auto simp: same_sizes_def)

lemma same_sizes_refl: "nss_ok K nss \<Longrightarrow> same_sizes nss nss"
  by (auto simp: same_sizes_def nss_ok_def distinct_map inj_on_def)

definition add_all :: "int \<times> server_nspace list \<Rightarrow> server_nspace list \<Rightarrow> server_nspace list" where
  "add_all c nss = fold (add_ns (fst c)) (snd c) nss"

lemma unpack_packed:
  assumes "nss_ok K src" "packable sid src" "nss_ok K nss" "same_sizes nss src"
  shows "unpack_all K (length src) (concat (map (pack_ns K sid) src) @ bs) nss = Some (bs, add_all (sid, src) nss) \<and>
    nss_ok K (add_all (sid, src) nss) \<and> table (add_all (sid, src) nss) = mine sid src ++ table nss \<and>
    (\<forall>x. same_sizes nss x \<longrightarrow> same_sizes src x \<longrightarrow> same_sizes (add_all (sid, src) nss) x)"
  using assms
proof (induction src arbitrary: nss)
  case Nil
  then show ?case by (simp add: add_all_def mine_def table_def map_add_def)
next
  case (Cons n src)
  have src: "nss_ok K src" "packable sid src" "ns_ok K n" "packable sid [n]" "distinct (map nsname (n # src))"
    using Cons.prems by (auto simp: nss_ok_def packable_def)
  have sizes: "same_sizes nss [n]" "same_sizes nss src" using Cons.prems(4) by (auto simp: same_sizes_Cons [of nss n src])
  let ?nss = "add_ns sid n nss"
  have one: "unpack_ns K (pack_ns K sid n @ rest) nss = Some (rest, ?nss)" for rest
    using unpack_packed_ns src Cons.prems(3) sizes by blast
  have "nss_ok K ?nss" using add_ns_ok src Cons.prems(3) by blast
  moreover have keep: "same_sizes ?nss x" if "same_sizes nss x" "same_sizes [n] x" for x
    using add_ns_same_sizes that by blast
  ultimately have IH: "unpack_all K (length src) (concat (map (pack_ns K sid) src) @ bs) ?nss =
      Some (bs, add_all (sid, src) ?nss)" "nss_ok K (add_all (sid, src) ?nss)"
    "table (add_all (sid, src) ?nss) = mine sid src ++ table ?nss"
    "\<And>x. same_sizes ?nss x \<Longrightarrow> same_sizes src x \<Longrightarrow> same_sizes (add_all (sid, src) ?nss) x"
    using Cons.IH [of ?nss] src sizes same_sizes_distinct by blast+
  have "add_all (sid, n # src) nss = add_all (sid, src) ?nss" by (simp add: add_all_def)
  moreover have "table ?nss = mine sid [n] ++ table nss" using table_add_ns src Cons.prems(3) sizes by blast
  moreover have "same_sizes src x \<and> same_sizes [n] x" if "same_sizes (n # src) x" for x
    using that by (auto simp: same_sizes_def)
  ultimately show ?case using IH one keep mine_Cons [OF src(5), of sid] by (simp add: map_add_assoc)
qed

lemma pack_size:
  assumes "nss_ok K src" "packable sid src"
  shows "length (concat (map (pack_ns K sid) src)) =
    (max_nslen K + 1) * length src + (\<Sum>n \<leftarrow> src. 4 + 8 + 8 + 4 * ltasks n)"
  using assms
proof (induction src)
  case (Cons n src)
  then have n: "name_ok K (nsname n)" "int_min \<le> sid \<and> sid \<le> int_max" "length (own_ranks sid n) = ltasks n"
    and src: "nss_ok K src" "packable sid src"
    by (auto simp: nss_ok_def ns_ok_def packable_def int_min_def)
  have "length (concat (map (\<lambda>i. enc_int (int i)) rs)) = 4 * length rs" for rs
    by (induction rs) (auto simp: enc_int_def)
  then have "length (pack_ns K sid n) = 4 + (max_nslen K + 1) + 8 + 8 + 4 * ltasks n"
    using n name_codec.width_enc [OF n(1)] by (simp add: pack_ns_def enc_int_def enc_size_def)
  then show ?case using Cons.IH [OF src] by (simp add: algebra_simps)
qed simp

text \<open>What a server contributes to the exchange: its identifier and table; nothing when it has no namespace.\<close>

definition contribution :: "pmix_consts \<Rightarrow> int \<times> server_nspace list \<Rightarrow> bytes" where
  "contribution K c = (if snd c = [] then [] else
     enc_size (length (snd c)) @ concat (map (pack_ns K (fst c)) (snd c)))"

lemma pack_contribution:
  assumes "nss_ok K src" "packable sid src"
  shows "server_pack_procs K sid src [] = Some (length (contribution K (sid, src)), contribution K (sid, src))"
  using pack_size [OF assms]
  by (simp add: server_pack_procs_def contribution_def Let_def enc_size_def)

lemma unpack_contribution:
  assumes "nss_ok K src" "packable sid src" "nss_ok K nss" "same_sizes nss src" "length src < 18446744073709551616"
  shows "server_unpack_procs K (contribution K (sid, src) @ bs) nss = server_unpack_procs K bs (add_all (sid, src) nss)"
proof (cases "src = []")
  case True
  then show ?thesis by (simp add: contribution_def add_all_def)
next
  case False
  have "length (enc_size (length src)) = 8" by (simp add: enc_size_def)
  then have "enc_size (length src) \<noteq> []" by auto
  then show ?thesis
    using False unpack_packed [OF assms(1-4), of bs] size_codec.read_back [OF assms(5)]
    by (subst server_unpack_procs.simps) (simp add: contribution_def)
qed

definition contributor_ok :: "pmix_consts \<Rightarrow> int \<times> server_nspace list \<Rightarrow> bool" where
  "contributor_ok K c \<longleftrightarrow> nss_ok K (snd c) \<and> packable (fst c) (snd c) \<and> length (snd c) < 18446744073709551616"

lemma unpack_contributions:
  assumes "\<forall>c \<in> set cs. contributor_ok K c" "nss_ok K nss" "\<forall>c \<in> set cs. same_sizes nss (snd c)"
    "\<forall>c \<in> set cs. \<forall>d \<in> set cs. same_sizes (snd c) (snd d)"
  shows "server_unpack_procs K (concat (map (contribution K) cs)) nss = Some (fold add_all cs nss) \<and>
    nss_ok K (fold add_all cs nss) \<and>
    table (fold add_all cs nss) = fold (\<lambda>c t. mine (fst c) (snd c) ++ t) cs (table nss)"
  using assms
proof (induction cs arbitrary: nss)
  case Nil
  then show ?case by (simp add: server_unpack_procs.simps)
next
  case (Cons c cs)
  have c: "nss_ok K (snd c)" "packable (fst c) (snd c)" "length (snd c) < 18446744073709551616" "same_sizes nss (snd c)"
    using Cons.prems by (auto simp: contributor_ok_def)
  note one = unpack_packed [OF c(1,2) Cons.prems(2) c(4)]
  have step: "server_unpack_procs K (contribution K c @ bs) nss = server_unpack_procs K bs (add_all c nss)" for bs
    using unpack_contribution [OF c(1,2) Cons.prems(2) c(4,3)] by simp
  have "\<forall>d \<in> set cs. same_sizes (add_all c nss) (snd d)" using one Cons.prems by simp
  then have "server_unpack_procs K (concat (map (contribution K) cs)) (add_all c nss) =
        Some (fold add_all cs (add_all c nss)) \<and> nss_ok K (fold add_all cs (add_all c nss)) \<and>
      table (fold add_all cs (add_all c nss)) =
        fold (\<lambda>c t. mine (fst c) (snd c) ++ t) cs (table (add_all c nss))"
    using Cons.prems one by (intro Cons.IH) auto
  then show ?case using one step by simp
qed

lemma table_find_id: "table nss (s, r) = Some sid \<Longrightarrow> server_find_id nss s (int r) = Some sid"
proof -
  have find: "find (\<lambda>n. nsname n = s) nss = map_option (\<lambda>i. nss ! i) (find_name s nss)"
    by (induction nss) (auto simp: option.map_comp o_def)
  assume "table nss (s, r) = Some sid"
  then show ?thesis by (auto simp: table_def server_find_id_def find split: option.splits if_splits)
qed

section \<open>Requests for the data of a process\<close>

definition server_pack_dmdx :: "pmix_consts \<Rightarrow> int \<Rightarrow> string \<Rightarrow> int \<Rightarrow> bytes" where
  "server_pack_dmdx K sender_id name r = enc_int sender_id @ enc_name K name @ enc_int r"

definition server_unpack_dmdx :: "pmix_consts \<Rightarrow> bytes \<Rightarrow> (int \<times> proc) option" where
  "server_unpack_dmdx K bs =
     do { (sender, bs) \<leftarrow> dec_int bs;
          (s, bs) \<leftarrow> dec_name K bs;
          (r, bs) \<leftarrow> dec_int bs;
          Some (sender, \<lparr>nspace = s, prank = word_of_int r\<rparr>) }"

lemma dmdx_roundtrip:
  assumes "int_min \<le> sid \<and> sid \<le> int_max" "name_ok K s" "int_min \<le> r \<and> r \<le> int_max"
  shows "server_unpack_dmdx K (server_pack_dmdx K sid s r) = Some (sid, \<lparr>nspace = s, prank = word_of_int r\<rparr>)"
  using int_codec.read_back [OF assms(1)] name_codec.read_back [OF assms(2)] int_codec.read_back [OF assms(3), of "[]"]
  by (simp add: server_unpack_dmdx_def server_pack_dmdx_def)

section \<open>Properties\<close>

text \<open>
  C4: when every server packs the ranks it runs and a server unpacks the collected buffers,
  its table becomes the union of the tables, entries it already had stay as they were, and the
  server of every known process is found.
\<close>

theorem procs_exchange:
  assumes "\<forall>c \<in> set cs. contributor_ok K c" "nss_ok K nss" "\<forall>c \<in> set cs. same_sizes nss (snd c)"
    "\<forall>c \<in> set cs. \<forall>d \<in> set cs. same_sizes (snd c) (snd d)"
  shows "(\<forall>c \<in> set cs. \<exists>n. server_pack_procs K (fst c) (snd c) [] = Some (n, contribution K c)) \<and>
    (\<exists>nss'. server_unpack_procs K (concat (map (contribution K) cs)) nss = Some nss' \<and>
      table nss' = fold (\<lambda>c t. mine (fst c) (snd c) ++ t) cs (table nss) \<and>
      (\<forall>s r sid. table nss' (s, r) = Some sid \<longrightarrow> server_find_id nss' s (int r) = Some sid))"
  using unpack_contributions [OF assms] pack_contribution assms(1) table_find_id
  by (auto simp: contributor_ok_def)

definition tiny_consts :: pmix_consts where
  "tiny_consts = \<lparr>max_nslen = 2, max_keylen = 2, rank_undef = - 1, rank_wildcard = - 2\<rparr>"

definition tiny_table :: "int list \<Rightarrow> nat \<Rightarrow> server_nspace list" where
  "tiny_table m n = [\<lparr>nsname = ''a'', ntasks = 3, ltasks = n, task_map = m\<rparr>]"

theorem procs_exchange_witness:
  "\<exists>nss'. server_unpack_procs tiny_consts (concat (map (contribution tiny_consts)
      [(0, tiny_table [0, 0, - 1] 2), (1, tiny_table [- 1, - 1, 1] 1)])) (tiny_table [- 1, - 1, 1] 1) = Some nss' \<and>
    server_find_id nss' ''a'' 1 = Some 0 \<and> server_find_id nss' ''a'' 2 = Some 1"
proof -
  let ?cs = "[(0, tiny_table [0, 0, - 1] 2), (1, tiny_table [- 1, - 1, 1] 1)]"
  have "[0..<3] = [0, 1, 2 :: nat]" by code_simp
  then have a: "\<forall>c \<in> set ?cs. contributor_ok tiny_consts c"
    by (simp add: contributor_ok_def nss_ok_def ns_ok_def packable_def tiny_table_def tiny_consts_def name_ok_def
        own_ranks_def int_max_def)
  have b: "nss_ok tiny_consts (tiny_table [- 1, - 1, 1] 1)"
    by (simp add: nss_ok_def ns_ok_def tiny_table_def tiny_consts_def name_ok_def int_max_def)
  have c: "same_sizes (tiny_table m n) (tiny_table m' n')" for m n m' n'
    by (simp add: same_sizes_def tiny_table_def)
  have "fold (\<lambda>c t. mine (fst c) (snd c) ++ t) ?cs (table (tiny_table [- 1, - 1, 1] 1)) (''a'', 1) = Some 0"
    "fold (\<lambda>c t. mine (fst c) (snd c) ++ t) ?cs (table (tiny_table [- 1, - 1, 1] 1)) (''a'', 2) = Some 1"
    by code_simp+
  moreover have "\<forall>c \<in> set ?cs. same_sizes (tiny_table [- 1, - 1, 1] 1) (snd c)"
    "\<forall>c \<in> set ?cs. \<forall>d \<in> set ?cs. same_sizes (snd c) (snd d)" using c by simp_all
  then obtain nss' where
    "server_unpack_procs tiny_consts (concat (map (contribution tiny_consts) ?cs)) (tiny_table [- 1, - 1, 1] 1) = Some nss'"
    "table nss' = fold (\<lambda>c t. mine (fst c) (snd c) ++ t) ?cs (table (tiny_table [- 1, - 1, 1] 1))"
    "\<And>s r sid. table nss' (s, r) = Some sid \<Longrightarrow> server_find_id nss' s (int r) = Some sid"
    using procs_exchange [OF a b] by blast
  ultimately show ?thesis
    using \<open>\<And>s r sid. table nss' (s, r) = Some sid \<Longrightarrow> server_find_id nss' s (int r) = Some sid\<close> [of "''a''" 1 0]
      \<open>\<And>s r sid. table nss' (s, r) = Some sid \<Longrightarrow> server_find_id nss' s (int r) = Some sid\<close> [of "''a''" 2 1]
    by simp
qed

end
