(* ===== verification/Server.thy ===== *)
theory Server
  imports Wire
begin

text \<open>
  The servers of a multi-server run (src/unit/test_server.c). Server 0 is the hub: it has a pipe
  pair to every other server and one pipe to itself; the others only have the pair to the hub.
  The handler \<open>server_read_cb\<close> counts barrier and fence messages, forwards messages for other
  servers, and serves requests for the data of a process.

  A pipe carries whole messages in order: reads and writes of fewer bytes than asked for and
  failing writes are not modelled. The callbacks of the PMIx library are events the handlers
  return. \<open>None\<close> is \<open>abort\<close>, a NULL callback, an empty list of servers where the code takes its
  first entry, or what \<open>Wire\<close> says of the buffers.
\<close>

section \<open>State\<close>

datatype server_cmd =
    CMD_BARRIER_REQUEST
  | CMD_BARRIER_RESPONSE
  | CMD_FENCE_CONTRIB
  | CMD_FENCE_COMPLETE
  | CMD_DMDX_REQUEST
  | CMD_DMDX_RESPONSE

text \<open>A message header with the bytes that follow it; \<open>size\<close> is their number.\<close>

record msg =
  dst_id :: int
  src_id :: int
  cmd :: server_cmd
  payload :: bytes

text \<open>\<open>modex_cbfunc\<close> with its \<open>cbdata\<close>: \<open>_send_procs_cb\<close>, or a callback \<open>'c\<close> of the library.\<close>

datatype 'c modex_cb = Send_procs_cb | Library_cb 'c

record 'c server_info =
  idx :: int
  lock_active :: bool
  modex_cbfunc :: "'c modex_cb option"

record 'c server =
  my_server_id :: int
  server_list :: "'c server_info list"
  server_nspaces :: "server_nspace list"
  barrier_cnt :: nat
  contrib_cnt :: nat
  fence_buf :: bytes                      \<comment> \<open>NULL is the empty list\<close>

text \<open>
  What a handler does outside the server: a message written to the pipe of an entry of
  \<open>server_list\<close>, a callback called with a status and data, a request to the library for the data
  of a local process, with the server that asked.
\<close>

datatype 'c event =
    Written nat msg
  | Called 'c pmix_status bytes
  | Dmodex_request proc int

fun find_idx :: "int \<Rightarrow> 'c server_info list \<Rightarrow> nat option" where
  "find_idx d [] = None"
| "find_idx d (p # ps) = (if idx p = d then Some 0 else map_option Suc (find_idx d ps))"

text \<open>The entry a server waits on: \<open>my_server_info\<close> of the hub, the first entry elsewhere.\<close>

definition own_entry :: "'c server \<Rightarrow> nat option" where
  "own_entry s =
     (if my_server_id s = 0 then find_idx 0 (server_list s)
      else if server_list s = [] then None else Some 0)"

definition set_entry :: "nat \<Rightarrow> ('c server_info \<Rightarrow> 'c server_info) \<Rightarrow> 'c server \<Rightarrow> 'c server" where
  "set_entry i f s = s\<lparr>server_list := (server_list s)[i := f (server_list s ! i)]\<rparr>"

section \<open>Sending\<close>

definition server_fwd_msg :: "msg \<Rightarrow> 'c server \<Rightarrow> pmix_status \<times> 'c event list" where
  "server_fwd_msg m s =
     (case find_idx (dst_id m) (server_list s) of
        None \<Rightarrow> (PMIX_ERROR, [])
      | Some i \<Rightarrow> (PMIX_SUCCESS, [Written i m]))"

definition server_send_msg :: "msg \<Rightarrow> 'c server \<Rightarrow> 'c event option" where
  "server_send_msg m s =
     (if my_server_id s = 0
      then map_option (\<lambda>i. Written i m) (find_idx (dst_id m) (server_list s))
      else if server_list s = [] then None else Some (Written 0 m))"

fun send_each :: "server_cmd \<Rightarrow> bytes \<Rightarrow> int list \<Rightarrow> 'c server \<Rightarrow> 'c event list option" where
  "send_each c bs [] s = Some []"
| "send_each c bs (d # ds) s =
     do { e \<leftarrow> server_send_msg \<lparr>dst_id = d, src_id = my_server_id s, cmd = c, payload = bs\<rparr> s;
          es \<leftarrow> send_each c bs ds s;
          Some (e # es) }"

definition request :: "server_cmd \<Rightarrow> bytes \<Rightarrow> 'c server \<Rightarrow> msg" where
  "request c bs s = \<lparr>dst_id = 0, src_id = my_server_id s, cmd = c, payload = bs\<rparr>"

text \<open>\<open>server_barrier\<close> and \<open>server_send_procs\<close> up to their \<open>PMIX_WAIT_THREAD\<close>.\<close>

definition server_barrier :: "'c server \<Rightarrow> ('c server \<times> 'c event list) option" where
  "server_barrier s =
     do { i \<leftarrow> own_entry s;
          let s = set_entry i (\<lambda>p. p\<lparr>lock_active := True\<rparr>) s;
          e \<leftarrow> server_send_msg (request CMD_BARRIER_REQUEST [] s) s;
          Some (s, [e]) }"

definition server_send_procs :: "pmix_consts \<Rightarrow> 'c server \<Rightarrow> ('c server \<times> 'c event list) option" where
  "server_send_procs K s =
     do { i \<leftarrow> own_entry s;
          (size, buf) \<leftarrow> server_pack_procs K (my_server_id s) (server_nspaces s) [];
          let s = set_entry i (\<lambda>p. p\<lparr>lock_active := True, modex_cbfunc := Some Send_procs_cb\<rparr>) s;
          e \<leftarrow> server_send_msg (request CMD_FENCE_CONTRIB buf s) s;
          Some (s, [e]) }"

definition server_fence_contrib :: "bytes \<Rightarrow> 'c option \<Rightarrow> 'c server \<Rightarrow> ('c server \<times> 'c event list) option" where
  "server_fence_contrib data cbfunc s =
     do { i \<leftarrow> own_entry s;
          let s = set_entry i (\<lambda>p. p\<lparr>modex_cbfunc := map_option Library_cb cbfunc\<rparr>) s;
          e \<leftarrow> server_send_msg (request CMD_FENCE_CONTRIB data s) s;
          Some (s, [e]) }"

text \<open>
  \<open>server_dmdx_get\<close>: the server of the process is looked up in the table; when it is not known
  the callback is called with an error at once. The request leaves by the entry of that server
  on the hub, by the only entry elsewhere.
\<close>

definition server_dmdx_get ::
  "pmix_consts \<Rightarrow> string \<Rightarrow> int \<Rightarrow> 'c \<Rightarrow> 'c server \<Rightarrow> (pmix_status \<times> 'c server \<times> 'c event list) option" where
  "server_dmdx_get K name r cbfunc s =
     do { d \<leftarrow> server_find_id (server_nspaces s) name r;
          if d < 0 then Some (PMIX_ERROR, s, [Called cbfunc PMIX_ERROR []])
          else if my_server_id s \<noteq> 0 \<and> server_list s = [] then None
          else (case (if my_server_id s = 0 then find_idx d (server_list s) else Some 0) of
              None \<Rightarrow> Some (PMIX_ERROR, s, [Called cbfunc PMIX_ERROR []])
            | Some i \<Rightarrow>
                do { let s = set_entry i (\<lambda>p. p\<lparr>modex_cbfunc := Some (Library_cb cbfunc)\<rparr>) s;
                     e \<leftarrow> server_send_msg \<lparr>dst_id = d, src_id = my_server_id s, cmd = CMD_DMDX_REQUEST,
                       payload = server_pack_dmdx K (my_server_id s) name r\<rparr> s;
                     Some (PMIX_SUCCESS, s, [e]) }) }"

text \<open>\<open>_dmdx_cb\<close>, called by the library with the data of a local process.\<close>

definition dmdx_cb :: "int \<Rightarrow> bytes \<Rightarrow> 'c server \<Rightarrow> 'c event option" where
  "dmdx_cb sender_id data s =
     server_send_msg \<lparr>dst_id = sender_id, src_id = my_server_id s, cmd = CMD_DMDX_RESPONSE, payload = data\<rparr> s"

text \<open>
  \<open>fencenb_fn\<close> and \<open>dmodex_fn\<close> of server_callbacks.c, which the library calls: with one server they
  answer themselves.
\<close>

definition single_server :: "'c server \<Rightarrow> bool" where
  "single_server s \<longleftrightarrow> length (server_list s) = 1 \<and> my_server_id s = 0"

definition fencenb_fn :: "bytes \<Rightarrow> 'c option \<Rightarrow> 'c server \<Rightarrow> (pmix_status \<times> 'c server \<times> 'c event list) option" where
  "fencenb_fn data cbfunc s =
     (if single_server s
      then Some (PMIX_SUCCESS, s, case cbfunc of None \<Rightarrow> [] | Some c \<Rightarrow> [Called c PMIX_SUCCESS data])
      else map_option (\<lambda>(s, es). (PMIX_SUCCESS, s, es)) (server_fence_contrib data cbfunc s))"

definition dmodex_fn ::
  "pmix_consts \<Rightarrow> string \<Rightarrow> int \<Rightarrow> 'c \<Rightarrow> 'c server \<Rightarrow> (pmix_status \<times> 'c server \<times> 'c event list) option" where
  "dmodex_fn K name r cbfunc s =
     (if single_server s then Some (PMIX_ERR_NOT_FOUND, s, []) else server_dmdx_get K name r cbfunc s)"

section \<open>Receiving\<close>

text \<open>
  The call of \<open>modex_cbfunc\<close> with the payload. \<open>_send_procs_cb\<close> unpacks the table and wakes the
  thread that waits on its own entry.
\<close>

definition call_modex :: "pmix_consts \<Rightarrow> nat \<Rightarrow> bytes \<Rightarrow> 'c server \<Rightarrow> ('c server \<times> 'c event list) option" where
  "call_modex K i data s =
     (case modex_cbfunc (server_list s ! i) of
        None \<Rightarrow> None
      | Some (Library_cb c) \<Rightarrow> Some (s, [Called c PMIX_SUCCESS data])
      | Some Send_procs_cb \<Rightarrow>
          do { nss \<leftarrow> server_unpack_procs K data (server_nspaces s);
               j \<leftarrow> own_entry s;
               Some (set_entry j (\<lambda>p. p\<lparr>lock_active := False\<rparr>) (s\<lparr>server_nspaces := nss\<rparr>), []) })"

definition server_read_cb :: "pmix_consts \<Rightarrow> nat \<Rightarrow> msg \<Rightarrow> 'c server \<Rightarrow> ('c server \<times> 'c event list) option" where
  "server_read_cb K i m s =
     (if my_server_id s \<noteq> dst_id m then Some (s, snd (server_fwd_msg m s))
      else (case cmd m of
          CMD_BARRIER_REQUEST \<Rightarrow>
            (let s = s\<lparr>barrier_cnt := barrier_cnt s + 1\<rparr>
             in if length (server_list s) = barrier_cnt s
                then do { let s = s\<lparr>barrier_cnt := 0\<rparr>;
                          es \<leftarrow> send_each CMD_BARRIER_RESPONSE [] (map idx (server_list s)) s;
                          Some (s, es) }
                else Some (s, []))
        | CMD_BARRIER_RESPONSE \<Rightarrow> Some (set_entry i (\<lambda>p. p\<lparr>lock_active := False\<rparr>) s, [])
        | CMD_FENCE_CONTRIB \<Rightarrow>
            (let s = s\<lparr>contrib_cnt := contrib_cnt s + 1, fence_buf := fence_buf s @ payload m\<rparr>
             in if length (server_list s) = contrib_cnt s
                then do { es \<leftarrow> send_each CMD_FENCE_COMPLETE (fence_buf s) (map idx (server_list s)) s;
                          Some (s\<lparr>fence_buf := [], contrib_cnt := 0\<rparr>, es) }
                else Some (s, []))
        | CMD_FENCE_COMPLETE \<Rightarrow> call_modex K i (payload m) s
        | CMD_DMDX_REQUEST \<Rightarrow>
            if payload m = [] then None
            else do { (sender, p) \<leftarrow> server_unpack_dmdx K (payload m);
                      Some (s, [Dmodex_request p sender]) }
        | CMD_DMDX_RESPONSE \<Rightarrow> call_modex K i (payload m) s))"

section \<open>The network\<close>

text \<open>
  \<open>server_init\<close> gives server 0 one entry for every server, the highest first, and every other
  server one entry (\<open>idx\<close> 0) for the hub. \<open>pmix_lock\<close>s start active.
\<close>

definition new_info :: "int \<Rightarrow> 'c server_info" where
  "new_info i = \<lparr>idx = i, lock_active = True, modex_cbfunc = None\<rparr>"

definition init_server :: "nat \<Rightarrow> nat \<Rightarrow> 'c server" where
  "init_server nservers i =
     \<lparr>my_server_id = int i,
      server_list = (if i = 0 then map (\<lambda>j. new_info (int j)) (rev [0..<nservers]) else [new_info 0]),
      server_nspaces = [], barrier_cnt = 0, contrib_cnt = 0, fence_buf = []\<rparr>"

text \<open>
  \<open>pipe a b\<close> is the pipe server \<open>a\<close> writes and server \<open>b\<close> reads. \<open>waiting\<close> marks the servers whose
  main thread is inside \<open>server_barrier\<close>; \<open>entered\<close> counts their calls of it. \<open>calls\<close> are the
  events for the library, in order.
\<close>

record 'c net =
  node :: "nat \<Rightarrow> 'c server"
  pipe :: "nat \<Rightarrow> nat \<Rightarrow> msg list"
  waiting :: "nat \<Rightarrow> bool"
  entered :: "nat \<Rightarrow> nat"
  calls :: "(nat \<times> 'c event) list"

definition init_net :: "nat \<Rightarrow> 'c net" where
  "init_net n = \<lparr>node = init_server n, pipe = (\<lambda>a b. []), waiting = (\<lambda>i. False), entered = (\<lambda>i. 0), calls = []\<rparr>"

text \<open>The server at the other end of entry \<open>i\<close> of server \<open>a\<close>, and the entry for server \<open>f\<close>.\<close>

definition far_end :: "nat \<Rightarrow> nat \<Rightarrow> nat \<Rightarrow> nat" where
  "far_end n a i = (if a = 0 then n - 1 - i else 0)"

definition entry_of :: "nat \<Rightarrow> nat \<Rightarrow> nat \<Rightarrow> nat" where
  "entry_of n a f = (if a = 0 then n - 1 - f else 0)"

fun post :: "nat \<Rightarrow> nat \<Rightarrow> 'c event list \<Rightarrow> 'c net \<Rightarrow> 'c net" where
  "post n a [] nt = nt"
| "post n a (Written i m # es) nt =
     post n a es (nt\<lparr>pipe := (pipe nt)(a := (pipe nt a)(far_end n a i := pipe nt a (far_end n a i) @ [m]))\<rparr>)"
| "post n a (e # es) nt = post n a es (nt\<lparr>calls := calls nt @ [(a, e)]\<rparr>)"

definition set_node :: "nat \<Rightarrow> 'c server \<Rightarrow> 'c net \<Rightarrow> 'c net" where
  "set_node a s nt = nt\<lparr>node := (node nt)(a := s)\<rparr>"

text \<open>
  The steps: the main thread of a server enters the barrier or leaves it when its lock was
  released, a server handles the first message of a pipe, the library asks for a fence or for the
  data of a process, or answers such a request.
\<close>

inductive net_step :: "pmix_consts \<Rightarrow> nat \<Rightarrow> 'c net \<Rightarrow> 'c net \<Rightarrow> bool" for K n where
  enter: "a < n \<Longrightarrow> \<not> waiting nt a \<Longrightarrow> server_barrier (node nt a) = Some (s, es) \<Longrightarrow>
    net_step K n nt (post n a es (set_node a s (nt\<lparr>waiting := (waiting nt)(a := True),
      entered := (entered nt)(a := entered nt a + 1)\<rparr>)))"
| leave: "a < n \<Longrightarrow> waiting nt a \<Longrightarrow> own_entry (node nt a) = Some i \<Longrightarrow>
    \<not> lock_active (server_list (node nt a) ! i) \<Longrightarrow>
    net_step K n nt (nt\<lparr>waiting := (waiting nt)(a := False)\<rparr>)"
| deliver: "f < n \<Longrightarrow> a < n \<Longrightarrow> pipe nt f a = m # ms \<Longrightarrow>
    server_read_cb K (entry_of n a f) m (node nt a) = Some (s, es) \<Longrightarrow>
    net_step K n nt (post n a es (set_node a s (nt\<lparr>pipe := (pipe nt)(f := (pipe nt f)(a := ms))\<rparr>)))"
| fence: "a < n \<Longrightarrow> fencenb_fn data c (node nt a) = Some (rc, s, es) \<Longrightarrow>
    net_step K n nt (post n a es (set_node a s nt))"
| get: "a < n \<Longrightarrow> dmodex_fn K name r c (node nt a) = Some (rc, s, es) \<Longrightarrow>
    net_step K n nt (post n a es (set_node a s nt))"
| answer: "a < n \<Longrightarrow> (a, Dmodex_request p d) \<in> set (calls nt) \<Longrightarrow> dmdx_cb d data (node nt a) = Some e \<Longrightarrow>
    net_step K n nt (post n a [e] nt)"

inductive_cases net_stepE [consumes 1, case_names enter leave deliver fence get answer]: "net_step K n nt nt'"

section \<open>The shape of the network\<close>


lemma find_idx_cong: "map idx ps = map idx qs \<Longrightarrow> find_idx d ps = find_idx d qs"
proof (induction ps arbitrary: qs)
  case (Cons p ps)
  then show ?case by (cases qs) auto
qed simp

lemma find_idx_Some: "find_idx d ps = Some i \<Longrightarrow> i < length ps \<and> idx (ps ! i) = d"
  by (induction ps arbitrary: i) (auto split: if_splits)

text \<open>A server of the star with \<open>n\<close> servers.\<close>

definition star_node :: "nat \<Rightarrow> nat \<Rightarrow> 'c server \<Rightarrow> bool" where
  "star_node n a s \<longleftrightarrow> my_server_id s = int a \<and>
     map idx (server_list s) = (if a = 0 then map int (rev [0..<n]) else [0])"

lemma find_idx_rev: "d < n \<Longrightarrow> map idx ps = map int (rev [0..<n]) \<Longrightarrow> find_idx (int d) ps = Some (n - 1 - d)"
proof (induction n arbitrary: ps)
  case (Suc n)
  then obtain p qs where ps: "ps = p # qs" "idx p = int n" "map idx qs = map int (rev [0..<n])"
    by (cases ps) auto
  show ?case
  proof (cases "d = n")
    case False
    with Suc.prems(1) have "d < n" by simp
    then show ?thesis using Suc.IH [of qs] ps False by (auto simp: Suc_diff_Suc)
  qed (simp add: ps)
qed simp

lemma star_hub:
  assumes "star_node n 0 s" "d < n"
  shows "find_idx (int d) (server_list s) = Some (n - 1 - d)"
  using assms find_idx_rev [OF assms(2), of "server_list s"] by (simp add: star_node_def)

lemma star_length: "star_node n a s \<Longrightarrow> length (server_list s) = (if a = 0 then n else 1)"
  unfolding star_node_def by (auto dest: arg_cong [where f = length])

lemma star_own: "star_node n a s \<Longrightarrow> a < n \<Longrightarrow> own_entry s = Some (entry_of n a 0)"
  using star_hub [of n s 0] star_length [of n a s]
  by (cases "a = 0") (auto simp: own_entry_def entry_of_def star_node_def)

lemma star_entry: "star_node n a s \<Longrightarrow> f < n \<Longrightarrow> entry_of n a f < length (server_list s)"
  using star_length [of n a s] by (auto simp: entry_of_def)

lemma star_send:
  assumes "star_node n a s" "dst_id m = int d" "d < n"
  shows "server_send_msg m s = Some (Written (entry_of n a d) m)"
  using assms star_hub [of n s d] star_length [of n a s]
  by (cases "a = 0") (auto simp: server_send_msg_def star_node_def entry_of_def)

lemma map_entry: "(\<And>p. g (f p) = g p) \<Longrightarrow> map g (ps[i := f (ps ! i)]) = map g ps"
  by (cases "i < length ps") (auto simp: map_update list_update_same_conv list_update_beyond)

lemma star_set_entry [simp]:
  "(\<And>p. idx (f p) = idx p) \<Longrightarrow> star_node n a (set_entry i f s) = star_node n a s"
  using map_entry [of idx f "server_list s" i] by (simp add: star_node_def set_entry_def)

lemma star_init: "star_node n a (init_server n a)"
  by (simp add: star_node_def init_server_def new_info_def comp_def)

text \<open>What a list of events adds to the pipe to server \<open>b\<close>.\<close>

fun sent :: "nat \<Rightarrow> nat \<Rightarrow> nat \<Rightarrow> 'c event list \<Rightarrow> msg list" where
  "sent n a b [] = []"
| "sent n a b (Written i m # es) = (if far_end n a i = b then m # sent n a b es else sent n a b es)"
| "sent n a b (e # es) = sent n a b es"

fun called :: "nat \<Rightarrow> 'c event list \<Rightarrow> (nat \<times> 'c event) list" where
  "called a [] = []"
| "called a (Written i m # es) = called a es"
| "called a (e # es) = (a, e) # called a es"

lemma post_simps [simp]:
  "node (post n a es nt) = node nt" "waiting (post n a es nt) = waiting nt" "entered (post n a es nt) = entered nt"
  "pipe (post n a es nt) f b = pipe nt f b @ (if f = a then sent n a b es else [])"
  "calls (post n a es nt) = calls nt @ called a es"
  by (induction n a es nt rule: post.induct) auto

lemma set_node_simps [simp]:
  "node (set_node a s nt) b = (if b = a then s else node nt b)" "waiting (set_node a s nt) = waiting nt"
  "entered (set_node a s nt) = entered nt" "pipe (set_node a s nt) = pipe nt" "calls (set_node a s nt) = calls nt"
  by (simp_all add: set_node_def)

lemma far_entry [simp]: "b < n \<Longrightarrow> a = 0 \<or> b = 0 \<Longrightarrow> far_end n a (entry_of n a b) = b"
  by (auto simp: far_end_def entry_of_def)

section \<open>The barrier\<close>

abbreviation is_req :: "msg \<Rightarrow> bool" where
  "is_req m \<equiv> cmd m = CMD_BARRIER_REQUEST"

abbreviation is_resp :: "msg \<Rightarrow> bool" where
  "is_resp m \<equiv> cmd m = CMD_BARRIER_RESPONSE"

definition reqs :: "'c net \<Rightarrow> nat \<Rightarrow> nat" where
  "reqs nt a = length (filter is_req (pipe nt a 0))"

definition resps :: "'c net \<Rightarrow> nat \<Rightarrow> nat" where
  "resps nt a = length (filter is_resp (pipe nt 0 a))"

definition locked :: "nat \<Rightarrow> nat \<Rightarrow> 'c server \<Rightarrow> bool" where
  "locked n a s \<longleftrightarrow> lock_active (server_list s ! entry_of n a 0)"

text \<open>
  In round \<open>r\<close> a server has not entered the barrier, or entered it with its request still in the
  pipe or counted, or was released with the response still in the pipe.
\<close>

definition phase :: "nat \<Rightarrow> nat \<Rightarrow> 'c net \<Rightarrow> nat \<Rightarrow> bool" where
  "phase n r nt a \<longleftrightarrow>
     (entered nt a = r \<and> reqs nt a = 0 \<and> resps nt a = 0 \<and> (waiting nt a \<longrightarrow> \<not> locked n a (node nt a))) \<or>
     (entered nt a = Suc r \<and> reqs nt a \<le> 1 \<and> resps nt a = 0 \<and> waiting nt a \<and> locked n a (node nt a)) \<or>
     (entered nt a = r \<and> reqs nt a = 0 \<and> resps nt a = 1 \<and> waiting nt a \<and> locked n a (node nt a))"

definition counted :: "nat \<Rightarrow> nat \<Rightarrow> 'c net \<Rightarrow> nat set" where
  "counted n r nt = {a. a < n \<and> entered nt a = Suc r \<and> reqs nt a = 0}"

definition addressed :: "nat \<Rightarrow> nat \<Rightarrow> nat \<Rightarrow> msg \<Rightarrow> bool" where
  "addressed n f a m \<longleftrightarrow> (is_req m \<longrightarrow> a = 0 \<and> f < n \<and> dst_id m = 0) \<and> (is_resp m \<longrightarrow> f = 0 \<and> a < n \<and> dst_id m = int a)"

definition no_exchange :: "'c server \<Rightarrow> bool" where
  "no_exchange s \<longleftrightarrow> (\<forall>p \<in> set (server_list s). modex_cbfunc p \<noteq> Some Send_procs_cb)"

definition barrier_inv :: "nat \<Rightarrow> nat \<Rightarrow> 'c net \<Rightarrow> bool" where
  "barrier_inv n r nt \<longleftrightarrow>
     (\<forall>a < n. star_node n a (node nt a) \<and> no_exchange (node nt a) \<and> phase n r nt a) \<and>
     (\<forall>f a m. m \<in> set (pipe nt f a) \<longrightarrow> addressed n f a m) \<and>
     barrier_cnt (node nt 0) = card (counted n r nt) \<and> card (counted n r nt) < n"

text \<open>What a handler may do without touching the barrier.\<close>

definition keeps_barrier :: "'c server \<Rightarrow> 'c server \<Rightarrow> bool" where
  "keeps_barrier s s' \<longleftrightarrow> barrier_cnt s' = barrier_cnt s \<and> my_server_id s' = my_server_id s \<and>
     map idx (server_list s') = map idx (server_list s) \<and>
     map lock_active (server_list s') = map lock_active (server_list s) \<and> no_exchange s'"

definition quiet :: "'c event list \<Rightarrow> bool" where
  "quiet es \<longleftrightarrow> (\<forall>i m. Written i m \<in> set es \<longrightarrow> \<not> is_req m \<and> \<not> is_resp m)"

lemma quiet_simps [simp]:
  "quiet []" "quiet (Called c rc bs # es) = quiet es" "quiet (Dmodex_request p d # es) = quiet es"
  "quiet (Written i m # es) \<longleftrightarrow> \<not> is_req m \<and> \<not> is_resp m \<and> quiet es"
  by (auto simp: quiet_def)

lemma quiet_sent: "quiet es \<Longrightarrow> m \<in> set (sent n a b es) \<Longrightarrow> \<not> is_req m \<and> \<not> is_resp m"
  by (induction n a b es rule: sent.induct) (auto split: if_splits)

lemma keeps_refl: "no_exchange s \<Longrightarrow> keeps_barrier s s"
  by (simp add: keeps_barrier_def)

lemma no_exchange_set_entry:
  "no_exchange s \<Longrightarrow> (\<And>p. modex_cbfunc p \<noteq> Some Send_procs_cb \<Longrightarrow> modex_cbfunc (f p) \<noteq> Some Send_procs_cb) \<Longrightarrow>
    no_exchange (set_entry i f s)"
  by (cases "i < length (server_list s)")
    (auto simp: no_exchange_def set_entry_def list_update_beyond dest!: subsetD [OF set_update_subset_insert])

lemma keeps_modex:
  "no_exchange s \<Longrightarrow> x \<noteq> Some Send_procs_cb \<Longrightarrow> keeps_barrier s (set_entry i (\<lambda>p. p\<lparr>modex_cbfunc := x\<rparr>) s)"
  using no_exchange_set_entry [of s "\<lambda>p. p\<lparr>modex_cbfunc := x\<rparr>" i]
  by (auto simp: keeps_barrier_def set_entry_def map_entry)

lemma keeps_locked: "keeps_barrier s s' \<Longrightarrow> star_node n a s \<Longrightarrow> a < n \<Longrightarrow> locked n a s' = locked n a s"
proof -
  assume k: "keeps_barrier s s'" and s: "star_node n a s" "a < n"
  then have "entry_of n a 0 < length (server_list s)" by (intro star_entry) auto
  moreover have "length (server_list s') = length (server_list s)"
    using k by (auto simp: keeps_barrier_def dest: map_eq_imp_length_eq)
  ultimately show ?thesis
    using k nth_map [of "entry_of n a 0" "server_list s" lock_active] nth_map [of "entry_of n a 0" "server_list s'" lock_active]
    by (simp add: keeps_barrier_def locked_def)
qed

lemma keeps_star: "keeps_barrier s s' \<Longrightarrow> star_node n a s \<Longrightarrow> star_node n a s'"
  by (simp add: keeps_barrier_def star_node_def)

lemma quiet_send_each:
  "send_each c bs ds s = Some es \<Longrightarrow> c \<noteq> CMD_BARRIER_REQUEST \<Longrightarrow> c \<noteq> CMD_BARRIER_RESPONSE \<Longrightarrow> quiet es"
  by (induction ds arbitrary: es) (auto simp: bind_eq_Some_conv server_send_msg_def split: if_splits)

lemma keeps_fields:
  "no_exchange s \<Longrightarrow> keeps_barrier s (s\<lparr>contrib_cnt := c, fence_buf := b\<rparr>)"
  "no_exchange s \<Longrightarrow> keeps_barrier s (s\<lparr>fence_buf := b, contrib_cnt := c\<rparr>)"
  by (simp_all add: keeps_barrier_def no_exchange_def)

lemma read_cb_quiet:
  assumes "server_read_cb K i m s = Some (s', es)" "\<not> is_req m" "\<not> is_resp m" "no_exchange s" "i < length (server_list s)"
  shows "keeps_barrier s s' \<and> quiet es"
proof -
  have modex: "call_modex K i bs s = Some (s', es) \<Longrightarrow> keeps_barrier s s' \<and> quiet es" for bs
    using assms(4,5) keeps_refl by (auto simp: call_modex_def no_exchange_def split: option.splits modex_cb.splits)
  show ?thesis
  proof (cases "my_server_id s = dst_id m")
    case False
    then show ?thesis
      using assms keeps_refl by (auto simp: server_read_cb_def server_fwd_msg_def split: option.splits)
  next
    case True
    then show ?thesis
      using assms keeps_refl [OF assms(4)] modex keeps_fields [OF assms(4)]
      by (cases "cmd m") (auto simp: server_read_cb_def Let_def bind_eq_Some_conv split: if_splits intro: quiet_send_each)
  qed
qed

lemma send_Written: "server_send_msg m s = Some e \<Longrightarrow> \<exists>i. e = Written i m"
  by (auto simp: server_send_msg_def split: if_splits)

lemma fencenb_quiet:
  "fencenb_fn data c s = Some (rc, s', es) \<Longrightarrow> no_exchange s \<Longrightarrow> keeps_barrier s s' \<and> quiet es"
  using keeps_modex [of s "map_option Library_cb c"] keeps_refl [of s]
  by (auto simp: fencenb_fn_def server_fence_contrib_def bind_eq_Some_conv request_def Let_def
      split: if_splits option.splits dest!: send_Written)

lemma dmodex_quiet:
  "dmodex_fn K name r c s = Some (rc, s', es) \<Longrightarrow> no_exchange s \<Longrightarrow> keeps_barrier s s' \<and> quiet es"
  using keeps_modex [of s "Some (Library_cb c)"] keeps_refl [of s]
  by (auto simp: dmodex_fn_def server_dmdx_get_def bind_eq_Some_conv Let_def
      split: if_splits option.splits dest!: send_Written)

text \<open>Such a step keeps the invariant.\<close>

lemma filter_sent_quiet: "quiet es \<Longrightarrow> filter is_req (sent n a b es) = [] \<and> filter is_resp (sent n a b es) = []"
  by (auto simp: filter_empty_conv dest: quiet_sent)

lemma addressed_quiet: "\<not> is_req m \<Longrightarrow> \<not> is_resp m \<Longrightarrow> addressed n f a m"
  by (simp add: addressed_def)

lemma inv_quiet:
  assumes "barrier_inv n r nt" "a < n" "keeps_barrier (node nt a) s" "quiet es"
  shows "barrier_inv n r (post n a es (set_node a s nt))"
proof -
  let ?nt = "post n a es (set_node a s nt)"
  have a: "star_node n a (node nt a)" using assms(1,2) by (simp add: barrier_inv_def)
  have "reqs ?nt b = reqs nt b" "resps ?nt b = resps nt b" for b
    using filter_sent_quiet [OF assms(4)] by (simp_all add: reqs_def resps_def)
  moreover have "locked n b (node ?nt b) = locked n b (node nt b)" if "b < n" for b
    using keeps_locked [OF assms(3) a assms(2)] by simp
  ultimately have "phase n r ?nt b = phase n r nt b" if "b < n" for b
    using that by (simp add: phase_def)
  moreover have "counted n r ?nt = counted n r nt"
    using \<open>\<And>b. reqs ?nt b = reqs nt b\<close> by (simp add: counted_def)
  moreover have "star_node n b (node ?nt b) \<and> no_exchange (node ?nt b)" if "b < n" for b
    using assms(1,3) keeps_star [OF assms(3) a] that by (auto simp: barrier_inv_def keeps_barrier_def)
  moreover have "addressed n f b m" if "m \<in> set (pipe ?nt f b)" for f b m
    using that assms(1) quiet_sent [OF assms(4)] addressed_quiet by (auto simp: barrier_inv_def split: if_splits)
  moreover have "barrier_cnt (node ?nt 0) = barrier_cnt (node nt 0)"
    using assms(3) by (auto simp: keeps_barrier_def)
  moreover have "0 < n" using assms(2) by simp
  ultimately show ?thesis using assms(1) by (simp add: barrier_inv_def)
qed

lemma inv_remove:
  assumes "barrier_inv n r nt" "pipe nt f a = m # ms" "\<not> is_req m" "\<not> is_resp m"
  shows "barrier_inv n r (nt\<lparr>pipe := (pipe nt)(f := (pipe nt f)(a := ms))\<rparr>)"
proof -
  let ?nt = "nt\<lparr>pipe := (pipe nt)(f := (pipe nt f)(a := ms))\<rparr>"
  have "reqs ?nt b = reqs nt b" "resps ?nt b = resps nt b" for b
    using assms(2-4) by (auto simp: reqs_def resps_def)
  then have "phase n r ?nt b = phase n r nt b" "counted n r ?nt = counted n r nt" for b
    by (simp_all add: phase_def counted_def)
  moreover have "addressed n g b x" if "x \<in> set (pipe ?nt g b)" for g b x
    using that assms(1,2) by (auto simp: barrier_inv_def split: if_splits)
  ultimately show ?thesis using assms(1) by (simp add: barrier_inv_def)
qed

text \<open>Entering the barrier puts one request into the pipe to the hub.\<close>

lemma barrier_entered:
  assumes "star_node n a s" "a < n" "server_barrier s = Some (s', es)"
  shows "star_node n a s'" "no_exchange s \<Longrightarrow> no_exchange s'" "locked n a s'" "barrier_cnt s' = barrier_cnt s"
    "es = [Written (entry_of n a 0) \<lparr>dst_id = 0, src_id = int a, cmd = CMD_BARRIER_REQUEST, payload = []\<rparr>]"
proof -
  let ?s = "set_entry (entry_of n a 0) (\<lambda>p. p\<lparr>lock_active := True\<rparr>) s"
  have star: "star_node n a ?s" using assms(1) by simp
  have send: "server_send_msg (request CMD_BARRIER_REQUEST [] ?s) ?s =
      Some (Written (entry_of n a 0) (request CMD_BARRIER_REQUEST [] ?s))"
    using star_send [OF star, of _ 0] assms(2) by (simp add: request_def)
  then have r: "s' = ?s" "es = [Written (entry_of n a 0) (request CMD_BARRIER_REQUEST [] ?s)]"
    using assms(3) star_own [OF assms(1,2)] by (auto simp: server_barrier_def Let_def)
  show "star_node n a s'" using star r by simp
  show "no_exchange s \<Longrightarrow> no_exchange s'" unfolding r by (rule no_exchange_set_entry) auto
  show "locked n a s'"
    using star_entry [OF assms(1), of 0] assms(2) by (simp add: r locked_def set_entry_def)
  show "barrier_cnt s' = barrier_cnt s" by (simp add: r set_entry_def)
  show "es = [Written (entry_of n a 0) \<lparr>dst_id = 0, src_id = int a, cmd = CMD_BARRIER_REQUEST, payload = []\<rparr>]"
    using star by (simp add: r request_def star_node_def)
qed

lemma inv_enter:
  assumes "barrier_inv n r nt" "a < n" "\<not> waiting nt a" "server_barrier (node nt a) = Some (s, es)"
  shows "barrier_inv n r (post n a es (set_node a s (nt\<lparr>waiting := (waiting nt)(a := True),
    entered := (entered nt)(a := entered nt a + 1)\<rparr>)))" (is "barrier_inv n r ?nt")
proof -
  have a: "star_node n a (node nt a)" "phase n r nt a" "no_exchange (node nt a)"
    using assms(1,2) by (auto simp: barrier_inv_def)
  note s = barrier_entered [OF a(1) assms(2,4)]
  have idle: "entered nt a = r" "reqs nt a = 0" "resps nt a = 0" using a(2) assms(3) by (auto simp: phase_def)
  have sent: "sent n a b es = (if b = 0 then [\<lparr>dst_id = 0, src_id = int a, cmd = CMD_BARRIER_REQUEST, payload = []\<rparr>] else [])"
    for b using assms(2) s(5) by simp
  have q: "reqs ?nt b = (if b = a then 1 else reqs nt b)" "resps ?nt b = resps nt b" for b
    using idle by (auto simp: reqs_def resps_def sent)
  have "phase n r ?nt b" if "b < n" for b
  proof (cases "b = a")
    case True
    then show ?thesis using idle s(3) q by (simp add: phase_def)
  next
    case False
    then have "phase n r ?nt b = phase n r nt b" using q by (simp add: phase_def)
    then show ?thesis using assms(1) that by (simp add: barrier_inv_def)
  qed
  moreover have "counted n r ?nt = counted n r nt" using idle q by (auto simp: counted_def)
  moreover have "addressed n g b x" if "x \<in> set (pipe ?nt g b)" for g b x
    using that assms(1,2) sent by (auto simp: barrier_inv_def addressed_def split: if_splits)
  moreover have "barrier_cnt (node ?nt 0) = barrier_cnt (node nt 0)" using s(4) by auto
  ultimately show ?thesis using assms(1) s(1) s(2) [OF a(3)] by (simp add: barrier_inv_def)
qed

lemma inv_leave:
  assumes "barrier_inv n r nt" "a < n" "waiting nt a" "\<not> locked n a (node nt a)"
  shows "barrier_inv n r (nt\<lparr>waiting := (waiting nt)(a := False)\<rparr>)"
proof -
  let ?nt = "nt\<lparr>waiting := (waiting nt)(a := False)\<rparr>"
  have q: "reqs ?nt b = reqs nt b" "resps ?nt b = resps nt b" for b by (simp_all add: reqs_def resps_def)
  then have "phase n r ?nt b" if "b < n" for b
    using assms that by (auto simp: barrier_inv_def phase_def)
  moreover have "counted n r ?nt = counted n r nt" using q by (simp add: counted_def)
  ultimately show ?thesis using assms(1) by (simp add: barrier_inv_def)
qed

text \<open>A message of the hub to every server.\<close>

definition to_each :: "nat \<Rightarrow> server_cmd \<Rightarrow> bytes \<Rightarrow> nat list \<Rightarrow> 'c event list" where
  "to_each n c bs ds = map (\<lambda>d. Written (n - 1 - d) \<lparr>dst_id = int d, src_id = 0, cmd = c, payload = bs\<rparr>) ds"

lemma send_each_star:
  assumes "star_node n 0 s"
  shows "set ds \<subseteq> {..<n} \<Longrightarrow> send_each c bs (map int ds) s = Some (to_each n c bs ds)"
proof (induction ds)
  case (Cons d ds)
  have "my_server_id s = 0" using assms by (simp add: star_node_def)
  then show ?case
    using Cons star_send [OF assms, of _ d] by (simp add: to_each_def entry_of_def)
qed (simp add: to_each_def)

lemma sent_each:
  "set ds \<subseteq> {..<n} \<Longrightarrow>
    sent n 0 b (to_each n c bs ds) = map (\<lambda>d. \<lparr>dst_id = int d, src_id = 0, cmd = c, payload = bs\<rparr>) (filter (\<lambda>d. d = b) ds)"
  by (induction ds) (auto simp: to_each_def far_end_def)

lemma filter_rev_upt: "filter (\<lambda>d. d = b) (rev [0..<n]) = (if b < n then [b :: nat] else [])"
  by (induction n) auto

lemma sent_all: "sent n 0 b (to_each n c bs (rev [0..<n])) =
    (if b < n then [\<lparr>dst_id = int b, src_id = 0, cmd = c, payload = bs\<rparr>] else [])"
  using sent_each [of "rev [0..<n]" n b c bs] filter_rev_upt [of b n] by (auto simp: lessThan_atLeast0)

lemma hub_broadcast:
  "star_node n 0 s \<Longrightarrow> send_each c bs (map idx (server_list s)) s = Some (to_each n c bs (rev [0..<n]))"
  using send_each_star [of n s "rev [0..<n]" c bs] by (simp add: star_node_def lessThan_atLeast0)

lemma inv_response:
  assumes "barrier_inv n r nt" "f < n" "a < n" "pipe nt f a = m # ms" "is_resp m"
    "server_read_cb K (entry_of n a f) m (node nt a) = Some (s, es)"
  shows "barrier_inv n r (post n a es (set_node a s (nt\<lparr>pipe := (pipe nt)(f := (pipe nt f)(a := ms))\<rparr>)))"
    (is "barrier_inv n r ?nt")
proof -
  have "addressed n f a m" using assms(1,4) by (auto simp: barrier_inv_def)
  then have f: "f = 0" "dst_id m = int a" using assms(5) by (auto simp: addressed_def)
  have a: "star_node n a (node nt a)" "no_exchange (node nt a)" "phase n r nt a"
    using assms(1,3) by (auto simp: barrier_inv_def)
  then have s: "s = set_entry (entry_of n a 0) (\<lambda>p. p\<lparr>lock_active := False\<rparr>) (node nt a)" "es = []"
    using assms(5,6) f by (auto simp: server_read_cb_def star_node_def)
  have "resps nt a \<noteq> 0" using assms(4,5) f by (simp add: resps_def)
  then have ph: "entered nt a = r" "reqs nt a = 0" "resps nt a = 1" using a(3) by (auto simp: phase_def)
  have q: "reqs ?nt b = reqs nt b" "resps ?nt b = (if b = a then 0 else resps nt b)" for b
    using assms(4,5) ph f s(2) by (auto simp: reqs_def resps_def)
  have unlocked: "\<not> locked n a s"
    using star_entry [OF a(1), of 0] assms(3) by (simp add: s locked_def set_entry_def)
  have "phase n r ?nt b" if "b < n" for b
  proof (cases "b = a")
    case True
    then show ?thesis using ph unlocked q by (simp add: phase_def s(2))
  next
    case False
    then have "phase n r ?nt b = phase n r nt b" using q by (simp add: phase_def s(2))
    then show ?thesis using assms(1) that by (simp add: barrier_inv_def)
  qed
  moreover have "counted n r ?nt = counted n r nt" using q by (simp add: counted_def s(2))
  moreover have "addressed n g b x" if "x \<in> set (pipe ?nt g b)" for g b x
    using that assms(1,4) s(2) by (auto simp: barrier_inv_def split: if_splits)
  moreover have "star_node n a s" "no_exchange s" using a by (auto simp: s intro: no_exchange_set_entry)
  moreover have "barrier_cnt s = barrier_cnt (node nt a)" by (simp add: s set_entry_def)
  ultimately show ?thesis using assms(1) by (auto simp: barrier_inv_def)
qed

lemma inv_request:
  assumes "barrier_inv n r nt" "f < n" "a < n" "pipe nt f a = m # ms" "is_req m"
    "server_read_cb K (entry_of n a f) m (node nt a) = Some (s, es)"
  shows "\<exists>r'. barrier_inv n r' (post n a es (set_node a s (nt\<lparr>pipe := (pipe nt)(f := (pipe nt f)(a := ms))\<rparr>)))"
    (is "\<exists>r'. barrier_inv n r' ?nt")
proof -
  have "addressed n f a m" using assms(1,4) by (auto simp: barrier_inv_def)
  then have a: "a = 0" "dst_id m = 0" using assms(5) by (auto simp: addressed_def)
  have hub: "star_node n 0 (node nt 0)" "no_exchange (node nt 0)" "barrier_cnt (node nt 0) = card (counted n r nt)"
    and ph: "phase n r nt f"
    using assms(1-3) a by (auto simp: barrier_inv_def)
  have len: "length (server_list (node nt 0)) = n" using star_length [OF hub(1)] by simp
  have "reqs nt f \<noteq> 0" using assms(4,5) a by (simp add: reqs_def)
  then have f: "entered nt f = Suc r" "reqs nt f = 1" "resps nt f = 0" "waiting nt f" "locked n f (node nt f)"
    using ph by (auto simp: phase_def)
  let ?s = "(node nt 0)\<lparr>barrier_cnt := barrier_cnt (node nt 0) + 1\<rparr>"
  have fin: "finite (counted n r nt)" "f \<notin> counted n r nt" using f by (auto simp: counted_def)
  show ?thesis
  proof (cases "n = card (counted n r nt) + 1")
    case False
    then have s: "s = ?s" "es = []"
      using assms(5,6) a hub len by (auto simp: server_read_cb_def star_node_def Let_def)
    have q: "reqs ?nt b = (if b = f then 0 else reqs nt b)" "resps ?nt b = resps nt b" for b
      using assms(4,5) f a s(2) by (auto simp: reqs_def resps_def)
    have l: "locked n b (node ?nt b) = locked n b (node nt b)" for b using a by (simp add: s locked_def)
    have "phase n r ?nt b" if "b < n" for b
    proof (cases "b = f")
      case True
      then show ?thesis using f q l [of f] by (simp add: phase_def s(2))
    next
      case False
      then have "phase n r ?nt b = phase n r nt b" using q l [of b] by (simp add: phase_def s(2))
      then show ?thesis using assms(1) that by (simp add: barrier_inv_def)
    qed
    moreover have "counted n r ?nt = insert f (counted n r nt)"
      using f q assms(2) by (auto simp: counted_def s(2))
    moreover have "addressed n g b x" if "x \<in> set (pipe ?nt g b)" for g b x
      using that assms(1,4) s(2) by (auto simp: barrier_inv_def split: if_splits)
    moreover have "star_node n b (node ?nt b) \<and> no_exchange (node ?nt b)" if "b < n" for b
      using assms(1) that a by (auto simp: s barrier_inv_def star_node_def no_exchange_def)
    moreover have "card (counted n r nt) < n" using assms(1) by (simp add: barrier_inv_def)
    ultimately have "barrier_inv n r ?nt"
      using False fin hub(3) a by (simp add: barrier_inv_def s(1))
    then show ?thesis ..
  next
    case True
    have "card (insert f (counted n r nt)) = card {..<n}" using fin True by simp
    moreover have "insert f (counted n r nt) \<subseteq> {..<n}" using assms(2) by (auto simp: counted_def)
    ultimately have all: "insert f (counted n r nt) = {..<n}" by (intro card_subset_eq) auto
    have star: "star_node n 0 (?s\<lparr>barrier_cnt := 0\<rparr>)" using hub(1) by (simp add: star_node_def)
    have s: "s = ?s\<lparr>barrier_cnt := 0\<rparr>" "es = to_each n CMD_BARRIER_RESPONSE [] (rev [0..<n])"
      using assms(5,6) a hub len True hub_broadcast [OF star]
      by (auto simp: server_read_cb_def star_node_def Let_def)
    have sent: "sent n 0 b es = (if b < n then [\<lparr>dst_id = int b, src_id = 0, cmd = CMD_BARRIER_RESPONSE, payload = []\<rparr>]
      else [])" for b unfolding s(2) by (rule sent_all)
    have b: "entered nt b = Suc r" "reqs nt b = (if b = f then 1 else 0)" "resps nt b = 0" "waiting nt b"
      "locked n b (node nt b)" if "b < n" for b
    proof -
      have "b = f \<or> b \<in> counted n r nt" using all that by auto
      moreover have "phase n r nt b" using assms(1) that by (simp add: barrier_inv_def)
      ultimately show "entered nt b = Suc r" "reqs nt b = (if b = f then 1 else 0)" "resps nt b = 0" "waiting nt b"
        "locked n b (node nt b)" using f by (auto simp: counted_def phase_def)
    qed
    have q: "reqs ?nt b = 0" "resps ?nt b = 1" if "b < n" for b
      using assms(4,5) b [OF that] that a sent by (auto simp: reqs_def resps_def)
    have "phase n (Suc r) ?nt b" if "b < n" for b
      using b [OF that] q [OF that] a by (auto simp: phase_def s(1) locked_def)
    moreover have "counted n (Suc r) ?nt = {}" using b by (auto simp: counted_def)
    moreover have "addressed n g b x" if "x \<in> set (pipe ?nt g b)" for g b x
    proof -
      have "x \<in> set (pipe nt g b) \<or> (g = 0 \<and> x \<in> set (sent n 0 b es))"
        using that assms(4) a by (auto split: if_splits)
      moreover have "addressed n 0 b x" if "x \<in> set (sent n 0 b es)"
        using that sent by (auto simp: addressed_def split: if_splits)
      ultimately show ?thesis using assms(1) by (auto simp: barrier_inv_def)
    qed
    moreover have "star_node n b (node ?nt b) \<and> no_exchange (node ?nt b)" if "b < n" for b
      using assms(1) that a by (auto simp: s(1) barrier_inv_def star_node_def no_exchange_def)
    ultimately have "barrier_inv n (Suc r) ?nt"
      using a assms(2) by (simp add: barrier_inv_def s(1))
    then show ?thesis ..
  qed
qed

lemma barrier_step: "net_step K n nt nt' \<Longrightarrow> barrier_inv n r nt \<Longrightarrow> \<exists>r'. barrier_inv n r' nt'"
proof (induction rule: net_step.induct)
  case (enter a nt s es)
  then show ?case using inv_enter by blast
next
  case (leave a nt i)
  then have "i = entry_of n a 0" using star_own [of n a "node nt a"] by (auto simp: barrier_inv_def)
  then show ?case using leave inv_leave [of n r nt a] by (auto simp: locked_def)
next
  case (deliver f a nt m ms s es)
  show ?case
  proof (cases "is_req m \<or> is_resp m")
    case True
    then show ?thesis
      using inv_request [OF deliver.prems deliver.hyps(1-3) _ deliver.hyps(4)]
        inv_response [OF deliver.prems deliver.hyps(1-3) _ deliver.hyps(4)] by blast
  next
    case False
    let ?nt = "nt\<lparr>pipe := (pipe nt)(f := (pipe nt f)(a := ms))\<rparr>"
    have a: "star_node n a (node nt a)" "no_exchange (node nt a)"
      using deliver.prems deliver.hyps(2) by (auto simp: barrier_inv_def)
    then have "entry_of n a f < length (server_list (node nt a))" using star_entry deliver.hyps(1) by blast
    then have "keeps_barrier (node ?nt a) s" "quiet es"
      using read_cb_quiet [OF deliver.hyps(4)] False a(2) by auto
    moreover have "barrier_inv n r ?nt" using inv_remove [OF deliver.prems deliver.hyps(3)] False by blast
    ultimately show ?thesis using inv_quiet [OF _ deliver.hyps(2)] by blast
  qed
next
  case (fence a data c nt rc s es)
  then have "no_exchange (node nt a)" by (simp add: barrier_inv_def)
  from fencenb_quiet [OF fence.hyps(2) this] show ?case using inv_quiet [OF fence.prems fence.hyps(1)] by blast
next
  case (get a name rk c nt rc s es)
  then have "no_exchange (node nt a)" by (simp add: barrier_inv_def)
  from dmodex_quiet [OF get.hyps(2) this] show ?case using inv_quiet [OF get.prems get.hyps(1)] by blast
next
  case (answer a p d nt data e)
  then have "no_exchange (node nt a)" by (simp add: barrier_inv_def)
  then have "keeps_barrier (node nt a) (node nt a)" by (rule keeps_refl)
  moreover have "quiet [e]" using answer.hyps(3) by (auto simp: dmdx_cb_def dest!: send_Written)
  moreover have "set_node a (node nt a) nt = nt" by (simp add: set_node_def)
  ultimately show ?case using inv_quiet [of n r nt a "node nt a" "[e]"] answer by auto
qed

lemma no_exchange_init: "no_exchange (init_server n a)"
  by (auto simp: no_exchange_def init_server_def new_info_def)

lemma init_net_simps: "node (init_net n) a = init_server n a" "pipe (init_net n) f a = []"
  "barrier_cnt (init_server n a) = 0" "phase n 0 (init_net n) a" "counted n 0 (init_net n) = {}"
  by (simp_all add: init_net_def init_server_def phase_def reqs_def resps_def counted_def)

lemma barrier_init: "0 < n \<Longrightarrow> barrier_inv n 0 (init_net n)"
  by (simp add: barrier_inv_def init_net_simps no_exchange_init star_init)

interpretation barrier: step_relation "net_step K n" "\<lambda>nt. \<exists>r. barrier_inv n r nt" "\<lambda>_ _. True" for K n
  by unfold_locales (auto dest: barrier_step)

lemma barrier_reachable: "0 < n \<Longrightarrow> (net_step K n)\<^sup>*\<^sup>* (init_net n) nt \<Longrightarrow> \<exists>r. barrier_inv n r nt"
  using barrier.steps_keep [of K n "init_net n" nt] barrier_init by blast

section \<open>The fence and the exchange of the tables\<close>

fun handle_all :: "pmix_consts \<Rightarrow> (nat \<times> msg) list \<Rightarrow> 'c server \<Rightarrow> ('c server \<times> 'c event list) option" where
  "handle_all K [] s = Some (s, [])"
| "handle_all K ((i, m) # ms) s =
     do { (s, es) \<leftarrow> server_read_cb K i m s; (s, es') \<leftarrow> handle_all K ms s; Some (s, es @ es') }"

definition is_contrib :: "msg \<Rightarrow> bool" where
  "is_contrib m \<longleftrightarrow> cmd m = CMD_FENCE_CONTRIB \<and> dst_id m = 0"

lemma fence_round:
  "star_node n 0 s \<Longrightarrow> ms \<noteq> [] \<Longrightarrow> contrib_cnt s + length ms = n \<Longrightarrow> list_all (is_contrib \<circ> snd) ms \<Longrightarrow>
    handle_all K ms s = Some (s\<lparr>fence_buf := [], contrib_cnt := 0\<rparr>,
      to_each n CMD_FENCE_COMPLETE (fence_buf s @ concat (map (payload \<circ> snd) ms)) (rev [0..<n]))"
proof (induction ms arbitrary: s)
  case (Cons x ms)
  obtain i m where x: "x = (i, m)" by (cases x)
  have m: "cmd m = CMD_FENCE_CONTRIB" "my_server_id s = dst_id m" "length (server_list s) = n"
    using Cons.prems star_length [OF Cons.prems(1)] by (simp_all add: x is_contrib_def star_node_def)
  let ?s = "s\<lparr>contrib_cnt := contrib_cnt s + 1, fence_buf := fence_buf s @ payload m\<rparr>"
  have star: "star_node n 0 ?s" using Cons.prems(1) by (simp add: star_node_def)
  show ?case
  proof (cases "ms = []")
    case True
    then have "n = Suc (contrib_cnt s)" using Cons.prems(3) by simp
    then show ?thesis using m True hub_broadcast [OF star] by (simp add: x server_read_cb_def Let_def)
  next
    case False
    then have "n \<noteq> Suc (contrib_cnt s)" using Cons.prems(3) by auto
    then have "server_read_cb K i m s = Some (?s, [])" using m by (simp add: server_read_cb_def Let_def)
    moreover have "handle_all K ms ?s = Some (?s\<lparr>fence_buf := [], contrib_cnt := 0\<rparr>,
        to_each n CMD_FENCE_COMPLETE (fence_buf ?s @ concat (map (payload \<circ> snd) ms)) (rev [0..<n]))"
      using Cons.prems False star by (intro Cons.IH) auto
    ultimately show ?thesis by (simp add: x comp_def)
  qed
qed simp

text \<open>A server that sent its table and waits, as \<open>server_send_procs\<close> leaves it.\<close>

definition sent_procs :: "nat \<Rightarrow> nat \<Rightarrow> 'c server \<Rightarrow> bool" where
  "sent_procs n a s \<longleftrightarrow> star_node n a s \<and> modex_cbfunc (server_list s ! entry_of n a 0) = Some Send_procs_cb"

lemma send_procs_sends:
  assumes "star_node n a s" "a < n" "nss_ok K (server_nspaces s)" "packable (int a) (server_nspaces s)"
  shows "\<exists>s'. server_send_procs K s = Some (s', [Written (entry_of n a 0) \<lparr>dst_id = 0, src_id = int a,
      cmd = CMD_FENCE_CONTRIB, payload = contribution K (int a, server_nspaces s)\<rparr>]) \<and>
    sent_procs n a s' \<and> server_nspaces s' = server_nspaces s \<and> locked n a s' \<and>
    contrib_cnt s' = contrib_cnt s \<and> fence_buf s' = fence_buf s"
proof -
  let ?f = "\<lambda>p :: 'a server_info. p\<lparr>lock_active := True, modex_cbfunc := Some Send_procs_cb\<rparr>"
  let ?s = "set_entry (entry_of n a 0) ?f s"
  have star: "star_node n a ?s" using assms(1) by simp
  have pack: "server_pack_procs K (int a) (server_nspaces s) [] =
      Some (length (contribution K (int a, server_nspaces s)), contribution K (int a, server_nspaces s))"
    using assms(3,4) by (rule pack_contribution)
  have "entry_of n a 0 < length (server_list s)" using star_entry [OF assms(1), of 0] assms(2) by simp
  then have "sent_procs n a ?s \<and> server_nspaces ?s = server_nspaces s \<and> locked n a ?s \<and>
      contrib_cnt ?s = contrib_cnt s \<and> fence_buf ?s = fence_buf s"
    using star by (simp add: sent_procs_def locked_def set_entry_def)
  moreover have "my_server_id s = int a" "my_server_id ?s = int a"
    using assms(1) star by (simp_all add: star_node_def)
  ultimately show ?thesis
    using pack star_own [OF assms(1,2)] star_send [OF star, of _ 0] assms(2)
    by (simp add: server_send_procs_def request_def Let_def)
qed

lemma complete_merges:
  assumes "sent_procs n a s" "a < n" "server_unpack_procs K data (server_nspaces s) = Some nss"
  shows "\<exists>s'. server_read_cb K (entry_of n a 0) \<lparr>dst_id = int a, src_id = 0, cmd = CMD_FENCE_COMPLETE, payload = data\<rparr> s =
      Some (s', []) \<and> server_nspaces s' = nss \<and> \<not> locked n a s'"
proof -
  have s: "star_node n a s" "my_server_id s = int a" using assms(1) by (auto simp: sent_procs_def star_node_def)
  then have "entry_of n a 0 < length (server_list s)" using star_entry [of n a s 0] assms(2) by simp
  then show ?thesis
    using assms s star_own [OF s(1) assms(2)]
    by (simp add: server_read_cb_def call_modex_def sent_procs_def own_entry_def set_entry_def locked_def)
qed

section \<open>Requests across the network\<close>

definition star_net :: "nat \<Rightarrow> 'c net \<Rightarrow> bool" where
  "star_net n nt \<longleftrightarrow> (\<forall>a < n. star_node n a (node nt a))"

definition pipes_empty :: "'c net \<Rightarrow> bool" where
  "pipes_empty nt \<longleftrightarrow> (\<forall>f a. pipe nt f a = [])"

text \<open>The net with one message on its way from \<open>f\<close> to \<open>b\<close>.\<close>

definition with_message :: "nat \<Rightarrow> nat \<Rightarrow> msg \<Rightarrow> 'c net \<Rightarrow> 'c net" where
  "with_message f b m nt = nt\<lparr>pipe := (pipe nt)(f := (pipe nt f)(b := [m]))\<rparr>"

definition last_hop :: "nat \<Rightarrow> nat \<Rightarrow> nat" where
  "last_hop a b = (if a = 0 \<or> b = 0 then a else 0)"

lemma post_message:
  "pipes_empty nt \<Longrightarrow> a < n \<Longrightarrow> b < n \<Longrightarrow>
    post n a [Written (entry_of n a b) m] nt = with_message a (if a = 0 then b else 0) m nt"
  by (auto simp: pipes_empty_def with_message_def entry_of_def far_end_def)

lemma route:
  assumes "star_net n nt" "pipes_empty nt" "a < n" "b < n" "dst_id m = int b"
  shows "(net_step K n)\<^sup>*\<^sup>* (post n a [Written (entry_of n a b) m] nt) (with_message (last_hop a b) b m nt)"
proof (cases "a = 0 \<or> b = 0")
  case True
  then have "post n a [Written (entry_of n a b) m] nt = with_message (last_hop a b) b m nt"
    using assms by (auto simp: post_message last_hop_def simp del: post.simps)
  then show ?thesis by (simp del: post.simps)
next
  case False
  have hub: "star_node n 0 (node nt 0)" using assms(1,3) by (simp add: star_net_def)
  have "server_read_cb K (entry_of n 0 a) m (node nt 0) = Some (node nt 0, [Written (entry_of n 0 b) m])"
    using star_hub [OF hub assms(4)] hub False assms(5)
    by (simp add: server_read_cb_def server_fwd_msg_def star_node_def entry_of_def)
  then have "net_step K n (with_message a 0 m nt)
      (post n 0 [Written (entry_of n 0 b) m] (set_node 0 (node nt 0)
        ((with_message a 0 m nt)\<lparr>pipe := (pipe (with_message a 0 m nt))(a := (pipe (with_message a 0 m nt) a)(0 := []))\<rparr>)))"
    using assms(3) by (intro net_step.deliver) (simp_all add: with_message_def)
  moreover have "(with_message a 0 m nt)\<lparr>pipe := (pipe (with_message a 0 m nt))(a := (pipe (with_message a 0 m nt) a)(0 := []))\<rparr> = nt"
    using assms(2) by (simp add: with_message_def pipes_empty_def fun_upd_idem)
  moreover have "set_node 0 (node nt 0) nt = nt" by (simp add: set_node_def)
  moreover have "post n 0 [Written (entry_of n 0 b) m] nt = with_message 0 b m nt"
    using assms by (simp add: post_message del: post.simps)
  ultimately show ?thesis
    using False assms(2-4) by (simp add: post_message last_hop_def del: post.simps)
qed

text \<open>The message is handled at its end.\<close>

lemma handled:
  assumes "pipes_empty nt" "f < n" "b < n" "server_read_cb K (entry_of n b f) m (node nt b) = Some (s, es)"
  shows "net_step K n (with_message f b m nt) (post n b es (set_node b s nt))"
proof -
  have "net_step K n (with_message f b m nt) (post n b es (set_node b s
      ((with_message f b m nt)\<lparr>pipe := (pipe (with_message f b m nt))(f := (pipe (with_message f b m nt) f)(b := []))\<rparr>)))"
    using assms by (intro net_step.deliver) (simp_all add: with_message_def)
  moreover have "(with_message f b m nt)\<lparr>pipe := (pipe (with_message f b m nt))(f := (pipe (with_message f b m nt) f)(b := []))\<rparr> = nt"
    using assms(1) by (simp add: with_message_def pipes_empty_def fun_upd_idem)
  ultimately show ?thesis by simp
qed

definition modex_of :: "nat \<Rightarrow> 'c server \<Rightarrow> 'c modex_cb option" where
  "modex_of i s = modex_cbfunc (server_list s ! i)"

lemma get_sends:
  assumes "star_node n a s" "a < n" "b < n" "server_find_id (server_nspaces s) name r = Some (int b)" "2 \<le> n"
  shows "\<exists>s'. dmodex_fn K name r c s = Some (PMIX_SUCCESS, s', [Written (entry_of n a b)
      \<lparr>dst_id = int b, src_id = int a, cmd = CMD_DMDX_REQUEST, payload = server_pack_dmdx K (int a) name r\<rparr>]) \<and>
    star_node n a s' \<and> modex_of (entry_of n a b) s' = Some (Library_cb c)"
proof -
  let ?i = "entry_of n a b"
  let ?s = "set_entry ?i (\<lambda>p. p\<lparr>modex_cbfunc := Some (Library_cb c)\<rparr>) s"
  have star: "star_node n a ?s" using assms(1) by simp
  have multi: "\<not> single_server s"
    using assms(1,5) star_length [OF assms(1)] by (auto simp: single_server_def star_node_def)
  have i: "?i < length (server_list s)" using star_entry [OF assms(1,3)] .
  then have "modex_of ?i ?s = Some (Library_cb c)" by (simp add: modex_of_def set_entry_def)
  moreover have "(if my_server_id s = 0 then find_idx (int b) (server_list s) else Some 0) = Some ?i"
    using assms(1) star_hub [of n s b] assms(3) by (auto simp: star_node_def entry_of_def)
  moreover have "my_server_id ?s = int a" "server_list s \<noteq> []" using star i by (auto simp: star_node_def)
  ultimately show ?thesis
    using assms(4) star star_send [OF star, of _ b] assms(3) multi
    by (simp add: dmodex_fn_def server_dmdx_get_def Let_def)
qed

lemma star_net_post: "star_net n (post n a es nt) = star_net n nt"
  by (simp add: star_net_def)

lemma star_net_set: "star_net n nt \<Longrightarrow> star_node n a s \<Longrightarrow> star_net n (set_node a s nt)"
  by (simp add: star_net_def)

lemma dmdx_chain:
  assumes "star_net n nt" "pipes_empty nt" "a < n" "b < n" "2 \<le> n" "int n \<le> int_max"
    "server_find_id (server_nspaces (node nt a)) name (int r) = Some (int b)" "name_ok K name" "int r \<le> int_max"
  shows "\<exists>nt'. (net_step K n)\<^sup>*\<^sup>* nt nt' \<and> pipes_empty nt' \<and> calls nt' = calls nt @
    [(b, Dmodex_request \<lparr>nspace = name, prank = word_of_int (int r)\<rparr> (int a)), (a, Called c PMIX_SUCCESS data)]"
proof -
  have na: "star_node n a (node nt a)" and nb: "star_node n b (node nt b)"
    using assms(1,3,4) by (auto simp: star_net_def)
  define q where "q = \<lparr>dst_id = int b, src_id = int a, cmd = CMD_DMDX_REQUEST, payload = server_pack_dmdx K (int a) name (int r)\<rparr>"
  define rsp where "rsp = \<lparr>dst_id = int a, src_id = int b, cmd = CMD_DMDX_RESPONSE, payload = data\<rparr>"
  obtain s where s: "dmodex_fn K name (int r) c (node nt a) = Some (PMIX_SUCCESS, s, [Written (entry_of n a b) q])"
    "star_node n a s" "modex_of (entry_of n a b) s = Some (Library_cb c)"
    using get_sends [OF na assms(3,4,7,5), of K c] by (auto simp: q_def)
  define n1 where "n1 = set_node a s nt"
  have n1: "star_net n n1" "pipes_empty n1" "calls n1 = calls nt"
    using assms(1,2) s(2) by (auto simp: n1_def star_net_def pipes_empty_def)
  have "net_step K n nt (post n a [Written (entry_of n a b) q] n1)"
    unfolding n1_def using assms(3) s(1) by (rule net_step.get)
  also have "(net_step K n)\<^sup>*\<^sup>* (post n a [Written (entry_of n a b) q] n1) (with_message (last_hop a b) b q n1)"
    using n1 assms(3,4) by (intro route) (auto simp: q_def)
  also have "net_step K n (with_message (last_hop a b) b q n1)
      (post n b [Dmodex_request \<lparr>nspace = name, prank = word_of_int (int r)\<rparr> (int a)] (set_node b (node n1 b) n1))"
  proof (rule handled)
    have "my_server_id (node n1 b) = int b" using n1(1) assms(4) by (simp add: star_net_def star_node_def)
    moreover have "server_pack_dmdx K (int a) name (int r) \<noteq> []" by (auto simp: server_pack_dmdx_def enc_name_def)
    moreover have "server_unpack_dmdx K (server_pack_dmdx K (int a) name (int r)) =
        Some (int a, \<lparr>nspace = name, prank = word_of_int (int r)\<rparr>)"
      using assms(3,6,8,9) by (intro dmdx_roundtrip) (auto simp: int_min_def)
    ultimately show "server_read_cb K (entry_of n b (last_hop a b)) q (node n1 b) =
        Some (node n1 b, [Dmodex_request \<lparr>nspace = name, prank = word_of_int (int r)\<rparr> (int a)])"
      by (simp add: q_def server_read_cb_def)
  qed (use n1 assms(3,4) in \<open>auto simp: last_hop_def\<close>)
  also have "set_node b (node n1 b) n1 = n1" by (simp add: set_node_def)
  finally have req: "(net_step K n)\<^sup>*\<^sup>* nt (post n b [Dmodex_request \<lparr>nspace = name, prank = word_of_int (int r)\<rparr> (int a)] n1)"
    by simp
  define n2 where "n2 = post n b [Dmodex_request \<lparr>nspace = name, prank = word_of_int (int r)\<rparr> (int a)] n1"
  have n2: "star_net n n2" "pipes_empty n2" "node n2 = node n1"
    "calls n2 = calls nt @ [(b, Dmodex_request \<lparr>nspace = name, prank = word_of_int (int r)\<rparr> (int a))]"
    using n1 by (simp_all add: n2_def star_net_def pipes_empty_def)
  have "net_step K n n2 (post n b [Written (entry_of n b a) rsp] n2)"
  proof (rule net_step.answer)
    have "star_node n b (node n2 b)" using n2(1) assms(4) by (simp add: star_net_def)
    then show "dmdx_cb (int a) data (node n2 b) = Some (Written (entry_of n b a) rsp)"
      using star_send [of n b "node n2 b" _ a] assms(3) by (simp add: dmdx_cb_def rsp_def star_node_def)
  qed (use n2 assms(4) in auto)
  also have "(net_step K n)\<^sup>*\<^sup>* (post n b [Written (entry_of n b a) rsp] n2) (with_message (last_hop b a) a rsp n2)"
    using n2 assms(3,4) by (intro route) (auto simp: rsp_def)
  also have "net_step K n (with_message (last_hop b a) a rsp n2)
      (post n a [Called c PMIX_SUCCESS data] (set_node a (node n2 a) n2))"
  proof (rule handled)
    have "entry_of n a (last_hop b a) = entry_of n a b" by (simp add: entry_of_def last_hop_def)
    moreover have "node n2 a = s" by (simp add: n2 n1_def)
    ultimately show "server_read_cb K (entry_of n a (last_hop b a)) rsp (node n2 a) =
        Some (node n2 a, [Called c PMIX_SUCCESS data])"
      using s(2,3) by (simp add: server_read_cb_def call_modex_def rsp_def star_node_def modex_of_def)
  qed (use n2 assms(3,4) in \<open>auto simp: last_hop_def\<close>)
  also have "set_node a (node n2 a) n2 = n2" by (simp add: set_node_def)
  finally have "(net_step K n)\<^sup>*\<^sup>* n2 (post n a [Called c PMIX_SUCCESS data] n2)" .
  with req have "(net_step K n)\<^sup>*\<^sup>* nt (post n a [Called c PMIX_SUCCESS data] n2)"
    unfolding n2_def by (rule rtranclp_trans)
  moreover have "pipes_empty (post n a [Called c PMIX_SUCCESS data] n2)"
    using n2(2) by (simp add: pipes_empty_def)
  ultimately show ?thesis using n2(4) by (intro exI [of _ "post n a [Called c PMIX_SUCCESS data] n2"]) simp
qed

section \<open>Properties\<close>



text \<open>
  C2: when every server sends its table of processes, the hub answers, in whatever order the
  tables arrive, with all of them, and each server that handles the answer is woken with a
  table that has the processes of all servers, so that it finds the server of each.
\<close>

theorem exchange_of_tables:
  fixes ts :: "nat \<Rightarrow> 'c server"
  assumes "\<forall>a < n. star_node n a (ts a) \<and> contributor_ok K (int a, server_nspaces (ts a))"
    "\<forall>a < n. \<forall>b < n. same_sizes (server_nspaces (ts a)) (server_nspaces (ts b))"
    "contrib_cnt (ts 0) = 0" "fence_buf (ts 0) = []" "set as = {..<n}" "length as = n" "0 < n"
  shows "\<exists>ss ms data.
    (\<forall>a < n. server_send_procs K (ts a) = Some (ss a, [Written (entry_of n a 0) (ms a)])) \<and>
    handle_all K (map (\<lambda>a. (entry_of n 0 a, ms a)) as) (ss 0) =
      Some (ss 0, to_each n CMD_FENCE_COMPLETE data (rev [0..<n])) \<and>
    (\<forall>a < n. \<exists>s'. server_read_cb K (entry_of n a 0)
        \<lparr>dst_id = int a, src_id = 0, cmd = CMD_FENCE_COMPLETE, payload = data\<rparr> (ss a) = Some (s', []) \<and>
      \<not> locked n a s' \<and>
      table (server_nspaces s') =
        fold (\<lambda>b t. mine (int b) (server_nspaces (ts b)) ++ t) as (table (server_nspaces (ts a))) \<and>
      (\<forall>x r d. table (server_nspaces s') (x, r) = Some d \<longrightarrow> server_find_id (server_nspaces s') x (int r) = Some d))"
proof -
  let ?c = "\<lambda>a. (int a, server_nspaces (ts a))"
  define ms where "ms a = \<lparr>dst_id = 0, src_id = int a, cmd = CMD_FENCE_CONTRIB, payload = contribution K (?c a)\<rparr>" for a
  define data where "data = concat (map (contribution K) (map ?c as))"
  have "\<forall>a. \<exists>s'. a < n \<longrightarrow> server_send_procs K (ts a) = Some (s', [Written (entry_of n a 0) (ms a)]) \<and>
      sent_procs n a s' \<and> server_nspaces s' = server_nspaces (ts a) \<and>
      contrib_cnt s' = contrib_cnt (ts a) \<and> fence_buf s' = fence_buf (ts a)"
    using send_procs_sends assms(1) unfolding ms_def contributor_ok_def by (metis fst_conv snd_conv)
  then obtain ss where ss: "\<And>a. a < n \<Longrightarrow> server_send_procs K (ts a) = Some (ss a, [Written (entry_of n a 0) (ms a)]) \<and>
      sent_procs n a (ss a) \<and> server_nspaces (ss a) = server_nspaces (ts a) \<and>
      contrib_cnt (ss a) = contrib_cnt (ts a) \<and> fence_buf (ss a) = fence_buf (ts a)" by metis
  have hub: "star_node n 0 (ss 0)" "contrib_cnt (ss 0) = 0" "fence_buf (ss 0) = []"
    using ss [OF assms(7)] assms(3,4) by (auto simp: sent_procs_def)
  have "handle_all K (map (\<lambda>a. (entry_of n 0 a, ms a)) as) (ss 0) = Some ((ss 0)\<lparr>fence_buf := [], contrib_cnt := 0\<rparr>,
      to_each n CMD_FENCE_COMPLETE (fence_buf (ss 0) @ concat (map (payload \<circ> snd) (map (\<lambda>a. (entry_of n 0 a, ms a)) as)))
        (rev [0..<n]))"
    using hub assms(6,7) by (intro fence_round) (auto simp: list_all_iff is_contrib_def ms_def)
  moreover have "(ss 0)\<lparr>fence_buf := [], contrib_cnt := 0\<rparr> = ss 0" using hub by (cases "ss 0") simp
  moreover have "map (payload \<circ> snd) (map (\<lambda>a. (entry_of n 0 a, ms a)) as) = map (contribution K) (map ?c as)"
    by (simp add: ms_def)
  ultimately have round: "handle_all K (map (\<lambda>a. (entry_of n 0 a, ms a)) as) (ss 0) =
      Some (ss 0, to_each n CMD_FENCE_COMPLETE data (rev [0..<n]))"
    using hub(3) unfolding data_def by (simp only: append.simps)
  have merge: "\<exists>s'. server_read_cb K (entry_of n a 0)
        \<lparr>dst_id = int a, src_id = 0, cmd = CMD_FENCE_COMPLETE, payload = data\<rparr> (ss a) = Some (s', []) \<and>
      \<not> locked n a s' \<and>
      table (server_nspaces s') =
        fold (\<lambda>b t. mine (int b) (server_nspaces (ts b)) ++ t) as (table (server_nspaces (ts a))) \<and>
      (\<forall>x r d. table (server_nspaces s') (x, r) = Some d \<longrightarrow> server_find_id (server_nspaces s') x (int r) = Some d)"
    if a: "a < n" for a
  proof -
    have "server_unpack_procs K data (server_nspaces (ts a)) = Some (fold add_all (map ?c as) (server_nspaces (ts a))) \<and>
        nss_ok K (fold add_all (map ?c as) (server_nspaces (ts a))) \<and>
        table (fold add_all (map ?c as) (server_nspaces (ts a))) =
          fold (\<lambda>c t. mine (fst c) (snd c) ++ t) (map ?c as) (table (server_nspaces (ts a)))"
      unfolding data_def using assms a by (intro unpack_contributions) (auto simp: contributor_ok_def)
    then show ?thesis
      using complete_merges [of n a "ss a" K data] ss [OF a] a table_find_id
      by (auto simp: fold_map comp_def)
  qed
  show ?thesis using ss round merge by blast
qed


definition sample_server :: "nat \<Rightarrow> nat server" where
  "sample_server a = (init_server 2 a)\<lparr>server_nspaces := (if a = 0 then tiny_table [0, 0, - 1] 2 else tiny_table [- 1, - 1, 1] 1)\<rparr>"

lemma sample_server_ok:
  "a < 2 \<Longrightarrow> star_node 2 a (sample_server a) \<and> contributor_ok tiny_consts (int a, server_nspaces (sample_server a))"
proof -
  assume "a < 2"
  moreover have "[0..<3] = [0, 1, 2 :: nat]" by code_simp
  ultimately show ?thesis
    using star_init [of 2 a]
    by (auto simp: sample_server_def star_node_def contributor_ok_def nss_ok_def ns_ok_def packable_def tiny_table_def
        tiny_consts_def name_ok_def own_ranks_def int_max_def less_Suc_eq numeral_2_eq_2)
qed

theorem exchange_of_tables_witness:
  "\<exists>data s (s' :: nat server). server_read_cb tiny_consts (entry_of 2 1 0)
      \<lparr>dst_id = 1, src_id = 0, cmd = CMD_FENCE_COMPLETE, payload = data\<rparr> s = Some (s', []) \<and>
    server_find_id (server_nspaces s') ''a'' 0 = Some 0 \<and> server_find_id (server_nspaces s') ''a'' 2 = Some 1"
proof -
  have ok: "\<forall>a < 2. star_node 2 a (sample_server a) \<and> contributor_ok tiny_consts (int a, server_nspaces (sample_server a))"
    using sample_server_ok by blast
  have sizes: "\<forall>a < 2. \<forall>b < 2. same_sizes (server_nspaces (sample_server a)) (server_nspaces (sample_server b))"
    by (simp add: sample_server_def same_sizes_def tiny_table_def)
  have zero: "contrib_cnt (sample_server 0) = 0" "fence_buf (sample_server 0) = []"
    by (simp_all add: sample_server_def init_server_def)
  have order: "set [1, 0] = {..<2 :: nat}" "length [1, 0 :: nat] = 2" "(0 :: nat) < 2" by auto
  obtain ss :: "nat \<Rightarrow> nat server" and data where all: "\<forall>a < 2. \<exists>s'. server_read_cb tiny_consts (entry_of 2 a 0)
        \<lparr>dst_id = int a, src_id = 0, cmd = CMD_FENCE_COMPLETE, payload = data\<rparr> (ss a) = Some (s', []) \<and>
      \<not> locked 2 a s' \<and>
      table (server_nspaces s') =
        fold (\<lambda>b t. mine (int b) (server_nspaces (sample_server b)) ++ t) [1, 0] (table (server_nspaces (sample_server a))) \<and>
      (\<forall>x r d. table (server_nspaces s') (x, r) = Some d \<longrightarrow> server_find_id (server_nspaces s') x (int r) = Some d)"
    using exchange_of_tables [OF ok sizes zero order] by blast
  have t: "fold (\<lambda>b t. mine (int b) (server_nspaces (sample_server b)) ++ t) [1, 0] (table (server_nspaces (sample_server 1)))
      (''a'', 0) = Some 0"
    "fold (\<lambda>b t. mine (int b) (server_nspaces (sample_server b)) ++ t) [1, 0] (table (server_nspaces (sample_server 1)))
      (''a'', 2) = Some 1"
    by (simp_all add: sample_server_def mine_def table_def tiny_table_def map_add_def)
  have "(1 :: nat) < 2" by simp
  with all obtain s' where s': "server_read_cb tiny_consts (entry_of 2 1 0)
      \<lparr>dst_id = int 1, src_id = 0, cmd = CMD_FENCE_COMPLETE, payload = data\<rparr> (ss 1) = Some (s', [])"
    "table (server_nspaces s') =
      fold (\<lambda>b t. mine (int b) (server_nspaces (sample_server b)) ++ t) [1, 0] (table (server_nspaces (sample_server 1)))"
    "\<And>x r d. table (server_nspaces s') (x, r) = Some d \<Longrightarrow> server_find_id (server_nspaces s') x (int r) = Some d"
    by blast
  have "server_find_id (server_nspaces s') ''a'' 0 = Some 0" "server_find_id (server_nspaces s') ''a'' 2 = Some 1"
    using s'(3) [of "''a''" 0 0] s'(3) [of "''a''" 2 1] t by (simp_all add: s'(2))
  then show ?thesis using s'(1) by auto
qed


end
