(* ===== verification/Launch.thy ===== *)
theory Launch
  imports Server CliStages ClientArgv
begin

text \<open>
  How a server of a run starts its clients: the job information and the loop of
  \<open>server_launch_clients\<close> (src/unit/test_server.c), and the part of the main program
  (src/unit/pmix_test.c) that divides the processes over the servers.

  The functions of the PMIx library that make the node and process maps are parameters; what
  \<open>PMIx_server_register_client\<close>, \<open>PMIx_server_setup_fork\<close> and \<open>fork\<close> answer is a script.
  Allocations are taken to succeed (the code does not check them).
\<close>

section \<open>The list of ranks\<close>

text \<open>
  \<open>fill_seq_ranks_array\<close> prints the ranks into a buffer of 11 characters per rank. Each
  \<open>snprintf\<close> writes at offset \<open>len\<close> with the size \<open>max_ranks_len - len - 1\<close>; a negative size is
  a huge one, and the result \<open>None\<close>. The first result is \<open>len\<close>, which counts the characters that
  did not fit too.
\<close>

definition put_text :: "int \<Rightarrow> string \<Rightarrow> int \<times> string \<Rightarrow> (int \<times> string) option" where
  "put_text max_len s = (\<lambda>(len, buf).
     if max_len - len - 1 < 0 then None
     else Some (len + int (length s), buf @ take (nat (max_len - len - 1) - 1) s))"

fun fill_ranks :: "nat \<Rightarrow> nat \<Rightarrow> int \<Rightarrow> int \<Rightarrow> int \<times> string \<Rightarrow> (int \<times> string) option" where
  "fill_ranks 0 i base max_len out = Some out"
| "fill_ranks (Suc n) i base max_len out =
     do { out \<leftarrow> put_text max_len (decimal (int32 (int i + base))) out;
          out \<leftarrow> (if n \<noteq> 0 then put_text max_len '','' out else Some out);
          fill_ranks n (i + 1) base max_len out }"

definition fill_seq_ranks_array :: "nat \<Rightarrow> int \<Rightarrow> string option option" where
  "fill_seq_ranks_array n base =
     (if n = 0 then Some None
      else (let max_ranks_len = int32 (int n * (int MAX_DIGIT_LEN + 1))
            in do { (len, ranks) \<leftarrow> fill_ranks n 0 base max_ranks_len (0, []);
                    Some (if max_ranks_len - 1 \<le> len then None else Some ranks) }))"

section \<open>The job information\<close>

text \<open>The library's \<open>PMIx_generate_regex\<close> and \<open>PMIx_generate_ppn\<close>, and \<open>getpid()\<close>.\<close>

record job_env =
  gen_regex :: "string \<Rightarrow> pmix_status \<times> string"
  gen_ppn :: "string \<Rightarrow> string"
  own_pid :: u32

definition joined :: "argv \<Rightarrow> char \<Rightarrow> string option" where
  "joined v d = (case pmix_argv_join [] v d of Some (Some s, ms) \<Rightarrow> Some s | _ \<Rightarrow> None)"

text \<open>\<open>snprintf\<close> or \<open>pmix_asprintf\<close> of \<open>node%d\<close>; \<open>PMIX_MAXHOSTNAMELEN\<close> is taken to be large enough.\<close>

definition node_name :: "int \<Rightarrow> string" where
  "node_name i = ''node'' @ decimal i"

definition node_names :: "int \<Rightarrow> int \<Rightarrow> argv" where
  "node_names sid servers =
     (if servers = 1 then push None (node_name sid)
      else foldl push None (map node_name [0..servers - 1]))"

text \<open>
  The global map of processes: the ranks of the nodes, separated by semicolons. It is global only
  for two servers; otherwise it has the ranks of this server.
\<close>

definition proc_map_text :: "int \<Rightarrow> int \<Rightarrow> int \<Rightarrow> int \<Rightarrow> int \<Rightarrow> string \<Rightarrow> string option" where
  "proc_map_text sid servers local_size univ_size base ranks =
     (if servers = 2 then
        (let rks = push None ranks
         in if sid = 0
            then do { ppn \<leftarrow> joined (foldl push None (map decimal [base + local_size..univ_size - 1])) CHR '','';
                      joined (push rks ppn) CHR '';'' }
            else do { ppn \<leftarrow> joined (foldl push None (map decimal [0..base - 1])) CHR '','';
                      joined (fst (snd (pmix_argv_prepend_nosize [] rks ppn))) CHR '';'' })
      else Some ranks)"

text \<open>
  \<open>set_namespace\<close>: the array \<open>info\<close> it registers for the namespace (an entry \<open>None\<close> was left
  empty); \<open>Some None\<close> when it returns without registering.
\<close>

definition set_namespace ::
  "job_env \<Rightarrow> int \<Rightarrow> int \<Rightarrow> int \<Rightarrow> int \<Rightarrow> int \<Rightarrow> (job_key \<times> job_value) option list option option" where
  "set_namespace E sid servers local_size univ_size base =
     (if local_size < 0 then None
      else do {
        ranks \<leftarrow> fill_seq_ranks_array (nat local_size) base;
        (case ranks of
           None \<Rightarrow> Some None
         | Some ranks \<Rightarrow>
             do { let nodes = node_names sid servers;
                  node_list \<leftarrow> joined nodes CHR '','';
                  if nodes \<noteq> None \<and> fst (gen_regex E node_list) \<noteq> PMIX_SUCCESS then Some None
                  else do {
                    ppn \<leftarrow> proc_map_text sid servers local_size univ_size base ranks;
                    Some (Some
                      [Some (PMIX_JOB_SIZE, Uint32 (word_of_int univ_size)),
                       Some (PMIX_SPAWNED, Uint32 0),
                       Some (PMIX_LOCAL_SIZE, Uint32 (word_of_int local_size)),
                       Some (PMIX_LOCAL_PEERS, Text ranks),
                       (if nodes = None then None else Some (PMIX_NODE_MAP, Regex_text (snd (gen_regex E node_list)))),
                       Some (PMIX_PROC_MAP, Regex_text (gen_ppn E ppn)),
                       Some (PMIX_JOB_SIZE, Uint32 (word_of_int univ_size)),
                       Some (PMIX_APPNUM, Uint32 (own_pid E))]) } }) })"

section \<open>Launching the clients\<close>

text \<open>
  A server with its table of clients; \<open>cli_counter\<close> and \<open>num_ns\<close> are static variables of
  \<open>server_launch_clients\<close>. \<open>jobs\<close> are the namespaces registered with the library, \<open>sent\<close> the
  messages written, both in order.
\<close>

record 'c launcher =
  host :: "'c server"
  clients :: harness
  cli_counter :: nat
  num_ns :: int
  jobs :: "(string \<times> (job_key \<times> job_value) option list) list"
  messages :: "'c event list"

text \<open>What the library and the system answer for one client; \<open>fork\<close> returns 0 in the child.\<close>

record os_answer =
  register_rc :: pmix_status
  setup_rc :: pmix_status
  fork_ret :: int

datatype launch_ret = Count nat | Status pmix_status

text \<open>The server goes on with a return value, or the process is the child, which calls \<open>execve\<close>.\<close>

datatype 'c launched = Parent launch_ret "'c launcher" | Child argv

fun mark_ranks :: "int \<Rightarrow> pmix_rank_t list \<Rightarrow> int list \<Rightarrow> int list option" where
  "mark_ranks sid [] m = Some m"
| "mark_ranks sid (r # rs) m = (if unat r < length m then mark_ranks sid rs (m[unat r := sid]) else None)"

text \<open>The new entry of the table of namespaces.\<close>

definition new_nspace :: "int \<Rightarrow> string \<Rightarrow> nat \<Rightarrow> nat \<Rightarrow> int \<Rightarrow> server_nspace option" where
  "new_nspace sid name local_size univ_size base =
     do { m \<leftarrow> mark_ranks sid (map (\<lambda>n. word_of_int (base + int n)) [0..<local_size]) (replicate univ_size (- 1));
          Some \<lparr>nsname = name, ntasks = univ_size, ltasks = local_size, task_map = m\<rparr> }"

text \<open>After a failure the clients launched so far are killed.\<close>

definition give_up :: "launch_ret \<Rightarrow> 'c launcher \<Rightarrow> 'c launched option" where
  "give_up r L = do { h \<leftarrow> cli_kill_all (clients L); Some (Parent r (L\<lparr>clients := h\<rparr>)) }"

fun fork_clients ::
  "(nat \<Rightarrow> os_answer) \<Rightarrow> argv \<Rightarrow> string \<Rightarrow> int \<Rightarrow> int \<Rightarrow> nat \<Rightarrow> nat \<Rightarrow> 'c launcher \<Rightarrow> 'c launched option" where
  "fork_clients os base_argv name univ_size base 0 rank_counter L =
     Some (Parent (Count rank_counter) (L\<lparr>num_ns := num_ns L + 1\<rparr>))"
| "fork_clients os base_argv name univ_size base (Suc n) rank_counter L =
     (let r = word_of_int (base + int rank_counter);
          answer = os rank_counter
      in if register_rc answer \<noteq> PMIX_SUCCESS \<and> register_rc answer \<noteq> PMIX_OPERATION_SUCCEEDED
         then give_up (Count 0) L
         else if setup_rc answer \<noteq> PMIX_SUCCESS then give_up (Status (setup_rc answer)) L
         else do {
           c \<leftarrow> cli (cli_counter L) (clients L);
           let c = c\<lparr>pid := fork_ret answer\<rparr>;
           if fork_ret answer < 0
           then give_up (Count 0) (L\<lparr>clients := set_cli (cli_counter L) c (clients L)\<rparr>)
           else do {
             let c = c\<lparr>cli_info_t.rank := r, ns := Ns name\<rparr>;
             v \<leftarrow> client_argv base_argv r name univ_size (num_ns L);
             if fork_ret answer = 0 then Some (Child v)
             else fork_clients os base_argv name univ_size base n (rank_counter + 1)
               (L\<lparr>clients := set_cli (cli_counter L) (c\<lparr>state := CLI_FORKED\<rparr>) (clients L),
                  cli_counter := cli_counter L + 1\<rparr>) } })"

text \<open>
  \<open>server_launch_clients\<close>. \<open>await\<close> is what the event thread makes of the server while
  \<open>server_send_procs\<close> waits for the tables of the others.
\<close>

definition server_launch_clients ::
  "pmix_consts \<Rightarrow> job_env \<Rightarrow> (nat \<Rightarrow> os_answer) \<Rightarrow> ('c server \<Rightarrow> 'c server) \<Rightarrow> int \<Rightarrow> argv \<Rightarrow>
   int \<Rightarrow> int \<Rightarrow> int \<Rightarrow> 'c launcher \<Rightarrow> 'c launched option" where
  "server_launch_clients K E os await servers base_argv local_size univ_size base L =
     do { let name = ns_name K (num_ns L);
          let sid = my_server_id (host L);
          info \<leftarrow> set_namespace E sid servers local_size univ_size base;
          item \<leftarrow> new_nspace sid name (nat local_size) (nat univ_size) base;
          let s = (host L)\<lparr>server_nspaces := server_nspaces (host L) @ [item]\<rparr>;
          (s, es) \<leftarrow> server_send_procs K s;
          fork_clients os base_argv name univ_size base (nat local_size) 0
            (L\<lparr>host := await s, messages := messages L @ es,
               jobs := jobs L @ (case info of None \<Rightarrow> [] | Some i \<Rightarrow> [(name, i)])\<rparr>) }"

section \<open>Dividing the processes\<close>

text \<open>
  The number of processes server \<open>i\<close> launches (\<open>lsize\<close> of \<open>server_init\<close>), in the unsigned
  arithmetic of the code, and the first rank of a server, as pmix_test.c adds it up.
\<close>

definition share :: "u32 \<Rightarrow> u32 \<Rightarrow> nat \<Rightarrow> u32" where
  "share procs servers i =
     (if word_of_nat i < procs mod servers then procs div servers + 1 else procs div servers)"

fun first_rank :: "u32 \<Rightarrow> u32 \<Rightarrow> nat \<Rightarrow> int" where
  "first_rank procs servers 0 = 0"
| "first_rank procs servers (Suc i) =
     int32 (uint (word_of_int (first_rank procs servers i) + share procs servers i))"

text \<open>Without servers the division traps.\<close>

definition set_lsize :: "nat \<Rightarrow> test_params \<Rightarrow> test_params option" where
  "set_lsize sid p =
     (if nservers p = 0 then None
      else Some (p\<lparr>lsize := share (nprocs p) (word_of_int (nservers p)) sid\<rparr>))"

text \<open>
  The launches of the main program: one namespace for all processes, or the namespaces of
  \<open>--ns-dist\<close>, which every server launches whole. \<open>code\<close> gives the numbers of the status codes;
  \<open>os k\<close> answers for the \<open>k\<close>-th namespace.
\<close>

datatype 'c main_state =
    Going_on int "'c launcher"            \<comment> \<open>with the value of \<open>launched\<close>\<close>
  | Returned pmix_status "'c launcher"
  | In_child argv

definition ret_val :: "(pmix_status \<Rightarrow> int) \<Rightarrow> launch_ret \<Rightarrow> int" where
  "ret_val code r = (case r of Count n \<Rightarrow> int n | Status rc \<Rightarrow> code rc)"

fun launch_dist ::
  "(pmix_status \<Rightarrow> int) \<Rightarrow> (nat \<Rightarrow> int \<Rightarrow> 'c launcher \<Rightarrow> 'c launched option) \<Rightarrow> u32 \<Rightarrow> nat \<Rightarrow>
   string list \<Rightarrow> int \<Rightarrow> 'c launcher \<Rightarrow> 'c main_state option" where
  "launch_dist code launch procs k [] launched L = Some (Going_on launched L)"
| "launch_dist code launch procs k (t # ts) launched L =
     (let n = int32 (strtol t)
      in if procs < word_of_int (launched + n) then Some (Returned PMIX_ERROR L)
         else if 0 < n
         then do { res \<leftarrow> launch k n L;
                   (case res of
                      Child v \<Rightarrow> Some (In_child v)
                    | Parent r L' \<Rightarrow> launch_dist code launch procs (k + 1) ts (launched + ret_val code r) L') }
         else launch_dist code launch procs k ts launched L)"

definition launch_all ::
  "pmix_consts \<Rightarrow> (pmix_status \<Rightarrow> int) \<Rightarrow> job_env \<Rightarrow> (nat \<Rightarrow> nat \<Rightarrow> os_answer) \<Rightarrow> ('c server \<Rightarrow> 'c server) \<Rightarrow>
   argv \<Rightarrow> test_params \<Rightarrow> 'c launcher \<Rightarrow> 'c main_state option" where
  "launch_all K code E os await base_argv p L =
     (let launch = (\<lambda>k. server_launch_clients K E (os k) await (nservers p) base_argv)
      in case ns_dist p of
           None \<Rightarrow>
             do { res \<leftarrow> launch 0 (sint (lsize p)) (sint (nprocs p))
                    (first_rank (nprocs p) (word_of_int (nservers p)) (nat (my_server_id (host L)))) L;
                  (case res of
                     Child v \<Rightarrow> Some (In_child v)
                   | Parent r L' \<Rightarrow> Some (Going_on (ret_val code r) L')) }
         | Some d \<Rightarrow> launch_dist code (\<lambda>k n. launch k n n 0) (nprocs p) 0 (tokens CHR '':'' d) 0 L)"

text \<open>The check that follows: a wrong number of clients is a failure, and they are killed.\<close>

definition check_launched :: "u32 \<Rightarrow> int \<Rightarrow> 'c launcher \<Rightarrow> (int \<times> 'c launcher) option" where
  "check_launched lsz launched L =
     (if lsz \<noteq> word_of_int launched
      then do { h \<leftarrow> cli_kill_all (clients L); Some (1, L\<lparr>clients := h\<rparr>) }
      else Some (0, L))"

section \<open>The ranks in the buffer\<close>

lemma put_text_fits:
  "int (length s) < max_len - len - 1 \<Longrightarrow> put_text max_len s (len, buf) = Some (len + int (length s), buf @ s)"
  by (simp add: put_text_def)

definition rank_texts :: "nat \<Rightarrow> int \<Rightarrow> nat \<Rightarrow> string list" where
  "rank_texts i base n = map (\<lambda>k. decimal (int32 (int k + base))) [i..<i + n]"

lemma rank_texts_Suc: "rank_texts i base (Suc n) = decimal (int32 (int i + base)) # rank_texts (i + 1) base n"
  by (simp add: rank_texts_def upt_conv_Cons del: upt_Suc)

lemma length_rank_texts [simp]: "length (rank_texts i base n) = n"
  by (simp add: rank_texts_def)

lemma fill_ranks_eq:
  assumes "\<forall>s \<in> set (rank_texts i base (Suc n)). length s \<le> 10" "len \<le> 11 * int i"
    "m = 11 * (int i + int n + 1)"
  shows "\<exists>buf'. fill_ranks (Suc n) i base m (len, buf) =
      Some (len + int (length (join_with CHR '','' (rank_texts i base (Suc n)))), buf') \<and>
    (len + int (length (join_with CHR '','' (rank_texts i base (Suc n)))) < m - 1 \<longrightarrow>
      buf' = buf @ join_with CHR '','' (rank_texts i base (Suc n)))"
  using assms
proof (induction n arbitrary: i len buf)
  case 0
  let ?s = "decimal (int32 (int i + base))"
  have "put_text m ?s (len, buf) = Some (len + int (length ?s), buf @ take (nat (m - len - 1) - 1) ?s)"
    using 0 by (simp add: put_text_def)
  moreover have "take (nat (m - len - 1) - 1) ?s = ?s" if "len + int (length ?s) < m - 1" using that by simp
  ultimately show ?case by (auto simp: rank_texts_Suc) (simp_all add: rank_texts_def)
next
  case (Suc n)
  let ?s = "decimal (int32 (int i + base))"
  let ?j = "join_with CHR '','' (rank_texts (i + 1) base (Suc n))"
  have s: "length ?s \<le> 10" "\<forall>s \<in> set (rank_texts (i + 1) base (Suc n)). length s \<le> 10"
    using Suc.prems(1) by (auto simp: rank_texts_Suc [of i base "Suc n"])
  have first: "put_text m ?s (len, buf) = Some (len + int (length ?s), buf @ ?s)"
    "put_text m '','' (len + int (length ?s), buf @ ?s) = Some (len + int (length ?s) + 1, (buf @ ?s) @ '','')"
    using s(1) Suc.prems by (subst put_text_fits; simp)+
  have "rank_texts (i + 1) base (Suc n) \<noteq> []" by (simp add: rank_texts_def)
  then have j: "join_with CHR '','' (rank_texts i base (Suc (Suc n))) = ?s @ '','' @ ?j"
    by (simp add: rank_texts_Suc [of i] join_with_Cons)
  have "len + int (length ?s) + 1 \<le> 11 * int (i + 1)" "m = 11 * (int (i + 1) + int n + 1)"
    using s(1) Suc.prems by simp_all
  then obtain buf' where "fill_ranks (Suc n) (i + 1) base m (len + int (length ?s) + 1, (buf @ ?s) @ '','') =
      Some (len + int (length ?s) + 1 + int (length ?j), buf')"
    "len + int (length ?s) + 1 + int (length ?j) < m - 1 \<longrightarrow> buf' = ((buf @ ?s) @ '','') @ ?j"
    using Suc.IH [OF s(2)] by blast
  moreover from this have "fill_ranks (Suc (Suc n)) i base m (len, buf) =
      Some (len + int (length (?s @ '','' @ ?j)), buf')"
    by (subst fill_ranks.simps(2)) (simp add: first del: fill_ranks.simps)
  ultimately show ?case unfolding j by simp
qed

lemma join_length: "xs \<noteq> [] \<Longrightarrow> length (join_with d xs) = sum_list (map length xs) + length xs - 1"
  by (induction d xs rule: join_with.induct) auto

lemma lengths_bounds:
  "\<forall>s \<in> set xs. length s \<le> (k :: nat) \<Longrightarrow> sum_list (map length xs) \<le> k * length xs"
  "\<forall>s \<in> set xs. k < length s \<Longrightarrow> (k + 1) * length xs \<le> sum_list (map length xs)"
  by (induction xs) auto

text \<open>
  The buffer has room for ranks below 1000000000, and for any list of ranks whose first one is:
  otherwise every number has ten digits, the closing check fires and there is no list.
\<close>

lemma fill_seq_ranks:
  assumes "0 < n" "0 \<le> base" "base + int n \<le> int_max + 1" "11 * int n \<le> int_max"
  shows "fill_seq_ranks_array n base =
    Some (if base < 1000000000 then Some (join_with CHR '','' (map (\<lambda>k. decimal (base + int k)) [0..<n])) else None)"
proof -
  obtain n' where n: "n = Suc n'" using assms(1) by (cases n) auto
  let ?ts = "rank_texts 0 base n"
  have ts: "?ts = map (\<lambda>k. decimal (base + int k)) [0..<n]"
    using assms by (auto simp: rank_texts_def int32_id int_min_def add.commute)
  have ten: "\<forall>s \<in> set ?ts. length s \<le> 10"
    using assms by (auto simp: ts int_max_def intro!: decimal_length_le)
  have m: "int32 (int n * (int MAX_DIGIT_LEN + 1)) = 11 * (int 0 + int n' + 1)"
    using assms(4) n by (subst int32_id) (auto simp: MAX_DIGIT_LEN_def int_min_def)
  obtain buf' where fill: "fill_ranks (Suc n') 0 base (11 * (int 0 + int n' + 1)) (0, []) =
      Some (int (length (join_with CHR '','' ?ts)), buf')"
    and buf: "int (length (join_with CHR '','' ?ts)) < 11 * int n - 1 \<Longrightarrow> buf' = join_with CHR '','' ?ts"
    using fill_ranks_eq [of 0 base n' 0 _ "[]"] ten n by auto
  have len: "length (join_with CHR '','' ?ts) = sum_list (map length ?ts) + n - 1" "length ?ts = n"
    using join_length [of ?ts] assms(1) by (simp_all add: rank_texts_def)
  show ?thesis
  proof (cases "base < 1000000000")
    case True
    have "length (decimal (int32 base)) \<le> 9"
      using True assms by (subst int32_id) (auto simp: int_min_def int_max_def intro!: decimal_length_le)
    moreover have "sum_list (map length (rank_texts 1 base n')) \<le> 10 * n'"
      using lengths_bounds(1) [of "rank_texts 1 base n'" 10] ten n by (simp add: rank_texts_Suc)
    ultimately have "sum_list (map length ?ts) < 10 * n" using n by (simp add: rank_texts_Suc)
    then have "int (length (join_with CHR '','' ?ts)) < 11 * int n - 1" using len(1) assms(1) by linarith
    then show ?thesis
      unfolding ts [symmetric] using fill buf m n True
      by (simp add: fill_seq_ranks_array_def Let_def del: fill_ranks.simps)
  next
    case False
    have "\<forall>s \<in> set ?ts. 9 < length s"
      using False by (auto simp: ts intro!: decimal_length_ge)
    then have "10 * n \<le> sum_list (map length ?ts)" using lengths_bounds(2) [of ?ts 9] len(2) by simp
    then have "11 * int n - 1 \<le> int (length (join_with CHR '','' ?ts))" using len(1) by linarith
    then show ?thesis
      unfolding ts [symmetric] using fill m n False
      by (simp add: fill_seq_ranks_array_def Let_def del: fill_ranks.simps)
  qed
qed

section \<open>The division of the ranks\<close>

text \<open>What server \<open>i\<close> of \<open>s\<close> gets of \<open>n\<close> processes, and its first rank.\<close>

definition share_of :: "nat \<Rightarrow> nat \<Rightarrow> nat \<Rightarrow> nat" where
  "share_of n s i = n div s + (if i < n mod s then 1 else 0)"

definition start_of :: "nat \<Rightarrow> nat \<Rightarrow> nat \<Rightarrow> nat" where
  "start_of n s i = i * (n div s) + min i (n mod s)"

lemma start_Suc: "start_of n s (Suc i) = start_of n s i + share_of n s i"
  by (auto simp: start_of_def share_of_def)

lemma start_0 [simp]: "start_of n s 0 = 0"
  by (simp add: start_of_def)

lemma start_all: "0 < s \<Longrightarrow> start_of n s s = n"
  by (simp add: start_of_def)

lemma start_mono: "i \<le> j \<Longrightarrow> start_of n s i \<le> start_of n s j"
  by (induction j) (auto simp: start_Suc le_Suc_eq)

lemma start_le: "i \<le> s \<Longrightarrow> 0 < s \<Longrightarrow> start_of n s i \<le> n"
  using start_mono [of i s n s] by (simp add: start_all)

lemma unat_u32: "x < 4294967296 \<Longrightarrow> unat (word_of_nat x :: u32) = x"
  by (simp add: unat_of_nat)

lemma share_word:
  assumes "n < 4294967296" "0 < s" "s < 4294967296" "i < s"
  shows "share (word_of_nat n) (word_of_nat s) i = word_of_nat (share_of n s i)"
proof -
  note u = unat_u32
  have "(word_of_nat n :: u32) div word_of_nat s = word_of_nat (n div s)"
    "(word_of_nat n :: u32) mod word_of_nat s = word_of_nat (n mod s)"
    using assms by (simp_all add: word_arith_nat_div word_arith_nat_mod u)
  moreover have "(word_of_nat i :: u32) < word_of_nat (n mod s) \<longleftrightarrow> i < n mod s"
    using assms by (subst word_less_nat_alt) (auto simp: u less_trans [OF mod_less_divisor])
  ultimately show ?thesis by (simp add: share_def share_of_def)
qed

lemma first_rank_eq:
  assumes "n < 2147483648" "0 < s" "s < 4294967296" "i \<le> s"
  shows "first_rank (word_of_nat n) (word_of_nat s) i = int (start_of n s i)"
  using assms
proof (induction i)
  case (Suc i)
  have le: "start_of n s i + share_of n s i \<le> n" using start_le [of "Suc i" s n] Suc.prems by (simp add: start_Suc)
  have "word_of_int (int (start_of n s i)) + word_of_nat (share_of n s i) = (word_of_nat (start_of n s i + share_of n s i) :: u32)"
    by simp
  moreover have "uint (word_of_nat (start_of n s i + share_of n s i) :: u32) = int (start_of n s i + share_of n s i)"
    using le Suc.prems(1) by (simp add: uint_nat unat_u32 del: of_nat_add)
  moreover have "int32 (int (start_of n s i + share_of n s i)) = int (start_of n s i + share_of n s i)"
    using le Suc.prems(1) by (intro int32_nat) simp
  ultimately show ?case
    using Suc by (simp add: share_word start_Suc del: of_nat_add)
qed simp

text \<open>Every rank belongs to exactly one server.\<close>

lemma owner_exists:
  "r < start_of n s k \<Longrightarrow> \<exists>i < k. start_of n s i \<le> r \<and> r < start_of n s (Suc i)"
proof (induction k)
  case (Suc k)
  then show ?case by (cases "r < start_of n s k") (auto intro: less_SucI)
qed simp

lemma owner_unique:
  assumes "start_of n s i \<le> r" "r < start_of n s (Suc i)" "start_of n s j \<le> r" "r < start_of n s (Suc j)"
  shows "i = j"
  using start_mono [of "Suc i" j n s] start_mono [of "Suc j" i n s] assms by (cases i j rule: linorder_cases) auto

section \<open>The table of a launched namespace\<close>

lemma mark_ranks_eq:
  assumes "\<forall>r \<in> set rs. unat r < length m"
  shows "mark_ranks sid rs m = Some (map (\<lambda>k. if k \<in> unat ` set rs then sid else m ! k) [0..<length m])"
  using assms
proof (induction rs arbitrary: m)
  case Nil
  then show ?case by (simp add: map_nth)
next
  case (Cons r rs)
  then show ?case by (auto simp: nth_list_update intro!: map_cong)
qed

definition launched_item :: "nat \<Rightarrow> nat \<Rightarrow> string \<Rightarrow> nat \<Rightarrow> server_nspace" where
  "launched_item n s name i = \<lparr>nsname = name, ntasks = n, ltasks = share_of n s i,
     task_map = map (\<lambda>r. if start_of n s i \<le> r \<and> r < start_of n s (Suc i) then int i else - 1) [0..<n]\<rparr>"

lemma new_nspace_eq:
  assumes "n < 2147483648" "0 < s" "i < s"
  shows "new_nspace (int i) name (share_of n s i) n (int (start_of n s i)) = Some (launched_item n s name i)"
proof -
  let ?rs = "map (\<lambda>k. word_of_int (int (start_of n s i) + int k) :: pmix_rank_t) [0..<share_of n s i]"
  have le: "start_of n s i + share_of n s i \<le> n" using start_le [of "Suc i" s n] assms by (simp add: start_Suc)
  have "unat (word_of_int (int (start_of n s i) + int k) :: u32) = start_of n s i + k" if "k < share_of n s i" for k
    using that le assms(1) unat_u32 [of "start_of n s i + k"] by simp
  then have u: "map unat ?rs = [start_of n s i..<start_of n s (Suc i)]"
    by (auto simp: start_Suc intro!: nth_equalityI)
  then have range: "unat ` set ?rs = {start_of n s i..<start_of n s (Suc i)}"
    by (metis list.set_map set_upt)
  moreover have "unat r < n" if "r \<in> set ?rs" for r
  proof -
    have "unat r \<in> {start_of n s i..<start_of n s (Suc i)}" using imageI [OF that, of unat] range by blast
    then show ?thesis using le by (simp add: start_Suc)
  qed
  ultimately show ?thesis
    using mark_ranks_eq [of ?rs "replicate n (- 1)" "int i"]
    by (auto simp: new_nspace_def launched_item_def intro!: map_cong)
qed

lemma launched_item_simps [simp]:
  "nsname (launched_item n s name i) = name" "ntasks (launched_item n s name i) = n"
  "ltasks (launched_item n s name i) = share_of n s i" "length (task_map (launched_item n s name i)) = n"
  by (simp_all add: launched_item_def)

lemma own_ranks_launched:
  assumes "0 < s" "i < s"
  shows "own_ranks (int i) (launched_item n s name i) = [start_of n s i..<start_of n s (Suc i)]"
proof -
  have "start_of n s (Suc i) \<le> n" "start_of n s i \<le> start_of n s (Suc i)"
    using start_le [of "Suc i" s n] start_mono [of i "Suc i" n s] assms by simp_all
  then have "[0..<n] = [0..<start_of n s i] @ [start_of n s i..<start_of n s (Suc i)] @ [start_of n s (Suc i)..<n]"
    by (simp add: upt_split [of 0 "start_of n s i" n] upt_split [of "start_of n s i" "start_of n s (Suc i)" n])
  moreover have "own_ranks (int i) (launched_item n s name i) =
      filter (\<lambda>r. start_of n s i \<le> r \<and> r < start_of n s (Suc i)) [0..<n]"
    unfolding own_ranks_def by (intro filter_cong) (auto simp: launched_item_def)
  ultimately show ?thesis by (simp add: filter_empty_conv filter_id_conv)
qed

lemma contributor_launched:
  assumes "int n \<le> int_max" "int s \<le> int_max" "i < s" "name_ok K name"
  shows "contributor_ok K (int i, [launched_item n s name i])"
  using assms own_ranks_launched [of s i n name]
  by (auto simp: contributor_ok_def nss_ok_def Wire.ns_ok_def packable_def start_Suc)

lemma in_share:
  assumes "start_of n s k \<le> r" "r < start_of n s (Suc k)"
  shows "start_of n s i \<le> r \<and> r < start_of n s (Suc i) \<longleftrightarrow> i = k"
  using owner_unique [of n s i r k] assms by blast

lemma table_launched:
  assumes "r < n" "start_of n s k \<le> r" "r < start_of n s (Suc k)"
  shows "table [launched_item n s name i] (name, r) = (if i = k then Some (int k) else None)"
    and "mine (int i) [launched_item n s name i] (name, r) = (if i = k then Some (int k) else None)"
proof -
  have "task_map (launched_item n s name i) ! r = (if i = k then int k else - 1)"
    using assms(1) by (simp add: launched_item_def in_share [OF assms(2,3), of i])
  then show "table [launched_item n s name i] (name, r) = (if i = k then Some (int k) else None)"
    using assms(1) by (cases "i = k") (simp_all add: table_def)
  then show "mine (int i) [launched_item n s name i] (name, r) = (if i = k then Some (int k) else None)"
    by (simp add: mine_def)
qed

lemma same_sizes_launched: "same_sizes [launched_item n s name i] [launched_item n s name j]"
  by (simp add: same_sizes_def)

lemma merged_launched:
  assumes "r < n" "start_of n s k \<le> r" "r < start_of n s (Suc k)"
  shows "fold (\<lambda>c t. mine (fst c) (snd c) ++ t) (map (\<lambda>i. (int i, [launched_item n s name i])) ids) t (name, r) =
    (case t (name, r) of None \<Rightarrow> if k \<in> set ids then Some (int k) else None | Some x \<Rightarrow> Some x)"
proof (induction ids arbitrary: t)
  case Nil
  then show ?case by (simp split: option.split)
next
  case (Cons i ids)
  have "(mine (int i) [launched_item n s name i] ++ t) (name, r) =
      (case t (name, r) of None \<Rightarrow> if i = k then Some (int k) else None | Some x \<Rightarrow> Some x)"
    using table_launched(2) [OF assms, of i name] by (cases "t (name, r)") (simp_all add: map_add_def)
  then show ?case
    using Cons.IH [of "mine (int i) [launched_item n s name i] ++ t"] by (cases "t (name, r)") auto
qed

text \<open>A server that unpacks the buffers of all servers knows the server of every rank.\<close>

lemma launched_exchange:
  assumes "int n \<le> int_max" "int s \<le> int_max" "name_ok K name" "set ids = {..<s}" "j < s"
  shows "\<exists>nss. server_unpack_procs K (concat (map (\<lambda>i. contribution K (int i, [launched_item n s name i])) ids))
        [launched_item n s name j] = Some nss \<and>
      (\<forall>r < n. \<forall>k < s. start_of n s k \<le> r \<and> r < start_of n s (Suc k) \<longrightarrow> server_find_id nss name (int r) = Some (int k))"
proof -
  let ?item = "launched_item n s name"
  let ?cs = "map (\<lambda>i. (int i, [?item i])) ids"
  have "\<forall>c \<in> set ?cs. contributor_ok K c" "nss_ok K [?item j]"
    using contributor_launched [OF assms(1,2) _ assms(3)] assms(4,5) by (auto simp: contributor_ok_def)
  then obtain nss where nss: "server_unpack_procs K (concat (map (contribution K) ?cs)) [?item j] = Some nss"
    "table nss = fold (\<lambda>c t. mine (fst c) (snd c) ++ t) ?cs (table [?item j])"
    using unpack_contributions [of ?cs K "[?item j]"] same_sizes_launched by auto
  have "table nss (name, r) = Some (int k)"
    if "r < n" "start_of n s k \<le> r" "r < start_of n s (Suc k)" "k < s" for r k
    unfolding nss(2) merged_launched [OF that(1-3)] table_launched(1) [OF that(1-3)] using that(4) assms(4) by auto
  then show ?thesis using nss(1) table_find_id by (auto simp: o_def)
qed

text \<open>The arithmetic of the code, and the entry each server makes.\<close>

lemma division_words:
  assumes "int n \<le> int_max" "int s \<le> int_max" "i < s"
  shows "unat (share (word_of_nat n) (word_of_nat s) i) = share_of n s i"
    "first_rank (word_of_nat n) (word_of_nat s) i = int (start_of n s i)"
  using assms start_le [of "Suc i" s n] unat_u32 [of "share_of n s i"]
  by (simp_all add: share_word first_rank_eq start_Suc int_max_def)

lemma launched_packs:
  assumes "int n \<le> int_max" "int s \<le> int_max" "i < s" "name_ok K name"
  shows "new_nspace (int i) name (unat (share (word_of_nat n) (word_of_nat s) i)) n
      (first_rank (word_of_nat n) (word_of_nat s) i) = Some (launched_item n s name i)"
    "\<exists>k. server_pack_procs K (int i) [launched_item n s name i] [] =
      Some (k, contribution K (int i, [launched_item n s name i]))"
  using new_nspace_eq [of n s i name] division_words [OF assms(1-3)] contributor_launched [OF assms]
    pack_contribution [of K "[launched_item n s name i]" "int i"] assms
  by (simp_all add: contributor_ok_def int_max_def)

section \<open>The launch loop\<close>

definition succeeds :: "os_answer \<Rightarrow> bool" where
  "succeeds a \<longleftrightarrow> (register_rc a = PMIX_SUCCESS \<or> register_rc a = PMIX_OPERATION_SUCCEEDED) \<and>
     setup_rc a = PMIX_SUCCESS \<and> 0 < fork_ret a"

text \<open>A table whose entries from \<open>cli_counter\<close> on are free, with room for \<open>n\<close> clients.\<close>

definition room_for :: "nat \<Rightarrow> 'c launcher \<Rightarrow> bool" where
  "room_for n L \<longleftrightarrow> table_ok (clients L) \<and> cli_counter L + n \<le> length (cli_info (clients L)) \<and>
     list_all idle (drop (cli_counter L) (cli_info (clients L)))"

definition running_pids :: "harness \<Rightarrow> int list" where
  "running_pids h = map pid (filter running (cli_info h))"

text \<open>\<open>fork\<close> returns -1 or a new process identifier.\<close>

definition fresh_pids :: "(nat \<Rightarrow> os_answer) \<Rightarrow> nat \<Rightarrow> nat \<Rightarrow> int list \<Rightarrow> bool" where
  "fresh_pids os a b ps \<longleftrightarrow>
     (\<forall>k. a \<le> k \<and> k < b \<longrightarrow> (fork_ret (os k) = - 1 \<or> 0 < fork_ret (os k) \<and> fork_ret (os k) \<notin> set ps)) \<and>
     (\<forall>k l. a \<le> k \<and> k < l \<and> l < b \<and> 0 < fork_ret (os k) \<longrightarrow> fork_ret (os k) \<noteq> fork_ret (os l))"

definition forked :: "os_answer \<Rightarrow> pmix_rank_t \<Rightarrow> string \<Rightarrow> cli_info_t \<Rightarrow> cli_info_t" where
  "forked a r name c = c\<lparr>pid := fork_ret a, cli_info_t.rank := r, ns := Ns name, state := CLI_FORKED\<rparr>"

definition one_forked :: "os_answer \<Rightarrow> pmix_rank_t \<Rightarrow> string \<Rightarrow> 'c launcher \<Rightarrow> 'c launcher" where
  "one_forked a r name L =
     L\<lparr>clients := set_cli (cli_counter L) (forked a r name (cli_info (clients L) ! cli_counter L)) (clients L),
       cli_counter := cli_counter L + 1\<rparr>"

lemma one_forked_ok:
  assumes "room_for (Suc n) L" "succeeds a" "fork_ret a \<notin> set (running_pids (clients L))"
  shows "room_for n (one_forked a r name L)"
    "running_pids (clients (one_forked a r name L)) = running_pids (clients L) @ [fork_ret a]"
    "killed (clients (one_forked a r name L)) = killed (clients L)"
    "length (cli_info (clients (one_forked a r name L))) = length (cli_info (clients L))"
proof -
  let ?xs = "cli_info (clients L)" and ?i = "cli_counter L"
  let ?c = "forked a r name (?xs ! ?i)"
  have i: "?i < length ?xs" using assms(1) by (simp add: room_for_def)
  have split: "?xs = take ?i ?xs @ ?xs ! ?i # drop (Suc ?i) ?xs" using i by (simp add: id_take_nth_drop)
  have "idle (?xs ! ?i)" and rest: "list_all idle (drop (Suc ?i) ?xs)" "list_all client_ok ?xs"
    using assms(1) i by (simp_all add: room_for_def table_ok_def Cons_nth_drop_Suc [symmetric])
  then have "client_ok (?xs ! ?i)" "running ?c"
    using i assms(2) by (auto simp: list_all_iff running_def forked_def succeeds_def)
  then have c: "running ?c" "client_ok ?c"
    using \<open>idle (?xs ! ?i)\<close> by (auto simp: client_ok_def forked_def running_def idle_def ended_def)
  have nobody: "filter running (drop (Suc ?i) ?xs) = []" "\<not> running (?xs ! ?i)"
    using rest \<open>idle (?xs ! ?i)\<close> running_simps by (auto simp: filter_empty_conv list_all_iff)
  have "filter running ?xs = filter running (take ?i ?xs)"
    by (subst split) (simp add: nobody del: append_take_drop_id)
  moreover have new: "cli_info (clients (one_forked a r name L)) = take ?i ?xs @ ?c # drop (Suc ?i) ?xs"
    using i by (simp add: one_forked_def set_cli_def upd_conv_take_nth_drop)
  ultimately have run: "filter running (cli_info (clients (one_forked a r name L))) = filter running ?xs @ [?c]"
    using c nobody by simp
  then show "running_pids (clients (one_forked a r name L)) = running_pids (clients L) @ [fork_ret a]"
    by (simp add: running_pids_def forked_def)
  show "killed (clients (one_forked a r name L)) = killed (clients L)"
    "length (cli_info (clients (one_forked a r name L))) = length ?xs"
    by (simp_all add: one_forked_def set_cli_def)
  have "list_all client_ok (take ?i ?xs @ ?c # drop (Suc ?i) ?xs)"
    using rest(2) c(2) by (auto simp: list_all_iff dest: in_set_takeD in_set_dropD)
  moreover have "distinct (map pid (filter running ?xs @ [?c]))"
    using assms(1,3) by (simp add: room_for_def table_ok_def running_pids_def forked_def)
  ultimately have "table_ok (clients (one_forked a r name L))"
    unfolding table_ok_def run unfolding new by blast
  then show "room_for n (one_forked a r name L)"
    using assms(1) i rest(1) unfolding room_for_def new by (simp add: one_forked_def) linarith
qed

lemma print_digit_small: "0 \<le> v \<Longrightarrow> v < 1000000000 \<Longrightarrow> print_digit v = Some (decimal v)"
  using decimal_length_le [of v 9] by (simp add: print_digit_def MAX_DIGIT_LEN_def)

lemma client_argv_small:
  assumes "0 \<le> r" "r < 1000000000" "0 \<le> u" "u < 1000000000" "0 \<le> k" "k < 1000000000"
  shows "\<exists>v. client_argv (Some b) (word_of_int r) name u k = Some v"
proof -
  have "sint (word_of_int r :: 32 word) = r"
    using int32_id [of r] assms by (simp add: int32_def int_min_def int_max_def)
  then show ?thesis
    using assms by (simp add: client_argv_def pmix_argv_copy_def copy_loop_Nil print_digit_small)
qed

lemma fork_step:
  assumes "room_for (Suc n) L" "succeeds (os k)" "0 \<le> base" "base + int k < 1000000000" "0 \<le> u" "u < 1000000000"
    "0 \<le> num_ns L" "num_ns L < 1000000000"
  shows "fork_clients os (Some b) name u base (Suc n) k L =
    fork_clients os (Some b) name u base n (k + 1) (one_forked (os k) (word_of_int (base + int k)) name L)"
proof -
  obtain v where v: "client_argv (Some b) (word_of_int (base + int k)) name u (num_ns L) = Some v"
    using client_argv_small [of "base + int k" u "num_ns L" b name] assms by auto
  have "cli (cli_counter L) (clients L) = Some (cli_info (clients L) ! cli_counter L)"
    using assms(1) by (simp add: cli_def room_for_def)
  then show ?thesis
    using assms(2) v by (auto simp: Let_def succeeds_def one_forked_def forked_def)
qed

lemma fork_failure:
  assumes "room_for (Suc n) L" "\<not> succeeds (os k)" "fork_ret (os k) = - 1 \<or> 0 < fork_ret (os k)"
  shows "\<exists>r L'. fork_clients os b name u base (Suc n) k L = Some (Parent r L') \<and>
    (r = Count 0 \<or> r = Status (setup_rc (os k)) \<and> setup_rc (os k) \<noteq> PMIX_SUCCESS) \<and>
    killed (clients L') = killed (clients L) @ running_pids (clients L) \<and> running_pids (clients L') = []"
proof -
  let ?xs = "cli_info (clients L)" and ?i = "cli_counter L"
  have i: "?i < length ?xs" and ok: "table_ok (clients L)"
    using assms(1) by (simp_all add: room_for_def)
  have idle: "idle (?xs ! ?i)" using assms(1) i by (simp add: room_for_def Cons_nth_drop_Suc [symmetric])
  have "(?xs ! ?i)\<lparr>pid := - 1\<rparr> = ?xs ! ?i"
    by (rule cli_info_t.equality) (use idle in \<open>simp_all add: idle_def\<close>)
  then have same: "set_cli ?i ((?xs ! ?i)\<lparr>pid := - 1\<rparr>) (clients L) = clients L"
    by (simp add: set_cli_def)
  have quit: "\<exists>L'. give_up r L = Some (Parent r L') \<and>
      killed (clients L') = killed (clients L) @ running_pids (clients L) \<and> running_pids (clients L') = []" for r
  proof -
    have "\<not> running (if running c then terminated c else c)" for c by (simp add: running_def)
    then show ?thesis by (simp add: give_up_def kill_all_ok [OF ok] running_pids_def filter_map o_def)
  qed
  have "fork_clients os b name u base (Suc n) k L =
      (if register_rc (os k) \<noteq> PMIX_SUCCESS \<and> register_rc (os k) \<noteq> PMIX_OPERATION_SUCCEEDED then give_up (Count 0) L
       else if setup_rc (os k) \<noteq> PMIX_SUCCESS then give_up (Status (setup_rc (os k))) L else give_up (Count 0) L)"
    using assms(2,3) i same by (auto simp: Let_def succeeds_def cli_def)
  then show ?thesis using quit [of "Count 0"] quit [of "Status (setup_rc (os k))"] by (auto split: if_splits)
qed

lemma fresh_pids_step:
  assumes "fresh_pids os k (k + Suc n) ps" "succeeds (os k)"
  shows "fresh_pids os (k + 1) (k + 1 + n) (ps @ [fork_ret (os k)])" "fork_ret (os k) \<notin> set ps"
proof -
  have k: "0 < fork_ret (os k)" using assms(2) by (simp add: succeeds_def)
  have old: "fork_ret (os i) = - 1 \<or> 0 < fork_ret (os i) \<and> fork_ret (os i) \<notin> set ps" if "k \<le> i" "i < k + Suc n" for i
    using assms(1) that by (simp add: fresh_pids_def)
  have dist: "0 < fork_ret (os i) \<Longrightarrow> fork_ret (os i) \<noteq> fork_ret (os l)" if "k \<le> i" "i < l" "l < k + Suc n" for i l
    using assms(1) that by (auto simp: fresh_pids_def)
  have "fork_ret (os i) = - 1 \<or> 0 < fork_ret (os i) \<and> fork_ret (os i) \<notin> set (ps @ [fork_ret (os k)])"
    if "k + 1 \<le> i \<and> i < k + 1 + n" for i
    using old [of i] dist [of k i] k that by auto
  then show "fresh_pids os (k + 1) (k + 1 + n) (ps @ [fork_ret (os k)])"
    using dist unfolding fresh_pids_def by simp
  show "fork_ret (os k) \<notin> set ps" using old [of k] k by auto
qed

lemma launch_all_succeed:
  assumes "room_for n L" "\<forall>i. k \<le> i \<and> i < k + n \<longrightarrow> succeeds (os i)"
    "fresh_pids os k (k + n) (running_pids (clients L))" "0 \<le> base" "base + int (k + n) \<le> 1000000000"
    "0 \<le> u" "u < 1000000000" "0 \<le> num_ns L" "num_ns L < 1000000000"
  shows "\<exists>L'. fork_clients os (Some b) name u base n k L = Some (Parent (Count (k + n)) L') \<and>
    table_ok (clients L') \<and> cli_counter L' = cli_counter L + n \<and> num_ns L' = num_ns L + 1 \<and>
    running_pids (clients L') = running_pids (clients L) @ map (\<lambda>i. fork_ret (os i)) [k..<k + n] \<and>
    killed (clients L') = killed (clients L)"
  using assms
proof (induction n arbitrary: k L)
  case 0
  then show ?case by (simp add: room_for_def)
next
  case (Suc n)
  let ?L = "one_forked (os k) (word_of_int (base + int k)) name L"
  have k: "succeeds (os k)" using Suc.prems(2) by simp
  note fresh = fresh_pids_step [OF Suc.prems(3) k]
  note one = one_forked_ok [OF Suc.prems(1) k fresh(2), of "word_of_int (base + int k)" name]
  have "fork_clients os (Some b) name u base (Suc n) k L = fork_clients os (Some b) name u base n (k + 1) ?L"
    using Suc.prems k by (intro fork_step) auto
  moreover have "[k..<k + Suc n] = k # [k + 1..<k + 1 + n]" by (simp add: upt_conv_Cons)
  moreover have "num_ns ?L = num_ns L" "cli_counter ?L = cli_counter L + 1" by (simp_all add: one_forked_def)
  ultimately show ?case
    using Suc.IH [of ?L "k + 1"] one fresh(1) Suc.prems by (simp add: one(2))
qed

lemma launch_failure:
  assumes "room_for n L" "k \<le> j" "j < k + n" "\<forall>i. k \<le> i \<and> i < j \<longrightarrow> succeeds (os i)" "\<not> succeeds (os j)"
    "fresh_pids os k (k + n) (running_pids (clients L))" "0 \<le> base" "base + int (k + n) \<le> 1000000000"
    "0 \<le> u" "u < 1000000000" "0 \<le> num_ns L" "num_ns L < 1000000000"
  shows "\<exists>r L'. fork_clients os (Some b) name u base n k L = Some (Parent r L') \<and>
    (r = Count 0 \<or> r = Status (setup_rc (os j)) \<and> setup_rc (os j) \<noteq> PMIX_SUCCESS) \<and>
    killed (clients L') = killed (clients L) @ running_pids (clients L) @ map (\<lambda>i. fork_ret (os i)) [k..<j] \<and>
    running_pids (clients L') = []"
  using assms
proof (induction n arbitrary: k L)
  case (Suc n)
  show ?case
  proof (cases "k = j")
    case True
    moreover have "fork_ret (os k) = - 1 \<or> 0 < fork_ret (os k)" using Suc.prems(6) by (auto simp: fresh_pids_def)
    ultimately show ?thesis
      using fork_failure [OF Suc.prems(1), of os k "Some b" name u base] Suc.prems(5) by simp
  next
    case False
    let ?L = "one_forked (os k) (word_of_int (base + int k)) name L"
    have k: "succeeds (os k)" using False Suc.prems(2,4) by simp
    note fresh = fresh_pids_step [OF Suc.prems(6) k]
    note one = one_forked_ok [OF Suc.prems(1) k fresh(2), of "word_of_int (base + int k)" name]
    have "fork_clients os (Some b) name u base (Suc n) k L = fork_clients os (Some b) name u base n (k + 1) ?L"
      using Suc.prems k by (intro fork_step) auto
    moreover have "[k..<j] = k # [k + 1..<j]" using False Suc.prems(2) by (simp add: upt_conv_Cons)
    moreover have "num_ns ?L = num_ns L" by (simp add: one_forked_def)
    ultimately show ?thesis
      using Suc.IH [of ?L "k + 1"] one fresh(1) Suc.prems False by (simp add: one(2,3))
  qed
qed simp

section \<open>The maps of a run with two servers\<close>

lemma joined_eq: "joined v d = Some (join_with d (strings v))"
  by (simp add: joined_def pmix_argv_join_eq)

definition ranks_text :: "nat \<Rightarrow> nat \<Rightarrow> string" where
  "ranks_text a b = join_with CHR '','' (map (\<lambda>r. decimal (int r)) [a..<b])"

lemma fill_ranks_text:
  assumes "0 < k" "11 * int (a + k) \<le> int_max"
  shows "fill_seq_ranks_array k (int a) = Some (Some (ranks_text a (a + k)))"
proof -
  have "map (\<lambda>i. decimal (int a + int i)) [0..<k] = map (\<lambda>r. decimal (int r)) [a..<a + k]"
    by (rule nth_equalityI) auto
  then show ?thesis
    using fill_seq_ranks [of k "int a"] assms by (simp add: ranks_text_def int_max_def)
qed

lemma proc_map_two:
  "proc_map_text 0 2 (int a) (int (a + b)) 0 (ranks_text 0 a) = Some (join_with CHR '';'' [ranks_text 0 a, ranks_text a (a + b)])"
  "proc_map_text 1 2 (int b) (int (a + b)) (int a) (ranks_text a (a + b)) =
    Some (join_with CHR '';'' [ranks_text 0 a, ranks_text a (a + b)])"
  using upto_ints [of a "a + b"] upto_ints [of 0 a]
  by (simp_all add: proc_map_text_def joined_eq push_all push_simp prepend_nosize_Nil ranks_text_def o_def Let_def
      del: upt_Suc)

lemma ranks_text_fields:
  "a < b \<Longrightarrow> Argv.fields CHR '','' (ranks_text a b) = map (\<lambda>r. decimal (int r)) [a..<b]"
  unfolding ranks_text_def
  by (rule fields_join) (auto dest!: decimal_chars simp: is_digit_char_def)

lemma ranks_text_free: "CHR '';'' \<notin> set (ranks_text a b)"
proof -
  have "set (join_with d xs) \<subseteq> insert d (\<Union> (set ` set xs))" for d xs
    by (induction d xs rule: join_with.induct) auto
  then show ?thesis
    unfolding ranks_text_def by (fastforce dest: decimal_chars simp: is_digit_char_def)
qed

section \<open>Properties\<close>

text \<open>Rank \<open>r\<close> is in the interval of server \<open>i\<close>, in the arithmetic of the code.\<close>

definition runs_rank :: "nat \<Rightarrow> nat \<Rightarrow> nat \<Rightarrow> nat \<Rightarrow> bool" where
  "runs_rank n s i r \<longleftrightarrow> first_rank (word_of_nat n) (word_of_nat s) i \<le> int r \<and>
     int r < first_rank (word_of_nat n) (word_of_nat s) i + uint (share (word_of_nat n) (word_of_nat s) i)"

text \<open>
  C13: The processes of a run are divided over the servers without gap or overlap, and the
  division reaches every server: each server's entry for the namespace can be packed, and a
  server that unpacks the buffers of all of them, in any order, finds for each rank the one server
  whose interval of ranks has it.
\<close>

theorem every_rank_finds_its_server:
  assumes "int s \<le> int_max" "int n \<le> int_max" "name_ok K name"
  shows "\<exists>item buf.
    (\<forall>i < s. new_nspace (int i) name (unat (share (word_of_nat n) (word_of_nat s) i)) n
        (first_rank (word_of_nat n) (word_of_nat s) i) = Some (item i) \<and>
      (\<exists>k. server_pack_procs K (int i) [item i] [] = Some (k, buf i))) \<and>
    (\<forall>ids j. set ids = {..<s} \<and> j < s \<longrightarrow>
      (\<exists>nss. server_unpack_procs K (concat (map buf ids)) [item j] = Some nss \<and>
        (\<forall>r < n. \<exists>k < s. server_find_id nss name (int r) = Some (int k) \<and>
          (\<forall>i < s. runs_rank n s i r \<longleftrightarrow> i = k))))"
proof (intro exI [of _ "launched_item n s name"]
    exI [of _ "\<lambda>i. contribution K (int i, [launched_item n s name i])"] conjI allI impI)
  fix ids j assume ids: "set ids = {..<s} \<and> j < s"
  have find: "\<exists>k < s. (start_of n s k \<le> r \<and> r < start_of n s (Suc k)) \<and>
      (\<forall>i < s. runs_rank n s i r \<longleftrightarrow> i = k)"
    if r: "r < n" for r
  proof -
    obtain k where k: "k < s" "start_of n s k \<le> r" "r < start_of n s (Suc k)"
      using owner_exists [of r n s s] r start_all [of s n] ids by auto
    have "runs_rank n s i r \<longleftrightarrow>
        start_of n s i \<le> r \<and> r < start_of n s (Suc i)" if "i < s" for i
      using division_words [OF assms(2,1) that] by (auto simp: runs_rank_def uint_nat start_Suc)
    then show ?thesis using k in_share [OF k(2,3)] by blast
  qed
  obtain nss where "server_unpack_procs K (concat (map (\<lambda>i. contribution K (int i, [launched_item n s name i])) ids))
        [launched_item n s name j] = Some nss"
    "\<forall>r < n. \<forall>k < s. start_of n s k \<le> r \<and> r < start_of n s (Suc k) \<longrightarrow> server_find_id nss name (int r) = Some (int k)"
    using launched_exchange [OF assms(2,1,3)] ids by blast
  then show "\<exists>nss. server_unpack_procs K (concat (map (\<lambda>i. contribution K (int i, [launched_item n s name i])) ids))
        [launched_item n s name j] = Some nss \<and>
      (\<forall>r < n. \<exists>k < s. server_find_id nss name (int r) = Some (int k) \<and>
        (\<forall>i < s. runs_rank n s i r \<longleftrightarrow> i = k))"
    using find by meson
qed (use launched_packs [OF assms(2,1) _ assms(3)] in auto)

theorem every_rank_finds_its_server_witness:
  "\<exists>item buf nss. server_unpack_procs tiny_consts (buf (1 :: nat) @ buf 0) [item 0] = Some nss \<and>
    new_nspace 0 ''a'' 2 3 0 = Some (item (0 :: nat)) \<and> new_nspace 1 ''a'' 1 3 2 = Some (item 1) \<and>
    server_find_id nss ''a'' 1 = Some 0 \<and> server_find_id nss ''a'' 2 = Some 1"
proof -
  have ok: "int 2 \<le> int_max" "int 3 \<le> int_max" "name_ok tiny_consts ''a''"
    by (simp_all add: int_max_def name_ok_def tiny_consts_def)
  have v: "first_rank (word_of_nat 3) (word_of_nat 2) 0 = 0" "first_rank (word_of_nat 3) (word_of_nat 2) 1 = 2"
    "unat (share (word_of_nat 3) (word_of_nat 2) 0) = 2" "unat (share (word_of_nat 3) (word_of_nat 2) 1) = 1"
    by code_simp+
  have w: "runs_rank 3 2 0 1" "runs_rank 3 2 1 2" by code_simp+
  have ids: "set [1, 0 :: nat] = {..<2} \<and> (0 :: nat) < 2" by auto
  from every_rank_finds_its_server [OF ok] show ?thesis
  proof (elim exE conjE, goal_cases)
    case (1 item buf)
    from 1(2) [rule_format, OF ids] obtain nss where
      nss: "server_unpack_procs tiny_consts (concat (map buf [1, 0])) [item 0] = Some nss"
      and find: "\<forall>r < 3. \<exists>k < 2. server_find_id nss ''a'' (int r) = Some (int k) \<and> (\<forall>i < 2. runs_rank 3 2 i r \<longleftrightarrow> i = k)"
      by blast
    have a: "server_find_id nss ''a'' (int r) = Some (int i)" if "r < 3" "i < 2" "runs_rank 3 2 i r" for r i
      using find [rule_format, OF that(1)] that(2,3) by auto
    have "server_find_id nss ''a'' 1 = Some 0" "server_find_id nss ''a'' 2 = Some 1"
      using a [OF _ _ w(1)] a [OF _ _ w(2)] by simp_all
    then show ?case
      using nss 1(1) [rule_format, of 0] 1(1) [rule_format, of 1] v by auto
  qed
qed

text \<open>
  C24: Launching a namespace is all or nothing. When the library and \<open>fork\<close> answer well for every
  client, exactly these clients are added to the running ones and counted; when one of them fails,
  every client that runs (of this namespace or an earlier one) is sent SIGKILL in the order of the
  launches, none is left running, and the count is 0 or the error.
\<close>

theorem launch_all_or_nothing:
  assumes "set_namespace E (my_server_id (host L)) servers (int n) u base = Some info"
    "new_nspace (my_server_id (host L)) (ns_name K (num_ns L)) n (nat u) base = Some item"
    "server_send_procs K ((host L)\<lparr>server_nspaces := server_nspaces (host L) @ [item]\<rparr>) = Some (s, es)"
    "room_for n L" "fresh_pids os 0 n (running_pids (clients L))"
    "0 \<le> base \<and> base + int n \<le> 1000000000" "0 \<le> u \<and> u < 1000000000" "0 \<le> num_ns L \<and> num_ns L < 1000000000"
  shows "\<exists>r L'. server_launch_clients K E os await servers (Some b) (int n) u base L = Some (Parent r L') \<and>
    ((\<forall>i < n. succeeds (os i)) \<longrightarrow> r = Count n \<and> table_ok (clients L') \<and> num_ns L' = num_ns L + 1 \<and>
      running_pids (clients L') = running_pids (clients L) @ map (\<lambda>i. fork_ret (os i)) [0..<n] \<and>
      killed (clients L') = killed (clients L)) \<and>
    (\<forall>j < n. \<not> succeeds (os j) \<and> (\<forall>i < j. succeeds (os i)) \<longrightarrow>
      (r = Count 0 \<or> r = Status (setup_rc (os j)) \<and> setup_rc (os j) \<noteq> PMIX_SUCCESS) \<and>
      killed (clients L') = killed (clients L) @ running_pids (clients L) @ map (\<lambda>i. fork_ret (os i)) [0..<j] \<and>
      running_pids (clients L') = [])"
proof -
  let ?L = "L\<lparr>host := await s, messages := messages L @ es,
    jobs := jobs L @ (case info of None \<Rightarrow> [] | Some i \<Rightarrow> [(ns_name K (num_ns L), i)])\<rparr>"
  have go: "server_launch_clients K E os await servers (Some b) (int n) u base L =
      fork_clients os (Some b) (ns_name K (num_ns L)) u base n 0 ?L"
    using assms(1-3) by (simp add: server_launch_clients_def Let_def)
  have L: "room_for n ?L" "fresh_pids os 0 (0 + n) (running_pids (clients ?L))"
    using assms(4,5) by (simp_all add: room_for_def)
  show ?thesis
  proof (cases "\<forall>i < n. succeeds (os i)")
    case True
    then show ?thesis
      using launch_all_succeed [OF L(1) _ L(2), of base u b] assms(6-8) go by auto
  next
    case False
    then obtain j where j: "j < n" "\<not> succeeds (os j)" "\<forall>i < j. succeeds (os i)"
      using exists_least_iff [of "\<lambda>i. i < n \<and> \<not> succeeds (os i)"] by (meson less_trans)
    obtain r L' where "fork_clients os (Some b) (ns_name K (num_ns L)) u base n 0 ?L = Some (Parent r L') \<and>
        (r = Count 0 \<or> r = Status (setup_rc (os j)) \<and> setup_rc (os j) \<noteq> PMIX_SUCCESS) \<and>
        killed (clients L') = killed (clients L) @ running_pids (clients L) @ map (\<lambda>i. fork_ret (os i)) [0..<j] \<and>
        running_pids (clients L') = []"
      using launch_failure [OF L(1) _ _ _ j(2) L(2), of base u b "ns_name K (num_ns L)"] j(1,3) assms(6-8) by auto
    moreover have "i = j" if "\<not> succeeds (os i) \<and> (\<forall>k < i. succeeds (os k))" for i
      using that j(2,3) by (meson linorder_neqE_nat)
    ultimately show ?thesis using False by (intro exI [of _ r] exI [of _ L']) (simp only: go, blast)
  qed
qed

definition plain_env :: job_env where
  "plain_env = \<lparr>gen_regex = (\<lambda>s. (PMIX_SUCCESS, s)), gen_ppn = (\<lambda>s. s), own_pid = 7\<rparr>"

definition sample_launcher :: "nat launcher" where
  "sample_launcher = \<lparr>host = init_server 1 0,
     clients = cli_init 2 \<lparr>cli_info = [], test_abort = False, closed_sds = [], freed_evs = [], killed = []\<rparr>,
     cli_counter = 0, num_ns = 0, jobs = [], messages = []\<rparr>"

definition second_fork_fails :: "nat \<Rightarrow> os_answer" where
  "second_fork_fails i = \<lparr>register_rc = PMIX_SUCCESS, setup_rc = PMIX_SUCCESS, fork_ret = (if i = 0 then 100 else - 1)\<rparr>"

theorem launch_all_or_nothing_witness:
  "\<exists>r L'. server_launch_clients tiny_consts plain_env second_fork_fails (\<lambda>s. s) 1 (Some [''client'']) 2 2 0
      sample_launcher = Some (Parent r L') \<and> killed (clients L') = [100] \<and> running_pids (clients L') = []"
proof -
  let ?s = "host sample_launcher"
  obtain info where info: "set_namespace plain_env (my_server_id ?s) 1 (int 2) 2 0 = Some info"
    by (cases "set_namespace plain_env (my_server_id ?s) 1 (int 2) 2 0") (simp, code_simp)
  have item: "new_nspace (my_server_id ?s) (ns_name tiny_consts (num_ns sample_launcher)) 2 (nat 2) 0 =
      Some \<lparr>nsname = ''s'', ntasks = 2, ltasks = 2, task_map = [0, 0]\<rparr>" by code_simp
  obtain s es where send: "server_send_procs tiny_consts (?s\<lparr>server_nspaces := server_nspaces ?s @
      [\<lparr>nsname = ''s'', ntasks = 2, ltasks = 2, task_map = [0, 0]\<rparr>]\<rparr>) = Some (s, es)"
    by (cases "server_send_procs tiny_consts (?s\<lparr>server_nspaces := server_nspaces ?s @
      [\<lparr>nsname = ''s'', ntasks = 2, ltasks = 2, task_map = [0, 0]\<rparr>]\<rparr>)") (code_simp, auto)
  have room: "room_for 2 sample_launcher"
    by (simp add: room_for_def sample_launcher_def cli_init_def table_ok_def client_ok_def idle_def running_def
        numeral_2_eq_2)
  have fresh: "fresh_pids second_fork_fails 0 2 (running_pids (clients sample_launcher))"
    by (auto simp: fresh_pids_def second_fork_fails_def running_pids_def sample_launcher_def cli_init_def running_def)
  have "0 \<le> (0 :: int) \<and> 0 + int 2 \<le> 1000000000" "0 \<le> (2 :: int) \<and> (2 :: int) < 1000000000"
    "0 \<le> num_ns sample_launcher \<and> num_ns sample_launcher < 1000000000"
    by (simp_all add: sample_launcher_def)
  from launch_all_or_nothing [OF info item send room fresh this, of "\<lambda>s. s" "[''client'']"]
  obtain r L' where L: "server_launch_clients tiny_consts plain_env second_fork_fails (\<lambda>s. s) 1 (Some [''client'']) (int 2) 2 0
      sample_launcher = Some (Parent r L')"
    and fails: "\<forall>j < 2. \<not> succeeds (second_fork_fails j) \<and> (\<forall>i < j. succeeds (second_fork_fails i)) \<longrightarrow>
      killed (clients L') = killed (clients sample_launcher) @ running_pids (clients sample_launcher) @
        map (\<lambda>i. fork_ret (second_fork_fails i)) [0..<j] \<and> running_pids (clients L') = []"
    by blast
  have "\<not> succeeds (second_fork_fails 1) \<and> (\<forall>i < 1. succeeds (second_fork_fails i))"
    by (simp add: succeeds_def second_fork_fails_def)
  moreover have "killed (clients sample_launcher) = []" "running_pids (clients sample_launcher) = []"
    by (simp_all add: sample_launcher_def running_pids_def cli_init_def running_def)
  ultimately have "killed (clients L') = [100] \<and> running_pids (clients L') = []"
    using fails [rule_format, of 1] by (simp add: second_fork_fails_def)
  then show ?thesis using L by auto
qed

text \<open>
  In a run with two servers both register the same maps with their libraries: the nodes
  node0 and node1, and for these the ranks 0 to a-1 and a to a+b-1.
\<close>

lemma two_servers_same_maps:
  assumes "0 < a" "0 < b" "11 * int (a + b) \<le> int_max" "fst (gen_regex E ''node0,node1'') = PMIX_SUCCESS"
  shows "\<exists>i0 i1 t. set_namespace E 0 2 (int a) (int (a + b)) 0 = Some (Some i0) \<and>
    set_namespace E 1 2 (int b) (int (a + b)) (int a) = Some (Some i1) \<and>
    i0 ! 4 = Some (PMIX_NODE_MAP, Regex_text (snd (gen_regex E ''node0,node1''))) \<and> i1 ! 4 = i0 ! 4 \<and>
    i0 ! 5 = Some (PMIX_PROC_MAP, Regex_text (gen_ppn E t)) \<and> i1 ! 5 = i0 ! 5 \<and>
    map (Argv.fields CHR '','') (Argv.fields CHR '';'' t) =
      [map (\<lambda>r. decimal (int r)) [0..<a], map (\<lambda>r. decimal (int r)) [a..<a + b]]"
proof -
  have nodes: "node_names sid 2 = Some [''node0'', ''node1'']" for sid
  proof -
    have "[0..1 :: int] = [0, 1]" "decimal 0 = ''0''" "decimal 1 = ''1''" by code_simp+
    then show ?thesis by (simp add: node_names_def push_simp node_name_def)
  qed
  have fill: "fill_seq_ranks_array a 0 = Some (Some (ranks_text 0 a))"
    "fill_seq_ranks_array b (int a) = Some (Some (ranks_text a (a + b)))"
    using fill_ranks_text [of a 0] fill_ranks_text [of b a] assms by simp_all
  have "map (Argv.fields CHR '','') (Argv.fields CHR '';'' (join_with CHR '';'' [ranks_text 0 a, ranks_text a (a + b)])) =
      [map (\<lambda>r. decimal (int r)) [0..<a], map (\<lambda>r. decimal (int r)) [a..<a + b]]"
    using assms(1,2) by (subst fields_join) (auto simp: ranks_text_free ranks_text_fields simp del: upt_Suc)
  moreover have "join_with CHR '','' [''node0'', ''node1''] = ''node0,node1''" by simp
  ultimately show ?thesis
    using assms(4) by (auto simp: set_namespace_def nodes joined_eq fill proc_map_two simp del: of_nat_add upt_Suc
        intro!: exI [of _ "ranks_text 0 a @ CHR '';'' # ranks_text a (a + b)"])
qed

end
