(* ===== verification/ProgressThreads.thy ===== *)
theory ProgressThreads
  imports Prelude "HOL-Library.Monad_Syntax" "HOL-Library.Multiset"
begin

text \<open>
  The named, reference-counted progress threads of src/unit/unit_progress_threads.c, with the thread
  objects of src/unit/test_common.c. The list \<open>tracking\<close> is a HOL list: the theorems of UnitList
  show that appending to it, iterating over it and removing from it are these list operations.
  Threads and event bases are numbers; what the system answers to a request for one is a
  parameter. The result \<open>None\<close> is a failed \<open>assert\<close>, the overflow of the reference count, a
  \<open>pmix_event_del\<close> of an event that was never assigned, or a \<open>pthread_join\<close> of a handle that is no
  running thread.
\<close>

section \<open>State\<close>

text \<open>\<open>t_handle\<close>: \<open>(pthread_t) -1\<close>, a thread, or what a failed \<open>pthread_create\<close> left in it.\<close>

datatype handle = No_thread | Thread nat | Undefined_handle

record pmix_thread =
  t_run :: bool                           \<comment> \<open>the function is set\<close>
  t_handle :: handle

record tracker =
  trk_refcount :: int
  trk_name :: "string option"
  ev_base :: "nat option"
  ev_active :: bool
  block_assigned :: bool                  \<comment> \<open>\<open>pmix_event_assign\<close> initialized \<open>block\<close>\<close>
  engine :: "pmix_thread option"          \<comment> \<open>\<open>None\<close>: not \<open>engine_constructed\<close>\<close>

record progress =
  inited :: bool
  tracking :: "tracker list"
  live_threads :: "nat list"
  live_bases :: "nat list"

definition shared_thread_name :: string where
  "shared_thread_name = ''PMIX-wide async progress thread''"

definition pmix_thread_construct :: pmix_thread where
  "pmix_thread_construct = \<lparr>t_run = False, t_handle = No_thread\<rparr>"

definition tracker_constructor :: tracker where
  "tracker_constructor = \<lparr>trk_refcount = 1, trk_name = None, ev_base = None, ev_active = False,
     block_assigned = False, engine = None\<rparr>"

section \<open>Threads\<close>

text \<open>\<open>answer\<close> is the new thread, or \<open>None\<close> when \<open>pthread_create\<close> fails.\<close>

definition pmix_thread_start :: "nat option \<Rightarrow> pmix_thread \<Rightarrow> progress \<Rightarrow> pmix_status \<times> pmix_thread \<times> progress" where
  "pmix_thread_start answer t s =
     (if \<not> t_run t \<or> t_handle t \<noteq> No_thread then (PMIX_ERR_BAD_PARAM, t, s)
      else (case answer of
          Some h \<Rightarrow> (PMIX_SUCCESS, t\<lparr>t_handle := Thread h\<rparr>, s\<lparr>live_threads := live_threads s @ [h]\<rparr>)
        | None \<Rightarrow> (PMIX_ERROR, t\<lparr>t_handle := Undefined_handle\<rparr>, s)))"

definition pmix_thread_join :: "pmix_thread \<Rightarrow> progress \<Rightarrow> (pmix_thread \<times> progress) option" where
  "pmix_thread_join t s =
     (case t_handle t of
        Thread h \<Rightarrow> (if h \<in> set (live_threads s)
          then Some (t\<lparr>t_handle := No_thread\<rparr>, s\<lparr>live_threads := remove1 h (live_threads s)\<rparr>) else None)
      | _ \<Rightarrow> None)"

text \<open>
  The thread runs its event loop until \<open>ev_active\<close> is cleared, so that \<open>pthread_join\<close> returns.
\<close>

definition stop_progress_engine :: "tracker \<Rightarrow> progress \<Rightarrow> (tracker \<times> progress) option" where
  "stop_progress_engine trk s =
     (if \<not> ev_active trk then None
      else (case engine trk of
          None \<Rightarrow> None
        | Some t \<Rightarrow> do { (t, s) \<leftarrow> pmix_thread_join t s;
                         Some (trk\<lparr>ev_active := False, engine := Some t\<rparr>, s) }))"

definition start_progress_engine ::
  "nat option \<Rightarrow> tracker \<Rightarrow> progress \<Rightarrow> (pmix_status \<times> tracker \<times> progress) option" where
  "start_progress_engine answer trk s =
     (if ev_active trk then None
      else (case engine trk of
          None \<Rightarrow> None
        | Some t \<Rightarrow> (case pmix_thread_start answer (t\<lparr>t_run := True\<rparr>) s of
            (rc, t, s) \<Rightarrow> Some (rc, trk\<lparr>ev_active := True, engine := Some t\<rparr>, s))))"

text \<open>\<open>PMIX_RELEASE\<close> of a tracker, whose object count is always 1: its destructor.\<close>

definition tracker_destructor :: "tracker \<Rightarrow> progress \<Rightarrow> progress option" where
  "tracker_destructor trk s =
     (if \<not> block_assigned trk then None
      else Some (case ev_base trk of None \<Rightarrow> s | Some b \<Rightarrow> s\<lparr>live_bases := remove1 b (live_bases s)\<rparr>))"

section \<open>Operations\<close>

fun find_tracker :: "string \<Rightarrow> tracker list \<Rightarrow> nat option" where
  "find_tracker name [] = None"
| "find_tracker name (t # ts) =
     (if trk_name t = Some name then Some 0 else map_option Suc (find_tracker name ts))"

definition name_or_shared :: "string option \<Rightarrow> string" where
  "name_or_shared name = (case name of None \<Rightarrow> shared_thread_name | Some n \<Rightarrow> n)"

definition set_tracker :: "nat \<Rightarrow> tracker \<Rightarrow> progress \<Rightarrow> progress" where
  "set_tracker i trk s = s\<lparr>tracking := (tracking s)[i := trk]\<rparr>"

text \<open>What the system answers: \<open>malloc\<close>, \<open>strdup\<close>, the event library and \<open>pthread_create\<close>.\<close>

record answers =
  new_ok :: bool
  strdup_ok :: bool
  base_answer :: "nat option"
  thread_answer :: "nat option"

definition new_tracker :: "answers \<Rightarrow> string \<Rightarrow> progress \<Rightarrow> (nat option \<times> progress) option" where
  "new_tracker a name s =
     (let trk = tracker_constructor
      in if \<not> new_ok a then Some (None, s)
         else if \<not> strdup_ok a then do { s \<leftarrow> tracker_destructor trk s; Some (None, s) }
         else (let trk = trk\<lparr>trk_name := Some name, ev_base := base_answer a\<rparr>
           in case base_answer a of
                None \<Rightarrow> do { s \<leftarrow> tracker_destructor trk s; Some (None, s) }
              | Some b \<Rightarrow>
                  do { let s = s\<lparr>live_bases := live_bases s @ [b]\<rparr>;
                       let trk = trk\<lparr>block_assigned := True, engine := Some pmix_thread_construct\<rparr>;
                       (rc, trk, s) \<leftarrow> start_progress_engine (thread_answer a) trk s;
                       if rc \<noteq> PMIX_SUCCESS then do { s \<leftarrow> tracker_destructor trk s; Some (None, s) }
                       else Some (Some b, s\<lparr>tracking := tracking s @ [trk]\<rparr>) }))"

definition unit_progress_thread_init ::
  "answers \<Rightarrow> string option \<Rightarrow> progress \<Rightarrow> (nat option \<times> progress) option" where
  "unit_progress_thread_init a name s =
     (let s = (if inited s then s else s\<lparr>inited := True, tracking := []\<rparr>); name = name_or_shared name
      in case find_tracker name (tracking s) of
           Some i \<Rightarrow>
             (let trk = tracking s ! i
              in if trk_refcount trk = int_max then None
                 else Some (ev_base trk, set_tracker i (trk\<lparr>trk_refcount := trk_refcount trk + 1\<rparr>) s))
         | None \<Rightarrow> new_tracker a name s)"

definition remove_at :: "nat \<Rightarrow> 'a list \<Rightarrow> 'a list" where
  "remove_at i xs = take i xs @ drop (Suc i) xs"

definition unit_progress_thread_stop :: "string option \<Rightarrow> progress \<Rightarrow> (pmix_status \<times> progress) option" where
  "unit_progress_thread_stop name s =
     (if \<not> inited s then Some (PMIX_ERR_NOT_FOUND, s)
      else (case find_tracker (name_or_shared name) (tracking s) of
          None \<Rightarrow> Some (PMIX_ERR_NOT_FOUND, s)
        | Some i \<Rightarrow>
            (let trk = (tracking s ! i)\<lparr>trk_refcount := trk_refcount (tracking s ! i) - 1\<rparr>
             in if 0 < trk_refcount trk then Some (PMIX_SUCCESS, set_tracker i trk s)
                else do {
                  (trk, s) \<leftarrow> (if ev_active trk then stop_progress_engine trk s else Some (trk, s));
                  s \<leftarrow> tracker_destructor trk (s\<lparr>tracking := remove_at i (tracking s)\<rparr>);
                  Some (PMIX_SUCCESS, s) })))"

definition unit_progress_thread_finalize :: "string option \<Rightarrow> progress \<Rightarrow> (pmix_status \<times> progress) option" where
  "unit_progress_thread_finalize name s =
     (if \<not> inited s then Some (PMIX_ERR_NOT_FOUND, s)
      else (case find_tracker (name_or_shared name) (tracking s) of
          None \<Rightarrow> Some (PMIX_ERR_NOT_FOUND, s)
        | Some i \<Rightarrow>
            (if 0 < trk_refcount (tracking s ! i) then Some (PMIX_SUCCESS, s)
             else do {
               s \<leftarrow> tracker_destructor (tracking s ! i) (s\<lparr>tracking := remove_at i (tracking s)\<rparr>);
               Some (PMIX_SUCCESS, s) })))"

definition unit_progress_thread_pause :: "string option \<Rightarrow> progress \<Rightarrow> (pmix_status \<times> progress) option" where
  "unit_progress_thread_pause name s =
     (if \<not> inited s then Some (PMIX_ERR_NOT_FOUND, s)
      else (case find_tracker (name_or_shared name) (tracking s) of
          None \<Rightarrow> Some (PMIX_ERR_NOT_FOUND, s)
        | Some i \<Rightarrow>
            (if ev_active (tracking s ! i)
             then do { (trk, s) \<leftarrow> stop_progress_engine (tracking s ! i) s; Some (PMIX_SUCCESS, set_tracker i trk s) }
             else Some (PMIX_SUCCESS, s))))"

definition unit_progress_thread_resume ::
  "nat option \<Rightarrow> string option \<Rightarrow> progress \<Rightarrow> (pmix_status \<times> progress) option" where
  "unit_progress_thread_resume answer name s =
     (if \<not> inited s then Some (PMIX_ERR_NOT_FOUND, s)
      else (case find_tracker (name_or_shared name) (tracking s) of
          None \<Rightarrow> Some (PMIX_ERR_NOT_FOUND, s)
        | Some i \<Rightarrow>
            (if ev_active (tracking s ! i) then Some (PMIX_ERR_RESOURCE_BUSY, s)
             else do { (rc, trk, s) \<leftarrow> start_progress_engine answer (tracking s ! i) s;
                       Some (rc, set_tracker i trk s) })))"

section \<open>The invariant\<close>

text \<open>
  A tracker in the list is complete and has a positive count, and its thread runs exactly while
  \<open>ev_active\<close> is set. The live threads and bases are those of the trackers, so none is leaked.
\<close>

definition handles :: "tracker \<Rightarrow> nat list" where
  "handles trk = (case engine trk of None \<Rightarrow> [] | Some t \<Rightarrow> (case t_handle t of Thread h \<Rightarrow> [h] | _ \<Rightarrow> []))"

definition bases :: "tracker \<Rightarrow> nat list" where
  "bases trk = (case ev_base trk of None \<Rightarrow> [] | Some b \<Rightarrow> [b])"

definition tracker_ok :: "tracker \<Rightarrow> bool" where
  "tracker_ok trk \<longleftrightarrow> 1 \<le> trk_refcount trk \<and> trk_name trk \<noteq> None \<and> ev_base trk \<noteq> None \<and> block_assigned trk \<and>
     (\<exists>t. engine trk = Some t \<and> t_handle t \<noteq> Undefined_handle \<and> (ev_active trk \<longleftrightarrow> t_handle t \<noteq> No_thread))"

definition progress_ok :: "progress \<Rightarrow> bool" where
  "progress_ok s \<longleftrightarrow> list_all tracker_ok (tracking s) \<and> distinct (map trk_name (tracking s)) \<and>
     mset (live_threads s) = mset (concat (map handles (tracking s))) \<and>
     mset (live_bases s) = mset (concat (map bases (tracking s))) \<and> (inited s \<or> tracking s = [])"

definition count_of :: "progress \<Rightarrow> string \<Rightarrow> int" where
  "count_of s n = (case find_tracker n (tracking s) of None \<Rightarrow> 0 | Some i \<Rightarrow> trk_refcount (tracking s ! i))"

lemma find_tracker_Some:
  "find_tracker n ts = Some i \<Longrightarrow> i < length ts \<and> trk_name (ts ! i) = Some n"
  by (induction ts arbitrary: i) (auto split: if_splits)

lemma find_tracker_None: "find_tracker n ts = None \<longleftrightarrow> Some n \<notin> trk_name ` set ts"
  by (induction ts) auto

lemma find_tracker_append:
  "find_tracker n (xs @ ys) = (case find_tracker n xs of Some i \<Rightarrow> Some i
     | None \<Rightarrow> map_option (\<lambda>i. length xs + i) (find_tracker n ys))"
  by (cases "find_tracker n ys"; induction xs) (auto split: option.splits)

text \<open>The list around the tracker an operation works on.\<close>

lemma at_tracker:
  assumes "find_tracker n (tracking s) = Some i"
  obtains xs trk ys where "tracking s = xs @ trk # ys" "i = length xs" "trk_name trk = Some n" "tracking s ! i = trk"
    "\<And>t. (tracking s)[i := t] = xs @ t # ys" "remove_at i (tracking s) = xs @ ys"
proof
  have i: "i < length (tracking s)" "trk_name (tracking s ! i) = Some n" using find_tracker_Some assms by blast+
  show "tracking s = take i (tracking s) @ tracking s ! i # drop (Suc i) (tracking s)"
    using i by (simp add: id_take_nth_drop)
  show "i = length (take i (tracking s))" "trk_name (tracking s ! i) = Some n" using i by simp_all
  show "(tracking s)[i := t] = take i (tracking s) @ t # drop (Suc i) (tracking s)" for t
    using i by (simp add: upd_conv_take_nth_drop)
qed (simp_all add: remove_at_def)

lemma count_of_middle:
  assumes "tracking s = xs @ trk # ys" "distinct (map trk_name (xs @ trk # ys))" "trk_name trk = Some n"
  shows "count_of s m = (if m = n then trk_refcount trk else
    (case find_tracker m (xs @ ys) of None \<Rightarrow> 0 | Some i \<Rightarrow> trk_refcount ((xs @ ys) ! i)))"
proof (cases "m = n")
  case True
  then have "find_tracker m xs = None" using assms(2,3) by (auto simp: find_tracker_None)
  then show ?thesis using True assms(1,3) by (simp add: count_of_def find_tracker_append)
next
  case False
  then show ?thesis
    using assms(1,3) by (auto simp: count_of_def find_tracker_append nth_append dest: find_tracker_Some split: option.splits)
qed

lemma tracker_ok_stop:
  assumes "tracker_ok trk" "mset (live_threads s) = mset (handles trk) + A" "ev_active trk"
  shows "\<exists>trk' s'. stop_progress_engine trk s = Some (trk', s') \<and> tracker_ok trk' \<and> handles trk' = [] \<and>
    bases trk' = bases trk \<and> trk_name trk' = trk_name trk \<and> trk_refcount trk' = trk_refcount trk \<and>
    \<not> ev_active trk' \<and> mset (live_threads s') = A \<and> tracking s' = tracking s \<and> live_bases s' = live_bases s \<and>
    inited s' = inited s"
proof -
  obtain t where t: "engine trk = Some t" "t_handle t \<noteq> Undefined_handle" "t_handle t \<noteq> No_thread"
    using assms(1,3) by (auto simp: tracker_ok_def)
  then obtain h where h: "t_handle t = Thread h" by (cases "t_handle t") auto
  then have hs: "handles trk = [h]" using t(1) by (cases t) (simp add: handles_def)
  then have live: "h \<in> set (live_threads s)" "mset (remove1 h (live_threads s)) = A"
    using assms(2) by (simp_all flip: set_mset_mset)
  have j: "pmix_thread_join t s = Some (t\<lparr>t_handle := No_thread\<rparr>, s\<lparr>live_threads := remove1 h (live_threads s)\<rparr>)"
    using h live(1) by (simp add: pmix_thread_join_def)
  have "stop_progress_engine trk s = Some (trk\<lparr>ev_active := False, engine := Some (t\<lparr>t_handle := No_thread\<rparr>)\<rparr>,
      s\<lparr>live_threads := remove1 h (live_threads s)\<rparr>)"
    using j t(1) assms(3) by (simp add: stop_progress_engine_def)
  moreover have "handles (trk\<lparr>ev_active := False, engine := Some (t\<lparr>t_handle := No_thread\<rparr>)\<rparr>) = []"
    by (cases t) (simp add: handles_def)
  ultimately show ?thesis using assms(1) live(2) by (auto simp: tracker_ok_def bases_def)
qed

lemma stop_refcount:
  "stop_progress_engine (trk\<lparr>trk_refcount := k\<rparr>) s =
    map_option (\<lambda>(t, s'). (t\<lparr>trk_refcount := k\<rparr>, s')) (stop_progress_engine trk s)"
  by (cases "engine trk"; cases "pmix_thread_join (the (engine trk)) s") (auto simp: stop_progress_engine_def)

lemma tracker_ok_start:
  assumes "1 \<le> trk_refcount trk" "trk_name trk \<noteq> None" "ev_base trk \<noteq> None" "block_assigned trk"
    "engine trk = Some t" "t_handle t = No_thread" "\<not> ev_active trk"
  shows "\<exists>trk' s'. start_progress_engine (Some h) trk s = Some (PMIX_SUCCESS, trk', s') \<and> tracker_ok trk' \<and>
    handles trk' = [h] \<and> bases trk' = bases trk \<and> trk_name trk' = trk_name trk \<and> trk_refcount trk' = trk_refcount trk \<and>
    live_threads s' = live_threads s @ [h] \<and> tracking s' = tracking s \<and> live_bases s' = live_bases s \<and>
    inited s' = inited s"
proof -
  have "start_progress_engine (Some h) trk s = Some (PMIX_SUCCESS,
      trk\<lparr>ev_active := True, engine := Some (t\<lparr>t_run := True, t_handle := Thread h\<rparr>)\<rparr>,
      s\<lparr>live_threads := live_threads s @ [h]\<rparr>)"
    using assms by (simp add: start_progress_engine_def pmix_thread_start_def)
  then show ?thesis using assms by (cases t) (auto simp: tracker_ok_def bases_def handles_def)
qed

section \<open>The operations keep it\<close>

definition all_granted :: "answers \<Rightarrow> bool" where
  "all_granted a \<longleftrightarrow> new_ok a \<and> strdup_ok a \<and> base_answer a \<noteq> None \<and> thread_answer a \<noteq> None"

lemma count_None: "find_tracker n (tracking s) = None \<Longrightarrow> count_of s n = 0"
  by (simp add: count_of_def)

lemma count_pos:
  assumes "progress_ok s" "find_tracker n (tracking s) = Some i"
  shows "1 \<le> count_of s n"
proof -
  have "tracker_ok (tracking s ! i)"
    using assms find_tracker_Some by (auto simp: progress_ok_def list_all_iff)
  then show ?thesis using assms(2) by (simp add: count_of_def tracker_ok_def)
qed

lemma progress_ok_middle:
  "tracking s = xs @ trk # ys \<Longrightarrow> progress_ok s \<longleftrightarrow> tracker_ok trk \<and> list_all tracker_ok (xs @ ys) \<and>
     distinct (map trk_name (xs @ trk # ys)) \<and>
     mset (live_threads s) = mset (handles trk) + mset (concat (map handles (xs @ ys))) \<and>
     mset (live_bases s) = mset (bases trk) + mset (concat (map bases (xs @ ys))) \<and> inited s"
  by (auto simp: progress_ok_def)

text \<open>Replacing a tracker by one of the same name and base, or taking it out.\<close>

lemma replaced_ok:
  assumes "progress_ok s" "tracking s = xs @ trk # ys" "tracker_ok trk'" "trk_name trk' = trk_name trk"
    "bases trk' = bases trk" "tracking s' = xs @ trk' # ys" "live_bases s' = live_bases s" "inited s' = inited s"
    "mset (live_threads s') = mset (handles trk') + mset (concat (map handles (xs @ ys)))"
  shows "progress_ok s'"
    and "trk_name trk = Some n \<Longrightarrow> count_of s' m = (if m = n then trk_refcount trk' else count_of s m)"
proof -
  show ok: "progress_ok s'"
    using assms(1) assms(3-) unfolding progress_ok_middle [OF assms(2)] progress_ok_middle [OF assms(6)] by auto
  assume n: "trk_name trk = Some n"
  have "distinct (map trk_name (xs @ trk # ys))" using assms(1) progress_ok_middle [OF assms(2)] by blast
  moreover have "distinct (map trk_name (xs @ trk' # ys))" using ok progress_ok_middle [OF assms(6)] by blast
  ultimately show "count_of s' m = (if m = n then trk_refcount trk' else count_of s m)"
    using count_of_middle [OF assms(2) _ n, of m] count_of_middle [OF assms(6), of n m] n assms(4) by auto
qed

lemma removed_ok:
  assumes "progress_ok s" "tracking s = xs @ trk # ys" "trk_name trk = Some n" "tracking s' = xs @ ys" "inited s'"
    "mset (live_threads s') = mset (concat (map handles (xs @ ys)))"
    "mset (live_bases s') = mset (concat (map bases (xs @ ys)))"
  shows "progress_ok s'" "count_of s' m = (if m = n then 0 else count_of s m)"
proof -
  have d: "distinct (map trk_name (xs @ trk # ys))" "list_all tracker_ok (xs @ ys)"
    using assms(1) progress_ok_middle [OF assms(2)] by blast+
  then show "progress_ok s'" using assms(4-) by (auto simp: progress_ok_def)
  have "find_tracker n (xs @ ys) = None" using d(1) assms(3) by (auto simp: find_tracker_None)
  then show "count_of s' m = (if m = n then 0 else count_of s m)"
    unfolding count_of_middle [OF assms(2) d(1) assms(3), of m] count_of_def [of s'] assms(4) by simp
qed

lemma init_ok:
  assumes "progress_ok s" "all_granted a" "count_of s (name_or_shared name) < int_max"
  shows "\<exists>b s'. unit_progress_thread_init a name s = Some (Some b, s') \<and> progress_ok s' \<and>
    (\<forall>m. count_of s' m = count_of s m + (if m = name_or_shared name then 1 else 0))"
proof -
  let ?n = "name_or_shared name"
  define s1 where "s1 = (if inited s then s else s\<lparr>inited := True, tracking := []\<rparr>)"
  have s1: "progress_ok s1" "tracking s1 = tracking s" "inited s1" "\<And>m. count_of s1 m = count_of s m"
    using assms(1) by (auto simp: s1_def progress_ok_def count_of_def)
  show ?thesis
  proof (cases "find_tracker ?n (tracking s1)")
    case (Some i)
    obtain xs trk ys where at: "tracking s1 = xs @ trk # ys" "trk_name trk = Some ?n" "tracking s1 ! i = trk"
      "\<And>t. (tracking s1)[i := t] = xs @ t # ys" using at_tracker [OF Some] by metis
    let ?t = "trk\<lparr>trk_refcount := trk_refcount trk + 1\<rparr>"
    have ok: "tracker_ok trk" and live: "mset (live_threads s1) = mset (handles trk) + mset (concat (map handles (xs @ ys)))"
      using s1(1) progress_ok_middle [OF at(1)] by blast+
    have c: "trk_refcount trk = count_of s ?n" unfolding s1(4) [symmetric] using Some at(3) by (simp add: count_of_def)
    have "unit_progress_thread_init a name s = Some (ev_base trk, set_tracker i ?t s1)"
      using Some assms(3) c at(3) by (simp add: unit_progress_thread_init_def Let_def flip: s1_def)
    moreover have "tracker_ok ?t" "handles ?t = handles trk" "bases ?t = bases trk"
      using ok by (auto simp: tracker_ok_def handles_def bases_def)
    moreover from this have "progress_ok (set_tracker i ?t s1)"
      "\<And>m. count_of (set_tracker i ?t s1) m = (if m = ?n then trk_refcount ?t else count_of s1 m)"
      using live at by (intro replaced_ok [OF s1(1) at(1), where trk' = ?t]; simp add: set_tracker_def)+
    moreover obtain b where "ev_base trk = Some b" using ok by (auto simp: tracker_ok_def)
    ultimately show ?thesis using s1(4) c by auto
  next
    case None
    obtain b h where ab: "base_answer a = Some b" "thread_answer a = Some h" "new_ok a" "strdup_ok a"
      using assms(2) by (auto simp: all_granted_def)
    let ?t0 = "\<lparr>trk_refcount = 1, trk_name = Some ?n, ev_base = Some b, ev_active = False, block_assigned = True,
      engine = Some pmix_thread_construct\<rparr>"
    let ?s2 = "s1\<lparr>live_bases := live_bases s1 @ [b]\<rparr>"
    obtain trk s3 where st: "start_progress_engine (Some h) ?t0 ?s2 = Some (PMIX_SUCCESS, trk, s3)" "tracker_ok trk"
      "handles trk = [h]" "bases trk = [b]" "trk_name trk = Some ?n" "trk_refcount trk = 1"
      "live_threads s3 = live_threads s1 @ [h]" "tracking s3 = tracking s1" "live_bases s3 = live_bases s1 @ [b]" "inited s3"
      using tracker_ok_start [of ?t0 pmix_thread_construct h ?s2] s1(3)
      by (auto simp: pmix_thread_construct_def bases_def)
    let ?s' = "s3\<lparr>tracking := tracking s1 @ [trk]\<rparr>"
    have "unit_progress_thread_init a name s = new_tracker a ?n s1"
      using None by (simp add: unit_progress_thread_init_def Let_def flip: s1_def)
    also have "\<dots> = Some (Some b, ?s')"
      using ab st(1,8) by (simp add: new_tracker_def tracker_constructor_def)
    finally have "unit_progress_thread_init a name s = Some (Some b, ?s')" .
    moreover have "progress_ok ?s'"
      using s1(1) st None by (auto simp: progress_ok_def find_tracker_None image_iff)
    moreover have "count_of ?s' m = count_of s m + (if m = ?n then 1 else 0)" for m
      using None st(5,6) s1(4) [of m, symmetric]
      by (auto simp: count_of_def find_tracker_append nth_append dest: find_tracker_Some split: option.splits)
    ultimately show ?thesis by auto
  qed
qed

lemma stop_ok:
  assumes "progress_ok s"
  shows "\<exists>s'. unit_progress_thread_stop name s =
      Some (if count_of s (name_or_shared name) = 0 then PMIX_ERR_NOT_FOUND else PMIX_SUCCESS, s') \<and> progress_ok s' \<and>
    (\<forall>m. count_of s' m = (if m = name_or_shared name then max 0 (count_of s m - 1) else count_of s m))"
proof (cases "find_tracker (name_or_shared name) (tracking s)")
  case None
  then show ?thesis using assms count_None [OF None] by (auto simp: unit_progress_thread_stop_def)
next
  case (Some i)
  let ?n = "name_or_shared name"
  obtain xs trk ys where at: "tracking s = xs @ trk # ys" "trk_name trk = Some ?n" "tracking s ! i = trk"
    "\<And>t. (tracking s)[i := t] = xs @ t # ys" "remove_at i (tracking s) = xs @ ys" using at_tracker [OF Some] by metis
  have ok: "tracker_ok trk" "inited s" and live: "mset (live_threads s) = mset (handles trk) + mset (concat (map handles (xs @ ys)))"
    "mset (live_bases s) = mset (bases trk) + mset (concat (map bases (xs @ ys)))"
    using assms progress_ok_middle [OF at(1)] by blast+
  have c: "trk_refcount trk = count_of s ?n" "1 \<le> count_of s ?n"
    using Some at(3) count_pos [OF assms Some] by (auto simp: count_of_def)
  let ?t = "trk\<lparr>trk_refcount := trk_refcount trk - 1\<rparr>"
  show ?thesis
  proof (cases "1 < trk_refcount trk")
    case True
    then have "tracker_ok ?t" "handles ?t = handles trk" "bases ?t = bases trk"
      using ok by (auto simp: tracker_ok_def handles_def bases_def)
    moreover from this have "progress_ok (set_tracker i ?t s)"
      "\<And>m. count_of (set_tracker i ?t s) m = (if m = ?n then trk_refcount ?t else count_of s m)"
      using live at by (intro replaced_ok [OF assms at(1), where trk' = ?t]; simp add: set_tracker_def)+
    ultimately show ?thesis
      using True Some ok(2) at(3) c by (simp add: unit_progress_thread_stop_def Let_def)
  next
    case False
    have "\<exists>trk' s'. (if ev_active ?t then stop_progress_engine ?t s else Some (?t, s)) = Some (trk', s') \<and>
        bases trk' = bases trk \<and> block_assigned trk' \<and> mset (live_threads s') = mset (concat (map handles (xs @ ys))) \<and>
        tracking s' = tracking s \<and> live_bases s' = live_bases s \<and> inited s' = inited s"
    proof (cases "ev_active trk")
      case True
      obtain t0 s0 where "stop_progress_engine trk s = Some (t0, s0)" "tracker_ok t0" "bases t0 = bases trk"
        "mset (live_threads s0) = mset (concat (map handles (xs @ ys)))" "tracking s0 = tracking s"
        "live_bases s0 = live_bases s" "inited s0 = inited s"
        using tracker_ok_stop [OF ok(1) live(1) True] by metis
      then show ?thesis
        using True by (auto simp: stop_refcount bases_def tracker_ok_def)
    next
      case False
      then have "handles trk = []" using ok(1) by (auto simp: tracker_ok_def handles_def)
      then show ?thesis using False ok(1) live(1) by (auto simp: bases_def tracker_ok_def)
    qed
    then obtain trk' s0 where s0: "(if ev_active ?t then stop_progress_engine ?t s else Some (?t, s)) = Some (trk', s0)"
      "bases trk' = bases trk" "block_assigned trk'" "mset (live_threads s0) = mset (concat (map handles (xs @ ys)))"
      "tracking s0 = tracking s" "live_bases s0 = live_bases s" "inited s0 = inited s" by blast
    obtain b where b: "ev_base trk' = Some b" "bases trk = [b]"
      using s0(2) ok(1) by (cases "ev_base trk'") (auto simp: bases_def tracker_ok_def)
    let ?s' = "s0\<lparr>tracking := xs @ ys, live_bases := remove1 b (live_bases s)\<rparr>"
    have "unit_progress_thread_stop name s = Some (PMIX_SUCCESS, ?s')"
      using Some ok(2) at(3,5) False s0 b by (simp add: unit_progress_thread_stop_def tracker_destructor_def Let_def)
    moreover have "progress_ok ?s'" "\<And>m. count_of ?s' m = (if m = ?n then 0 else count_of s m)"
      using s0 ok(2) live(2) b by (intro removed_ok [OF assms at(1,2)]; simp)+
    ultimately show ?thesis using c False by auto
  qed
qed

lemma thread_finalize_ok:
  assumes "progress_ok s"
  shows "unit_progress_thread_finalize name s =
    Some (if count_of s (name_or_shared name) = 0 then PMIX_ERR_NOT_FOUND else PMIX_SUCCESS, s)"
proof (cases "find_tracker (name_or_shared name) (tracking s)")
  case None
  then show ?thesis using count_None [OF None] by (simp add: unit_progress_thread_finalize_def)
next
  case (Some i)
  then show ?thesis
    using count_pos [OF assms Some] assms
    by (auto simp: unit_progress_thread_finalize_def count_of_def progress_ok_def)
qed

lemma pause_ok:
  assumes "progress_ok s"
  shows "\<exists>s'. unit_progress_thread_pause name s =
      Some (if count_of s (name_or_shared name) = 0 then PMIX_ERR_NOT_FOUND else PMIX_SUCCESS, s') \<and> progress_ok s' \<and>
    (\<forall>m. count_of s' m = count_of s m)"
proof (cases "find_tracker (name_or_shared name) (tracking s)")
  case None
  then show ?thesis using assms count_None [OF None] by (auto simp: unit_progress_thread_pause_def)
next
  case (Some i)
  let ?n = "name_or_shared name"
  obtain xs trk ys where at: "tracking s = xs @ trk # ys" "trk_name trk = Some ?n" "tracking s ! i = trk"
    "\<And>t. (tracking s)[i := t] = xs @ t # ys" using at_tracker [OF Some] by metis
  have ok: "tracker_ok trk" "inited s" and live: "mset (live_threads s) = mset (handles trk) + mset (concat (map handles (xs @ ys)))"
    using assms progress_ok_middle [OF at(1)] by blast+
  have c: "trk_refcount trk = count_of s ?n" "count_of s ?n \<noteq> 0"
    using Some at(3) count_pos [OF assms Some] by (auto simp: count_of_def)
  show ?thesis
  proof (cases "ev_active trk")
    case True
    obtain t0 s0 where t0: "stop_progress_engine trk s = Some (t0, s0)" "tracker_ok t0" "handles t0 = []" "bases t0 = bases trk"
      "trk_name t0 = trk_name trk" "trk_refcount t0 = trk_refcount trk"
      "mset (live_threads s0) = mset (concat (map handles (xs @ ys)))" "tracking s0 = tracking s"
      "live_bases s0 = live_bases s" "inited s0 = inited s"
      using tracker_ok_stop [OF ok(1) live(1) True] by metis
    then have "progress_ok (set_tracker i t0 s0)"
      "\<And>m. count_of (set_tracker i t0 s0) m = (if m = ?n then trk_refcount t0 else count_of s m)"
      using at by (intro replaced_ok [OF assms at(1), where trk' = t0]; simp add: set_tracker_def)+
    then show ?thesis using Some True ok(2) at(3) c t0(1,6) by (auto simp: unit_progress_thread_pause_def)
  next
    case False
    then show ?thesis using Some ok(2) at(3) c assms by (auto simp: unit_progress_thread_pause_def)
  qed
qed

lemma resume_ok:
  assumes "progress_ok s"
  shows "\<exists>rc s'. unit_progress_thread_resume (Some h) name s = Some (rc, s') \<and> progress_ok s' \<and>
    (\<forall>m. count_of s' m = count_of s m)"
proof (cases "find_tracker (name_or_shared name) (tracking s)")
  case None
  then show ?thesis using assms by (auto simp: unit_progress_thread_resume_def)
next
  case (Some i)
  let ?n = "name_or_shared name"
  obtain xs trk ys where at: "tracking s = xs @ trk # ys" "trk_name trk = Some ?n" "tracking s ! i = trk"
    "\<And>t. (tracking s)[i := t] = xs @ t # ys" using at_tracker [OF Some] by metis
  have ok: "tracker_ok trk" "inited s" and live: "mset (live_threads s) = mset (handles trk) + mset (concat (map handles (xs @ ys)))"
    using assms progress_ok_middle [OF at(1)] by blast+
  have c: "trk_refcount trk = count_of s ?n"
    using Some at(3) by (auto simp: count_of_def)
  show ?thesis
  proof (cases "ev_active trk")
    case False
    then obtain t where t: "engine trk = Some t" "t_handle t = No_thread" using ok(1) by (auto simp: tracker_ok_def)
    then have h: "handles trk = []" by (simp add: handles_def)
    obtain t0 s0 where t0: "start_progress_engine (Some h) trk s = Some (PMIX_SUCCESS, t0, s0)" "tracker_ok t0"
      "handles t0 = [h]" "bases t0 = bases trk" "trk_name t0 = trk_name trk" "trk_refcount t0 = trk_refcount trk"
      "live_threads s0 = live_threads s @ [h]" "tracking s0 = tracking s" "live_bases s0 = live_bases s" "inited s0 = inited s"
      using tracker_ok_start [of trk t h s] t False ok(1) by (auto simp: tracker_ok_def)
    then have "progress_ok (set_tracker i t0 s0)"
      "\<And>m. count_of (set_tracker i t0 s0) m = (if m = ?n then trk_refcount t0 else count_of s m)"
      using at live h by (intro replaced_ok [OF assms at(1), where trk' = t0]; simp add: set_tracker_def)+
    then show ?thesis using Some False ok(2) at(3) c t0(1,6) by (auto simp: unit_progress_thread_resume_def)
  next
    case True
    then show ?thesis using Some ok(2) at(3) assms by (auto simp: unit_progress_thread_resume_def)
  qed
qed

section \<open>Sequences of calls\<close>

datatype call =
    Init "string option"
  | Stop "string option"
  | Finalize "string option"
  | Pause "string option"
  | Resume "string option"

text \<open>Each call with what the system answers when it is made.\<close>

fun do_call :: "call \<times> answers \<Rightarrow> progress \<Rightarrow> progress option" where
  "do_call (Init n, a) s = map_option snd (unit_progress_thread_init a n s)"
| "do_call (Stop n, a) s = map_option snd (unit_progress_thread_stop n s)"
| "do_call (Finalize n, a) s = map_option snd (unit_progress_thread_finalize n s)"
| "do_call (Pause n, a) s = map_option snd (unit_progress_thread_pause n s)"
| "do_call (Resume n, a) s = map_option snd (unit_progress_thread_resume (thread_answer a) n s)"

fun do_calls :: "(call \<times> answers) list \<Rightarrow> progress \<Rightarrow> progress option" where
  "do_calls [] s = Some s"
| "do_calls (c # cs) s = do { s \<leftarrow> do_call c s; do_calls cs s }"

definition no_progress :: progress where
  "no_progress = \<lparr>inited = False, tracking = [], live_threads = [], live_bases = []\<rparr>"

text \<open>How often a name is in use: the calls of \<open>init\<close> not yet answered by one of \<open>stop\<close>.\<close>

fun use_step :: "string \<Rightarrow> call \<Rightarrow> nat \<Rightarrow> nat" where
  "use_step m (Init n) k = (if name_or_shared n = m then k + 1 else k)"
| "use_step m (Stop n) k = (if name_or_shared n = m then k - 1 else k)"
| "use_step m _ k = k"

definition uses :: "string \<Rightarrow> call list \<Rightarrow> nat" where
  "uses m cs = fold (use_step m) cs 0"

definition counts :: "progress \<Rightarrow> (string \<Rightarrow> nat) \<Rightarrow> bool" where
  "counts s f \<longleftrightarrow> progress_ok s \<and> (\<forall>m. count_of s m = int (f m))"

lemma call_counts:
  assumes "counts s f" "all_granted a" "\<And>m. int (f m) < int_max"
  shows "\<exists>s'. do_call (c, a) s = Some s' \<and> counts s' (\<lambda>m. use_step m c (f m))"
proof -
  have ok: "progress_ok s" and f: "\<And>m. count_of s m = int (f m)" using assms(1) by (simp_all add: counts_def)
  show ?thesis
  proof (cases c)
    case (Init n)
    have "count_of s (name_or_shared n) < int_max" using assms(3) f by simp
    from init_ok [OF ok assms(2) this] show ?thesis by (auto simp: Init counts_def f)
  next
    case (Stop n)
    from stop_ok [OF ok, of n] show ?thesis by (auto simp: Stop counts_def f)
  next
    case (Finalize n)
    then show ?thesis using thread_finalize_ok [OF ok, of n] assms(1) by auto
  next
    case (Pause n)
    from pause_ok [OF ok, of n] show ?thesis by (auto simp: Pause counts_def f)
  next
    case (Resume n)
    obtain h where "thread_answer a = Some h" using assms(2) by (auto simp: all_granted_def)
    with resume_ok [OF ok, of h n] show ?thesis by (auto simp: Resume counts_def f)
  qed
qed

lemma use_step_le: "use_step m c k \<le> k + 1"
  by (cases c) auto

lemma calls_counts:
  assumes "counts s f" "\<forall>(c, a) \<in> set cs. all_granted a" "\<And>m. int (f m) + int (length cs) \<le> int_max"
  shows "\<exists>s'. do_calls cs s = Some s' \<and> counts s' (\<lambda>m. fold (use_step m) (map fst cs) (f m))"
  using assms
proof (induction cs arbitrary: s f)
  case (Cons x cs)
  obtain c a where x: "x = (c, a)" by (cases x)
  have "int (f m) < int_max" for m using Cons.prems(3) [of m] by simp
  then obtain s1 where s1: "do_call (c, a) s = Some s1" "counts s1 (\<lambda>m. use_step m c (f m))"
    using call_counts [OF Cons.prems(1), of a c] Cons.prems(2) by (auto simp: x)
  have "int (use_step m c (f m)) + int (length cs) \<le> int_max" for m
    using Cons.prems(3) [of m] use_step_le [of m c "f m"] by simp
  then obtain s2 where "do_calls cs s1 = Some s2" "counts s2 (\<lambda>m. fold (use_step m) (map fst cs) (use_step m c (f m)))"
    using Cons.IH [OF s1(2)] Cons.prems(2) by auto
  then show ?case using s1(1) by (auto simp: x)
qed simp

lemma counts_initial: "counts no_progress (\<lambda>m. 0)"
  by (simp add: counts_def no_progress_def progress_ok_def count_of_def)

text \<open>
  When \<open>pthread_create\<close> fails in \<open>unit_progress_thread_resume\<close>, the tracker is left marked active
  with a handle of no thread: the next call that stops it joins that handle.
\<close>

lemma failed_resume_breaks_pause:
  assumes "progress_ok s" "find_tracker (name_or_shared name) (tracking s) = Some i" "\<not> ev_active (tracking s ! i)"
  shows "\<exists>s'. unit_progress_thread_resume None name s = Some (PMIX_ERROR, s') \<and>
    unit_progress_thread_pause name s' = None"
proof -
  obtain xs trk ys where at: "tracking s = xs @ trk # ys" "i = length xs" "trk_name trk = Some (name_or_shared name)"
    "tracking s ! i = trk" "\<And>t. (tracking s)[i := t] = xs @ t # ys" using at_tracker [OF assms(2)] by metis
  have ok: "tracker_ok trk" "inited s" "distinct (map trk_name (xs @ trk # ys))"
    using assms(1) progress_ok_middle [OF at(1)] by blast+
  then obtain t where t: "engine trk = Some t" "t_handle t = No_thread"
    using assms(3) at(4) by (auto simp: tracker_ok_def)
  let ?t = "trk\<lparr>ev_active := True, engine := Some (t\<lparr>t_run := True, t_handle := Undefined_handle\<rparr>)\<rparr>"
  have r: "unit_progress_thread_resume None name s = Some (PMIX_ERROR, set_tracker i ?t s)"
    using assms t ok(2) at(4)
    by (simp add: unit_progress_thread_resume_def start_progress_engine_def pmix_thread_start_def)
  have "find_tracker (name_or_shared name) xs = None" using ok(3) at(3) by (auto simp: find_tracker_None)
  then have "find_tracker (name_or_shared name) (xs @ ?t # ys) = Some i"
    using at(2,3) by (simp add: find_tracker_append)
  then have "unit_progress_thread_pause name (set_tracker i ?t s) = None"
    using at(2,5) ok(2)
    by (simp add: unit_progress_thread_pause_def set_tracker_def stop_progress_engine_def pmix_thread_join_def)
  with r show ?thesis by blast
qed

section \<open>Properties\<close>


definition granted :: answers where
  "granted = \<lparr>new_ok = True, strdup_ok = True, base_answer = Some 4, thread_answer = Some 9\<rparr>"


text \<open>
  The finalize function never releases anything: after any such sequence it changes no state,
  and its status only tells whether the name is still in use. After as many stops as inits, where
  the header says that it destroys the event base, the base is already gone (the last stop
  destroyed it) and the status is \<open>PMIX_ERR_NOT_FOUND\<close>.
\<close>

lemma finalize_releases_nothing:
  assumes "\<forall>(c, a) \<in> set cs. all_granted a" "int (length cs) \<le> int_max"
  shows "\<exists>s. do_calls cs no_progress = Some s \<and>
    unit_progress_thread_finalize name s =
      Some (if uses (name_or_shared name) (map fst cs) = 0 then PMIX_ERR_NOT_FOUND else PMIX_SUCCESS, s)"
proof -
  obtain s where s: "do_calls cs no_progress = Some s" "counts s (\<lambda>m. uses m (map fst cs))"
    using calls_counts [OF counts_initial assms(1)] assms(2) by (auto simp: uses_def)
  then have "unit_progress_thread_finalize name s =
      Some (if uses (name_or_shared name) (map fst cs) = 0 then PMIX_ERR_NOT_FOUND else PMIX_SUCCESS, s)"
    using thread_finalize_ok [of s name] by (simp add: counts_def)
  then show ?thesis using s(1) by blast
qed

end
