(* ===== verification/SimpServer.thy ===== *)
theory SimpServer
  imports Callbacks CString
begin

text \<open>
  The stand-alone test server of src/simple/simptest.c: its options, the functions it gives the
  PMIx server library, the information it registers for a namespace, and its progress thread
  (src/simple/progress_thread.c). The value type \<open>'v\<close> of the PMIx data, \<open>pmix_value_xfer\<close> (the
  parameter \<open>xfer\<close>) and the functions that make the maps are not looked into. What a function
  does outside the server is a list of effects: callbacks, notifications and registrations, in
  order. Messages on stderr are not modelled. Allocations succeed, except where the code checks.
\<close>

section \<open>Options\<close>

record simptest_args =
  num_procs :: u64                        \<comment> \<open>\<open>nprocs\<close>\<close>
  executable :: "string option"
  extra_argv :: argv                      \<comment> \<open>\<open>client_argv\<close>\<close>
  cross_version :: bool
  usock :: bool
  is_verbose :: bool
  istimeouttest :: bool

definition simptest_defaults :: simptest_args where
  "simptest_defaults = \<lparr>num_procs = 1, executable = None, extra_argv = None, cross_version = False,
     usock = True, is_verbose = False, istimeouttest = False\<rparr>"

fun is_prefix :: "string \<Rightarrow> string \<Rightarrow> bool" where
  "is_prefix [] s = True"
| "is_prefix (c # cs) [] = False"
| "is_prefix (c # cs) (d # ds) \<longleftrightarrow> c = d \<and> is_prefix cs ds"

text \<open>\<open>NULL != strstr(s, pat)\<close>\<close>

fun has_substring :: "string \<Rightarrow> string \<Rightarrow> bool" where
  "has_substring pat [] \<longleftrightarrow> pat = []"
| "has_substring pat (c # cs) \<longleftrightarrow> is_prefix pat (c # cs) \<or> has_substring pat cs"

definition append_arg :: "argv \<Rightarrow> string \<Rightarrow> argv" where
  "append_arg v s = fst (snd (pmix_argv_append_nosize [] v s))"

text \<open>
  The loop over the arguments after the name of the program; \<open>Inl c\<close> is \<open>exit(c)\<close>. After \<open>-e\<close> the
  index moves past the end of \<open>argv\<close>, so nothing that follows is an option of the server.
\<close>

function parse_simptest :: "string list \<Rightarrow> simptest_args \<Rightarrow> int + simptest_args" where
  "parse_simptest [] p = Inr p"
| "parse_simptest (a # as) p =
     (if a = ''-n'' \<and> as \<noteq> [] then parse_simptest (tl as) (p\<lparr>num_procs := word_of_int (strtol (hd as))\<rparr>)
      else if a = ''-e'' \<and> as \<noteq> [] then
        Inr (p\<lparr>executable := Some (hd as),
          istimeouttest := istimeouttest p \<or> has_substring ''simptimeout'' (hd as),
          extra_argv := foldl append_arg (extra_argv p) (tl as)\<rparr>)
      else if a = ''-x'' then parse_simptest as (p\<lparr>cross_version := True, usock := False\<rparr>)
      else if a = ''-u'' then parse_simptest as (p\<lparr>usock := False\<rparr>)
      else if a = ''-v'' then parse_simptest as (p\<lparr>is_verbose := True\<rparr>)
      else if a = ''-V'' \<or> a = ''--version'' then parse_simptest as p
      else if a = ''-h'' then Inl 0
      else parse_simptest as p)"
  by pat_completeness auto

termination
  by (relation "measure (\<lambda>(as, p). length as)") auto

definition simptest_options :: "string list \<Rightarrow> int + simptest_args" where
  "simptest_options as =
     (case parse_simptest as simptest_defaults of
        Inl c \<Rightarrow> Inl c
      | Inr p \<Rightarrow>
          (let p = (if executable p = None then p\<lparr>executable := Some ''./simpclient''\<rparr> else p)
           in if cross_version p \<and> num_procs p < 2 then Inl 1 else Inr p))"

text \<open>The arguments of the clients, and the transport a client of rank \<open>n\<close> is told to use.\<close>

definition simptest_client_argv :: "simptest_args \<Rightarrow> argv" where
  "simptest_client_argv p = fst (snd (pmix_argv_prepend_nosize [] (extra_argv p) (the (executable p))))"

definition ptl_setting :: "simptest_args \<Rightarrow> nat \<Rightarrow> (string \<times> string) list \<Rightarrow> (string \<times> string) list" where
  "ptl_setting p n env =
     (let set = (\<lambda>v. (''PMIX_MCA_ptl'', v) # filter (\<lambda>e. fst e \<noteq> ''PMIX_MCA_ptl'') env)
      in if cross_version p then (if n mod 2 = 0 then set ''tcp'' else set ''usock'')
         else if \<not> usock p then set ''usock''
         else env)"

section \<open>The progress thread\<close>

record test_thread =
  thread_active :: bool
  thread_base :: "nat option"
  thread_engine :: "nat option"           \<comment> \<open>a thread that was created and not joined\<close>

text \<open>
  \<open>pmix_test_thread_start\<close> with what the event library and \<open>pthread_create\<close> answer; the result is
  the return value and the base the caller gets (\<open>None\<close> when \<open>*evbase\<close> is not written).
\<close>

definition pmix_test_thread_start ::
  "nat option \<Rightarrow> int + nat \<Rightarrow> test_thread \<Rightarrow> int \<times> nat option \<times> test_thread" where
  "pmix_test_thread_start base thread s =
     (let s = s\<lparr>thread_active := True, thread_base := base\<rparr>
      in case base of
           None \<Rightarrow> (- 1, None, s)
         | Some b \<Rightarrow>
             (case thread of
                Inl rc \<Rightarrow> (rc, Some b, s\<lparr>thread_engine := None\<rparr>)
              | Inr t \<Rightarrow> (0, Some b, s\<lparr>thread_engine := Some t\<rparr>)))"

text \<open>\<open>None\<close>: there is no event base or no thread to join.\<close>

definition pmix_test_thread_stop :: "test_thread \<Rightarrow> test_thread option" where
  "pmix_test_thread_stop s =
     (if thread_base s = None \<or> thread_engine s = None then None
      else Some (s\<lparr>thread_active := False, thread_base := None, thread_engine := None\<rparr>))"

section \<open>Registering a namespace\<close>

text \<open>\<open>gethostname\<close>, \<open>PMIx_generate_regex\<close> and \<open>PMIx_generate_ppn\<close>.\<close>

record simple_env =
  hostname :: string
  make_regex :: "string \<Rightarrow> string"
  make_ppn :: "string \<Rightarrow> string"

text \<open>A job value of the library's own type is not needed: the entries are numbers and strings.\<close>

definition simptest_set_namespace ::
  "simple_env \<Rightarrow> int \<Rightarrow> string \<Rightarrow> (job_key \<times> job_value) list" where
  "simptest_set_namespace E procs ranks =
     [(PMIX_UNIV_SIZE, Uint32 (word_of_int procs)),
      (PMIX_SPAWNED, Uint32 0),
      (PMIX_LOCAL_SIZE, Uint32 (word_of_int procs)),
      (PMIX_LOCAL_PEERS, Text ranks),
      (PMIX_NODE_MAP, Text (make_regex E (hostname E))),
      (PMIX_PROC_MAP, Text (make_ppn E ranks)),
      (PMIX_JOB_SIZE, Uint32 (word_of_int procs))]"

text \<open>The list of ranks \<open>main\<close> makes for the namespace of the clients.\<close>

definition simptest_ranks :: "nat \<Rightarrow> string option" where
  "simptest_ranks n =
     (case pmix_argv_join [] (foldl append_arg None (map (\<lambda>i. decimal (int i)) [0..<n])) CHR '','' of
        Some (Some s, ms) \<Rightarrow> Some s | _ \<Rightarrow> None)"

section \<open>The functions of the server module\<close>

datatype 'v effect =
    Called_back pmix_status               \<comment> \<open>the \<open>pmix_op_cbfunc_t\<close> of the request\<close>
  | Modex_data pmix_status string
  | Lookup_data pmix_status "'v pmix_pdata list"
  | Query_data pmix_status "(string \<times> string) list"
  | Spawned pmix_status string
  | Tool_proc pmix_status proc
  | Handled pmix_status                   \<comment> \<open>the event handler is done\<close>
  | Notified int proc "string list"       \<comment> \<open>a notification with the keys of its information\<close>
  | Registered string int "(job_key \<times> job_value) list"
  | Deliver "'v pmix_info list"
  | Released
  | Woken pmix_status                     \<comment> \<open>\<open>DEBUG_WAKEUP_THREAD\<close> with the status of the lock\<close>

record 'v simptest =
  timeout_test :: bool
  pubdata :: "'v pmix_pdata list"         \<comment> \<open>\<open>npub\<close> entries\<close>
  numconnects :: int

definition when_set :: "bool \<Rightarrow> 'v effect \<Rightarrow> 'v effect list" where
  "when_set cbfunc e = (if cbfunc then [e] else [])"

text \<open>\<open>cbfunc\<close> tells that the caller's callback is not NULL.\<close>

definition simptest_connected :: "bool \<Rightarrow> pmix_status \<times> 'v effect list" where
  "simptest_connected cbfunc = (PMIX_SUCCESS, when_set cbfunc (Called_back PMIX_SUCCESS))"

definition simptest_finalized :: "bool \<Rightarrow> pmix_status \<times> 'v effect list" where
  "simptest_finalized cbfunc = (PMIX_SUCCESS, when_set cbfunc (Called_back PMIX_SUCCESS))"

text \<open>
  \<open>abort_fn\<close> queues a notification; \<open>abcbfunc\<close>, which the library calls when it is queued,
  answers the caller. When \<open>PMIx_Notify_event\<close> fails (\<open>notified\<close> is not success) nobody does.
\<close>

definition abcbfunc :: "bool \<Rightarrow> pmix_status \<Rightarrow> 'v effect list" where
  "abcbfunc cbfunc status = when_set cbfunc (Called_back status)"

definition simptest_abort_fn ::
  "pmix_consts \<Rightarrow> proc \<Rightarrow> int \<Rightarrow> pmix_status \<Rightarrow> pmix_status \<Rightarrow> bool \<Rightarrow> pmix_status \<times> 'v effect list" where
  "simptest_abort_fn K proc status notified queued cbfunc =
     (PMIX_SUCCESS,
      Notified status (proc\<lparr>nspace := take (max_nslen K) (nspace proc)\<rparr>) [''DARTH'', ''VADER''] #
        (if notified = PMIX_SUCCESS then abcbfunc cbfunc queued else []))"

definition simptest_fencenb_fn :: "string \<Rightarrow> bool \<Rightarrow> pmix_status \<times> 'v effect list" where
  "simptest_fencenb_fn data cbfunc = (PMIX_SUCCESS, when_set cbfunc (Modex_data PMIX_SUCCESS data))"

definition simptest_dmodex_fn :: "bool \<Rightarrow> 'v simptest \<Rightarrow> pmix_status \<times> 'v effect list" where
  "simptest_dmodex_fn cbfunc s =
     (if timeout_test s then (PMIX_SUCCESS, [])
      else (PMIX_SUCCESS, when_set cbfunc (Modex_data PMIX_ERR_NOT_FOUND [])))"

definition published_entry :: "pmix_consts \<Rightarrow> ('v \<Rightarrow> 'v) \<Rightarrow> proc \<Rightarrow> 'v pmix_info \<Rightarrow> 'v pmix_pdata" where
  "published_entry K xfer proc x =
     \<lparr>pd_nspace = take (max_nslen K) (nspace proc), pd_rank = prank proc,
      pd_key = take (max_keylen K) (info_key x), pd_value = xfer (info_value x)\<rparr>"

text \<open>\<open>info\<close> is \<open>None\<close> for NULL. The new entries replace all the old ones.\<close>

definition simptest_publish_fn ::
  "pmix_consts \<Rightarrow> ('v \<Rightarrow> 'v) \<Rightarrow> proc \<Rightarrow> 'v pmix_info list option \<Rightarrow> bool \<Rightarrow> 'v simptest \<Rightarrow>
   pmix_status \<times> 'v effect list \<times> 'v simptest" where
  "simptest_publish_fn K xfer proc info cbfunc s =
     (let s = (case info of
           Some (x # xs) \<Rightarrow> s\<lparr>pubdata := map (published_entry K xfer proc) (x # xs)\<rparr>
         | _ \<Rightarrow> s)
      in (PMIX_SUCCESS, when_set cbfunc (Called_back PMIX_SUCCESS), s))"

text \<open>\<open>strncmp\<close> up to \<open>PMIX_MAX_KEYLEN\<close> characters.\<close>

definition same_key :: "pmix_consts \<Rightarrow> string \<Rightarrow> string \<Rightarrow> bool" where
  "same_key K a b \<longleftrightarrow> take (max_keylen K) a = take (max_keylen K) b"

definition find_published :: "pmix_consts \<Rightarrow> string \<Rightarrow> 'v simptest \<Rightarrow> 'v pmix_pdata option" where
  "find_published K key s = find (\<lambda>d. same_key K key (pd_key d)) (pubdata s)"

definition copied_entry :: "pmix_consts \<Rightarrow> ('v \<Rightarrow> 'v) \<Rightarrow> 'v pmix_pdata \<Rightarrow> 'v pmix_pdata" where
  "copied_entry K xfer d =
     \<lparr>pd_nspace = take (max_nslen K) (pd_nspace d), pd_rank = pd_rank d,
      pd_key = take (max_keylen K) (pd_key d), pd_value = xfer (pd_value d)\<rparr>"

text \<open>
  \<open>lookup_fn\<close>: the keys that are published, then their data. The status it reports is
  the initial value of \<open>ret\<close>, which nothing changes.
\<close>

definition simptest_lookup_fn ::
  "pmix_consts \<Rightarrow> ('v \<Rightarrow> 'v) \<Rightarrow> string list \<Rightarrow> bool \<Rightarrow> 'v simptest \<Rightarrow> pmix_status \<times> 'v effect list" where
  "simptest_lookup_fn K xfer keys cbfunc s =
     (let results = filter (\<lambda>k. find_published K k s \<noteq> None) keys;
          pd = map (\<lambda>k. copied_entry K xfer (the (find_published K k s))) results
      in (PMIX_SUCCESS, when_set cbfunc (Lookup_data PMIX_ERR_NOT_FOUND pd)))"

definition simptest_unpublish_fn :: "bool \<Rightarrow> pmix_status \<times> 'v effect list" where
  "simptest_unpublish_fn cbfunc = (PMIX_SUCCESS, when_set cbfunc (Called_back PMIX_SUCCESS))"

text \<open>\<open>spawn_fn\<close> registers a namespace; the library then calls \<open>spcbfunc\<close>.\<close>

definition spcbfunc :: "bool \<Rightarrow> 'v effect list" where
  "spcbfunc cbfunc = when_set cbfunc (Spawned PMIX_SUCCESS ''DYNSPACE'')"

definition simptest_spawn_fn :: "simple_env \<Rightarrow> bool \<Rightarrow> pmix_status \<times> 'v effect list" where
  "simptest_spawn_fn E cbfunc =
     (PMIX_SUCCESS, Registered ''DYNSPACE'' 2 (simptest_set_namespace E 2 ''0,1'') # spcbfunc cbfunc)"

definition simptest_connect_fn :: "bool \<Rightarrow> 'v simptest \<Rightarrow> pmix_status \<times> 'v effect list \<times> 'v simptest" where
  "simptest_connect_fn cbfunc s =
     (PMIX_SUCCESS, when_set cbfunc (Called_back PMIX_SUCCESS), s\<lparr>numconnects := numconnects s + 1\<rparr>)"

definition simptest_disconnect_fn :: "bool \<Rightarrow> pmix_status \<times> 'v effect list" where
  "simptest_disconnect_fn cbfunc = (PMIX_SUCCESS, when_set cbfunc (Called_back PMIX_SUCCESS))"

definition simptest_register_event_fn :: "bool \<Rightarrow> pmix_status \<times> 'v effect list" where
  "simptest_register_event_fn cbfunc = (PMIX_SUCCESS, when_set cbfunc (Called_back PMIX_SUCCESS))"

definition simptest_deregister_events :: "bool \<Rightarrow> pmix_status \<times> 'v effect list" where
  "simptest_deregister_events cbfunc = (PMIX_SUCCESS, [])"

definition simptest_notify_event :: "bool \<Rightarrow> pmix_status \<times> 'v effect list" where
  "simptest_notify_event cbfunc = (PMIX_SUCCESS, [])"

text \<open>
  \<open>query_fn\<close>: each query is answered with its first key and its number. \<open>None\<close> when a query has no
  key; \<open>asprintf\<close> may run out of memory, and the callback is then not called.
\<close>

fun query_loop :: "pmix_consts \<Rightarrow> allocs \<Rightarrow> nat \<Rightarrow> string list list \<Rightarrow> (string \<times> string) list option option" where
  "query_loop K ms n [] = Some (Some [])"
| "query_loop K ms n ([] # qs) = None"
| "query_loop K ms n ((k # ks) # qs) =
     (case next_alloc ms of (ok, ms') \<Rightarrow>
        if \<not> ok then Some None
        else map_option (map_option ((#) (take (max_keylen K) k, decimal (int n)))) (query_loop K ms' (n + 1) qs))"

definition simptest_query_fn ::
  "pmix_consts \<Rightarrow> allocs \<Rightarrow> string list list \<Rightarrow> bool \<Rightarrow> (pmix_status \<times> 'v effect list) option" where
  "simptest_query_fn K ms queries cbfunc =
     (if \<not> cbfunc then Some (PMIX_ERROR, [])
      else (case query_loop K ms 0 queries of
          None \<Rightarrow> None
        | Some None \<Rightarrow> Some (PMIX_ERROR, [])
        | Some (Some info) \<Rightarrow> Some (PMIX_SUCCESS, [Query_data PMIX_SUCCESS info])))"

definition simptest_tool_connect_fn :: "pmix_consts \<Rightarrow> bool \<Rightarrow> 'v effect list" where
  "simptest_tool_connect_fn K cbfunc =
     when_set cbfunc (Tool_proc PMIX_SUCCESS \<lparr>nspace = take (max_nslen K) ''TOOL'', prank = 0\<rparr>)"

definition simptest_log_fn :: "bool \<Rightarrow> 'v effect list" where
  "simptest_log_fn cbfunc = when_set cbfunc (Called_back PMIX_SUCCESS)"

section \<open>Callbacks of the server itself\<close>

definition opcbfunc :: "bool \<Rightarrow> 'v effect list" where
  "opcbfunc cbfunc = when_set cbfunc (Called_back PMIX_SUCCESS) @ [Woken PMIX_SUCCESS]"

text \<open>
  \<open>infocbfunc\<close> copies the inventory, has \<open>dlcbfunc\<close> deliver it from the progress thread, releases the
  library's copy and wakes the main thread.
\<close>

definition dlcbfunc :: "'v pmix_info list \<Rightarrow> 'v effect" where
  "dlcbfunc info = Deliver info"

definition infocbfunc :: "('v \<Rightarrow> 'v) \<Rightarrow> pmix_status \<Rightarrow> 'v pmix_info list \<Rightarrow> bool \<Rightarrow> 'v effect list" where
  "infocbfunc xfer status info release_fn =
     dlcbfunc (map (\<lambda>x. x\<lparr>info_value := xfer (info_value x)\<rparr>) info) # when_set release_fn Released @ [Woken status]"

definition model_callback :: "bool \<Rightarrow> 'v effect list" where
  "model_callback cbfunc = when_set cbfunc (Handled PMIX_SUCCESS) @ [Woken PMIX_SUCCESS]"

definition model_registration_callback :: "pmix_status \<Rightarrow> 'v effect list" where
  "model_registration_callback status = [Woken status]"

definition simptest_errhandler :: "bool \<Rightarrow> 'v effect list" where
  "simptest_errhandler cbfunc = when_set cbfunc (Handled PMIX_SUCCESS)"

definition simptest_errhandler_reg_callbk :: "pmix_status \<Rightarrow> 'v effect list" where
  "simptest_errhandler_reg_callbk status = [Woken status]"

section \<open>Publishing and looking up\<close>

definition short_names :: "pmix_consts \<Rightarrow> proc \<Rightarrow> 'v pmix_info list \<Rightarrow> bool" where
  "short_names K proc info \<longleftrightarrow> length (nspace proc) \<le> max_nslen K \<and> (\<forall>x \<in> set info. length (info_key x) \<le> max_keylen K)"

lemma find_published_publish:
  assumes "\<forall>x \<in> set info. length (info_key x) \<le> max_keylen K" "length k \<le> max_keylen K"
    "pubdata s = map (published_entry K xfer proc) info"
  shows "find_published K k s =
    map_option (\<lambda>v. \<lparr>pd_nspace = take (max_nslen K) (nspace proc), pd_rank = prank proc, pd_key = k, pd_value = xfer v\<rparr>)
      (map_of (map (\<lambda>x. (info_key x, info_value x)) info) k)"
  using assms(1,2) unfolding find_published_def assms(3)
  by (induction info) (auto simp: same_key_def published_entry_def)

text \<open>
  C38: What a client published last is found: a lookup returns, for each of its keys that is among
  these (in the order of the request), the publisher and the value. Everything published before
  is gone. The reported status is \<open>PMIX_ERR_NOT_FOUND\<close> all the same.
\<close>

theorem simptest_lookup_published:
  assumes "short_names K proc (x # xs)" "\<forall>k \<in> set keys. length k \<le> max_keylen K"
  shows "\<exists>s'. simptest_publish_fn K xfer proc (Some (x # xs)) cb s = (PMIX_SUCCESS, when_set cb (Called_back PMIX_SUCCESS), s') \<and>
    simptest_lookup_fn K xfer' keys True s' = (PMIX_SUCCESS, [Lookup_data PMIX_ERR_NOT_FOUND
      (List.map_filter (\<lambda>k. map_option
          (\<lambda>v. \<lparr>pd_nspace = nspace proc, pd_rank = prank proc, pd_key = k, pd_value = xfer' (xfer v)\<rparr>)
        (map_of (map (\<lambda>y. (info_key y, info_value y)) (x # xs)) k)) keys)])"
proof -
  let ?s = "s\<lparr>pubdata := map (published_entry K xfer proc) (x # xs)\<rparr>"
  let ?m = "map_of (map (\<lambda>y. (info_key y, info_value y)) (x # xs))"
  have found: "find_published K k ?s = map_option
      (\<lambda>v. \<lparr>pd_nspace = nspace proc, pd_rank = prank proc, pd_key = k, pd_value = xfer v\<rparr>) (?m k)" if "k \<in> set keys" for k
    using find_published_publish [of "x # xs" K k ?s xfer proc] assms that by (simp add: short_names_def)
  have "map (\<lambda>k. copied_entry K xfer' (the (find_published K k ?s))) (filter (\<lambda>k. find_published K k ?s \<noteq> None) keys) =
      List.map_filter (\<lambda>k. map_option
          (\<lambda>v. \<lparr>pd_nspace = nspace proc, pd_rank = prank proc, pd_key = k, pd_value = xfer' (xfer v)\<rparr>) (?m k)) keys"
    unfolding List.map_filter_def
  proof (rule map_cong)
    show "filter (\<lambda>k. find_published K k ?s \<noteq> None) keys = filter (\<lambda>k. map_option
        (\<lambda>v. \<lparr>pd_nspace = nspace proc, pd_rank = prank proc, pd_key = k, pd_value = xfer' (xfer v)\<rparr>) (?m k) \<noteq> None) keys"
      using found by (intro filter_cong) auto
  qed (use found assms in \<open>auto simp: copied_entry_def short_names_def\<close>)
  then show ?thesis by (simp add: simptest_publish_fn_def simptest_lookup_fn_def when_set_def Let_def)
qed

definition small_consts :: pmix_consts where
  "small_consts = \<lparr>max_nslen = 8, max_keylen = 8, rank_undef = - 1, rank_wildcard = - 2\<rparr>"

theorem simptest_lookup_published_witness:
  "\<exists>s'. simptest_publish_fn small_consts (\<lambda>v. v) \<lparr>nspace = ''foobar'', prank = 1\<rparr>
      (Some [\<lparr>info_key = ''a'', info_value = (5 :: int)\<rparr>]) False
      \<lparr>timeout_test = False, pubdata = [], numconnects = 0\<rparr> = (PMIX_SUCCESS, [], s') \<and>
    simptest_lookup_fn small_consts (\<lambda>v. v) [''b'', ''a''] True s' = (PMIX_SUCCESS, [Lookup_data PMIX_ERR_NOT_FOUND
      [\<lparr>pd_nspace = ''foobar'', pd_rank = 1, pd_key = ''a'', pd_value = 5\<rparr>]])"
proof -
  have "short_names small_consts \<lparr>nspace = ''foobar'', prank = 1\<rparr> [\<lparr>info_key = ''a'', info_value = (5 :: int)\<rparr>]"
    "\<forall>k \<in> set [''b'', ''a'']. length k \<le> max_keylen small_consts"
    by (simp_all add: short_names_def small_consts_def)
  from simptest_lookup_published [OF this, of "\<lambda>v. v" False "\<lparr>timeout_test = False, pubdata = [], numconnects = 0\<rparr>" "\<lambda>v. v"]
  show ?thesis by (simp add: when_set_def List.map_filter_def)
qed

end
