(* ===== verification/SimpRun.thy ===== *)
theory SimpRun
  imports SimpServer
begin

text \<open>
  How the test server of src/simple/simptest.c starts its clients and waits for them: the main
  program after the options, and \<open>wait_signal_callback\<close>, which runs in the progress thread.
  The two threads share \<open>children\<close>, \<open>wakeup\<close> and \<open>exit_code\<close>; a run is an interleaving of the steps
  of the main thread, of the handler and of clients that exit. Statuses of the library are
  their numbers, \<open>PMIX_SUCCESS\<close> being 0 (the program checks it when it starts).
\<close>

section \<open>State\<close>

record wait_tracker =
  child_code :: int                       \<comment> \<open>\<open>exit_code\<close>\<close>
  child_pid :: int                        \<comment> \<open>\<open>pid\<close>\<close>

datatype wait_status = Exited_with int | Killed_by int | Other_status

text \<open>
  The place of the main thread: starting client \<open>n\<close>; between the \<open>fork\<close> of client \<open>n\<close> and the
  assignment of its pid; in the loop on \<open>wakeup\<close>; ended with a code.
\<close>

datatype place = Starting nat | Recording nat int | Waiting | Ended int

record run =
  at :: place
  children :: "wait_tracker list"
  wakeup :: int
  exit_code :: int
  alive :: "int list"                     \<comment> \<open>client processes that run\<close>
  zombies :: "(int \<times> wait_status) list"   \<comment> \<open>ended, \<open>waitpid\<close> will report them in this order\<close>
  ended :: "(int \<times> wait_status) list"     \<comment> \<open>reported by \<open>waitpid\<close> so far, the last one first\<close>

section \<open>The handler\<close>

definition new_code :: "wait_status \<Rightarrow> int \<Rightarrow> int" where
  "new_code st old = (case st of Exited_with c \<Rightarrow> c | Killed_by sig \<Rightarrow> sig + 128 | Other_status \<Rightarrow> old)"

fun find_child :: "int \<Rightarrow> wait_tracker list \<Rightarrow> nat option" where
  "find_child p [] = None"
| "find_child p (c # cs) = (if p = child_pid c then Some 0 else map_option Suc (find_child p cs))"

definition reap_child :: "int \<times> wait_status \<Rightarrow> run \<Rightarrow> run" where
  "reap_child = (\<lambda>(p, st) r.
     (let r = r\<lparr>ended := (p, st) # ended r\<rparr>
      in case find_child p (children r) of
           None \<Rightarrow> r
         | Some n \<Rightarrow>
             (let c = new_code st (child_code (children r ! n))
              in r\<lparr>children := (children r)[n := (children r ! n)\<lparr>child_code := c\<rparr>],
                   exit_code := (if c \<noteq> 0 \<and> exit_code r = 0 then c else exit_code r),
                   wakeup := wakeup r - 1\<rparr>)))"

text \<open>The loop of \<open>wait_signal_callback\<close> takes all the processes \<open>waitpid\<close> reports.\<close>

definition simptest_wait_signal_callback :: "run \<Rightarrow> run" where
  "simptest_wait_signal_callback r = fold reap_child (zombies r) (r\<lparr>zombies := []\<rparr>)"

section \<open>The main thread\<close>

text \<open>What the library answers: before the clients, for each client, and at the end.\<close>

record library =
  init_rc :: int
  handler_status :: int
  thread_rc :: int
  collect_rc :: int
  collect_status :: int
  fork_setup_rc :: "nat \<Rightarrow> int"
  register_client_rc :: "nat \<Rightarrow> int"
  end_rc :: int                           \<comment> \<open>\<open>PMIx_server_finalize\<close>\<close>

text \<open>The code after the label \<open>done\<close>.\<close>

definition done_code :: "library \<Rightarrow> int \<Rightarrow> int" where
  "done_code l code = (if end_rc l \<noteq> 0 then end_rc l else code)"

text \<open>
  From \<open>PMIx_server_init\<close> to the first client. \<open>Inl c\<close>: the program ends with \<open>c\<close>. A failing
  \<open>PMIx_server_collect_inventory\<close> jumps to \<open>done\<close> with \<open>exit_code\<close> still 0.
\<close>

definition simptest_start :: "library \<Rightarrow> nat \<Rightarrow> int + run" where
  "simptest_start l n =
     (if init_rc l \<noteq> 0 then Inl (init_rc l)
      else if handler_status l \<noteq> 0 then Inl (handler_status l)
      else if thread_rc l \<noteq> 0 then Inl 1
      else if collect_rc l \<noteq> 0 then Inl (done_code l 0)
      else if collect_status l \<noteq> 0 then Inl (collect_status l)
      else Inr \<lparr>at = Starting 0, children = replicate n \<lparr>child_code = 0, child_pid = 0\<rparr>, wakeup = int n,
          exit_code = 0, alive = [], zombies = [], ended = []\<rparr>)"

text \<open>Client \<open>n\<close>; \<open>p\<close> is what \<open>fork\<close> returns in the parent.\<close>

definition start_client :: "library \<Rightarrow> nat \<Rightarrow> int \<Rightarrow> run \<Rightarrow> run" where
  "start_client l n p r =
     (if fork_setup_rc l n \<noteq> 0 then r\<lparr>at := Ended (fork_setup_rc l n)\<rparr>
      else if register_client_rc l n \<noteq> 0 then r\<lparr>at := Ended (register_client_rc l n)\<rparr>
      else if p < 0 then r\<lparr>at := Ended (- 1)\<rparr>
      else r\<lparr>at := Recording n p, alive := p # alive r\<rparr>)"

definition record_client :: "nat \<Rightarrow> int \<Rightarrow> run \<Rightarrow> run" where
  "record_client n p r =
     r\<lparr>at := (if n + 1 < length (children r) then Starting (n + 1) else Waiting),
       children := (children r)[n := (children r ! n)\<lparr>child_pid := p\<rparr>]\<rparr>"

text \<open>
  The loop on \<open>wakeup\<close> ends; the loop that looks for a child with a code only decides what is
  printed.
\<close>

definition finish_run :: "library \<Rightarrow> run \<Rightarrow> run" where
  "finish_run l r = (if 0 < wakeup r then r else r\<lparr>at := Ended (done_code l (exit_code r))\<rparr>)"

text \<open>
  The steps. A new process has a pid no process of the run had before.
\<close>

definition known_pids :: "run \<Rightarrow> int set" where
  "known_pids r = set (alive r) \<union> fst ` set (zombies r) \<union> fst ` set (ended r)"

inductive run_step :: "library \<Rightarrow> run \<Rightarrow> run \<Rightarrow> bool" for l where
  start: "at r = Starting n \<Longrightarrow> n < length (children r) \<Longrightarrow> p < 0 \<or> 0 < p \<and> p \<notin> known_pids r \<Longrightarrow>
    run_step l r (start_client l n p r)"
| no_clients: "at r = Starting n \<Longrightarrow> \<not> n < length (children r) \<Longrightarrow> run_step l r (r\<lparr>at := Waiting\<rparr>)"
| store: "at r = Recording n p \<Longrightarrow> run_step l r (record_client n p r)"
| leave: "p \<in> set (alive r) \<Longrightarrow>
    run_step l r (r\<lparr>alive := filter (\<lambda>q. q \<noteq> p) (alive r), zombies := zombies r @ [(p, st)]\<rparr>)"
| signal: "zombies r \<noteq> [] \<Longrightarrow> run_step l r (simptest_wait_signal_callback r)"
| finish: "at r = Waiting \<Longrightarrow> wakeup r \<le> 0 \<Longrightarrow> run_step l r (finish_run l r)"

inductive_cases run_stepE [consumes 1, case_names start no_clients store leave signal finish]: "run_step l r r'"

section \<open>The invariant\<close>

definition all_pids :: "run \<Rightarrow> int list" where
  "all_pids r = alive r @ map fst (zombies r) @ map fst (ended r)"

definition pid_of :: "run \<Rightarrow> nat \<Rightarrow> int" where
  "pid_of r i = child_pid (children r ! i)"

definition code_of :: "run \<Rightarrow> nat \<Rightarrow> int" where
  "code_of r i = child_code (children r ! i)"

definition slots :: "run \<Rightarrow> nat set" where
  "slots r = {..<length (children r)}"

text \<open>Every process is a recorded client or the one being recorded, and no pid occurs twice.\<close>

definition pids_ok :: "run \<Rightarrow> bool" where
  "pids_ok r \<longleftrightarrow> distinct (all_pids r) \<and> (\<forall>p \<in> set (all_pids r). 0 < p) \<and>
     (\<forall>i \<in> slots r. pid_of r i \<noteq> 0 \<longrightarrow> pid_of r i \<in> set (all_pids r)) \<and>
     (\<forall>i \<in> slots r. \<forall>j \<in> slots r. pid_of r i = pid_of r j \<and> pid_of r i \<noteq> 0 \<longrightarrow> i = j)"

definition place_ok :: "run \<Rightarrow> bool" where
  "place_ok r \<longleftrightarrow> (case at r of
       Starting n \<Rightarrow> (\<forall>i \<in> slots r. pid_of r i = 0 \<longleftrightarrow> n \<le> i) \<and> set (all_pids r) \<subseteq> pid_of r ` slots r
     | Recording n p \<Rightarrow> n \<in> slots r \<and> (\<forall>i \<in> slots r. pid_of r i = 0 \<longleftrightarrow> n \<le> i) \<and> p \<in> set (all_pids r) \<and>
         p \<notin> pid_of r ` slots r \<and> set (all_pids r) \<subseteq> insert p (pid_of r ` slots r)
     | Waiting \<Rightarrow> (\<forall>i \<in> slots r. pid_of r i \<noteq> 0) \<and> set (all_pids r) \<subseteq> pid_of r ` slots r
     | Ended c \<Rightarrow> True)"

text \<open>\<open>C\<close> are the clients whose end was counted.\<close>

definition counted_ok :: "nat set \<Rightarrow> run \<Rightarrow> bool" where
  "counted_ok C r \<longleftrightarrow> C \<subseteq> slots r \<and> wakeup r = int (length (children r)) - int (card C) \<and>
     (\<forall>i \<in> C. \<exists>st. (pid_of r i, st) \<in> set (ended r) \<and> code_of r i = new_code st 0) \<and>
     (\<forall>i \<in> slots r - C. code_of r i = 0) \<and> (exit_code r = 0 \<longleftrightarrow> (\<forall>i \<in> slots r. code_of r i = 0))"

definition run_inv :: "nat set \<Rightarrow> run \<Rightarrow> bool" where
  "run_inv C r \<longleftrightarrow> pids_ok r \<and> place_ok r \<and> counted_ok C r"

text \<open>The end of client \<open>n\<close> was reported before its pid \<open>p\<close> was stored.\<close>

definition lost :: "nat \<Rightarrow> int \<Rightarrow> nat set \<Rightarrow> run \<Rightarrow> bool" where
  "lost n p C r \<longleftrightarrow> p \<in> fst ` set (ended r) \<and> n \<notin> C \<and> n \<in> slots r \<and> (at r = Recording n p \<or> pid_of r n = p)"

lemma find_child_Some: "find_child p cs = Some i \<Longrightarrow> i < length cs \<and> child_pid (cs ! i) = p"
  by (induction cs arbitrary: i) (auto split: if_splits)

lemma find_child_None: "find_child p cs = None \<Longrightarrow> i < length cs \<Longrightarrow> child_pid (cs ! i) \<noteq> p"
proof (induction cs arbitrary: i)
  case (Cons c cs)
  then show ?case by (cases i) (auto split: if_splits)
qed simp

lemma reap_child_parts [simp]:
  "at (reap_child z r) = at r" "alive (reap_child z r) = alive r" "zombies (reap_child z r) = zombies r"
  "ended (reap_child z r) = z # ended r" "length (children (reap_child z r)) = length (children r)"
  "slots (reap_child z r) = slots r"
  by (auto simp: reap_child_def Let_def slots_def split: prod.splits option.splits)

lemma child_code_keeps_pid [simp]: "child_pid (xs[k := (xs ! k)\<lparr>child_code := c\<rparr>] ! i) = child_pid (xs ! i)"
  by (cases "i = k"; cases "k < length xs") (auto simp: list_update_beyond)

lemma reap_child_pid [simp]: "pid_of (reap_child z r) i = pid_of r i"
  by (auto simp: reap_child_def Let_def pid_of_def split: prod.splits option.splits)

lemma run_parts [simp]:
  "pid_of (r\<lparr>zombies := zs\<rparr>) i = pid_of r i" "slots (r\<lparr>zombies := zs\<rparr>) = slots r"
  "pid_of (r\<lparr>at := a\<rparr>) i = pid_of r i" "slots (r\<lparr>at := a\<rparr>) = slots r"
  "pid_of (r\<lparr>alive := ps\<rparr>) i = pid_of r i" "slots (r\<lparr>alive := ps\<rparr>) = slots r"
  "all_pids (r\<lparr>at := a\<rparr>) = all_pids r"
  by (simp_all add: pid_of_def slots_def all_pids_def)

lemma reap_child_zombies: "reap_child z (r\<lparr>zombies := zs\<rparr>) = (reap_child z r)\<lparr>zombies := zs\<rparr>"
  by (auto simp: reap_child_def Let_def split: prod.splits option.splits)

lemma pids_place_cong:
  assumes "slots r' = slots r" "pid_of r' = pid_of r" "set (all_pids r') = set (all_pids r)"
  shows "distinct (all_pids r') = distinct (all_pids r) \<Longrightarrow> pids_ok r' = pids_ok r"
    and "at r' = at r \<Longrightarrow> place_ok r' = place_ok r"
proof -
  show "distinct (all_pids r') = distinct (all_pids r) \<Longrightarrow> pids_ok r' = pids_ok r"
    unfolding pids_ok_def assms by simp
  show "at r' = at r \<Longrightarrow> place_ok r' = place_ok r"
    unfolding place_ok_def assms by (cases "at r") simp_all
qed

lemma reap_child_inv:
  assumes "run_inv C r" "zombies r = z # zs"
  shows "\<exists>C'. run_inv C' ((reap_child z r)\<lparr>zombies := zs\<rparr>) \<and>
    (\<forall>n p. lost n p C r \<longrightarrow> lost n p C' ((reap_child z r)\<lparr>zombies := zs\<rparr>))"
proof -
  obtain q st where z: "z = (q, st)" by (cases z)
  let ?r = "(reap_child z r)\<lparr>zombies := zs\<rparr>"
  have same: "slots ?r = slots r" "\<And>i. pid_of ?r i = pid_of r i" "at ?r = at r" "ended ?r = z # ended r"
    by simp_all
  have set: "set (all_pids ?r) = set (all_pids r)" "distinct (all_pids ?r) = distinct (all_pids r)"
    using assms(2) by (auto simp: all_pids_def)
  have ok: "pids_ok ?r" "place_ok ?r"
    using assms(1) pids_place_cong [of ?r r, OF same(1) ext set(1)] same set(2) by (auto simp: run_inv_def)
  have q: "0 < q" "q \<notin> fst ` set (ended r)"
    using assms by (auto simp: run_inv_def pids_ok_def all_pids_def z)
  show ?thesis
  proof (cases "find_child q (children r)")
    case None
    then have r: "?r = r\<lparr>zombies := zs, ended := z # ended r\<rparr>" by (simp add: reap_child_def z)
    have "counted_ok C ?r" using assms(1) unfolding r
      by (fastforce simp: run_inv_def counted_ok_def slots_def pid_of_def code_of_def)
    then show ?thesis using ok by (auto simp: run_inv_def lost_def same intro!: exI [of _ C])
  next
    case (Some i)
    then have i: "i \<in> slots r" "pid_of r i = q" using find_child_Some by (auto simp: slots_def pid_of_def)
    have "i \<notin> C"
      using assms(1) i(2) q(2) by (fastforce simp: run_inv_def counted_ok_def image_iff)
    have code: "code_of r i = 0" using assms(1) i(1) \<open>i \<notin> C\<close> by (simp add: run_inv_def counted_ok_def)
    let ?c = "new_code st 0"
    have r: "?r = r\<lparr>ended := z # ended r, children := (children r)[i := (children r ! i)\<lparr>child_code := ?c\<rparr>],
        exit_code := (if ?c \<noteq> 0 \<and> exit_code r = 0 then ?c else exit_code r), wakeup := wakeup r - 1, zombies := zs\<rparr>"
      using Some code by (simp add: reap_child_def z Let_def code_of_def)
    have codes: "code_of ?r j = (if j = i then ?c else code_of r j)" if "j \<in> slots r" for j
      using that unfolding r by (simp add: code_of_def slots_def nth_list_update)
    have "finite C" using assms(1) finite_subset by (auto simp: run_inv_def counted_ok_def slots_def)
    then have card: "card (insert i C) = Suc (card C)" using \<open>i \<notin> C\<close> by simp
    have c: "C \<subseteq> slots r" "wakeup r = int (length (children r)) - int (card C)"
      "\<forall>j \<in> C. \<exists>st. (pid_of r j, st) \<in> set (ended r) \<and> code_of r j = new_code st 0"
      "\<forall>j \<in> slots r - C. code_of r j = 0" "exit_code r = 0 \<longleftrightarrow> (\<forall>j \<in> slots r. code_of r j = 0)"
      using assms(1) unfolding run_inv_def counted_ok_def by blast+
    have "\<forall>j \<in> insert i C. \<exists>st. (pid_of ?r j, st) \<in> set (ended ?r) \<and> code_of ?r j = new_code st 0"
    proof
      fix j assume j: "j \<in> insert i C"
      then have "j \<in> slots r" using i(1) c(1) by auto
      then show "\<exists>st. (pid_of ?r j, st) \<in> set (ended ?r) \<and> code_of ?r j = new_code st 0"
        using codes [of j] j i(2) c(3) unfolding same z by (cases "j = i") auto
    qed
    moreover have "wakeup ?r = int (length (children ?r)) - int (card (insert i C))"
      unfolding r card using c(2) by simp
    moreover have "\<forall>j \<in> slots r - insert i C. code_of ?r j = 0" using codes c(4) by auto
    moreover have "exit_code ?r = 0 \<longleftrightarrow> (\<forall>j \<in> slots r. code_of ?r j = 0)"
    proof -
      have "exit_code ?r = 0 \<longleftrightarrow> ?c = 0 \<and> exit_code r = 0" unfolding r by simp
      also have "\<dots> \<longleftrightarrow> (\<forall>j \<in> slots r. code_of ?r j = 0)" using codes code c(5) i(1) by auto
      finally show ?thesis .
    qed
    ultimately have "counted_ok (insert i C) ?r"
      using i(1) c(1) unfolding counted_ok_def same(1) by blast
    moreover have "lost n p (insert i C) ?r" if l: "lost n p C r" for n p
    proof -
      have "p \<noteq> q" using l q(2) by (auto simp: lost_def)
      moreover have "pid_of r n = 0" if "at r = Recording n p"
        using that assms(1) l by (auto simp: run_inv_def place_ok_def lost_def)
      ultimately have "n \<noteq> i" using l i(2) q(1) by (auto simp: lost_def)
      then show ?thesis using l by (auto simp: lost_def same)
    qed
    ultimately show ?thesis using ok unfolding run_inv_def by blast
  qed
qed

lemma reap_all_inv:
  "run_inv C (r\<lparr>zombies := zs\<rparr>) \<Longrightarrow> \<exists>C'. run_inv C' (fold reap_child zs (r\<lparr>zombies := []\<rparr>)) \<and>
    (\<forall>n p. lost n p C (r\<lparr>zombies := zs\<rparr>) \<longrightarrow> lost n p C' (fold reap_child zs (r\<lparr>zombies := []\<rparr>)))"
proof (induction zs arbitrary: C r)
  case (Cons z zs)
  obtain C1 where C1: "run_inv C1 ((reap_child z r)\<lparr>zombies := zs\<rparr>)"
    "\<forall>n p. lost n p C (r\<lparr>zombies := z # zs\<rparr>) \<longrightarrow> lost n p C1 ((reap_child z r)\<lparr>zombies := zs\<rparr>)"
    using reap_child_inv [OF Cons.prems, of z zs] by (auto simp: reap_child_zombies)
  have "fold reap_child (z # zs) (r\<lparr>zombies := []\<rparr>) = fold reap_child zs ((reap_child z r)\<lparr>zombies := []\<rparr>)"
    by (simp add: reap_child_zombies)
  then show ?case using Cons.IH [OF C1(1)] C1(2) by auto
qed auto

lemma handler_inv:
  assumes "run_inv C r"
  shows "\<exists>C'. run_inv C' (simptest_wait_signal_callback r) \<and>
    (\<forall>n p. lost n p C r \<longrightarrow> lost n p C' (simptest_wait_signal_callback r))"
  using reap_all_inv [where C = C and r = r and zs = "zombies r"] assms by (simp add: simptest_wait_signal_callback_def)

lemma counted_ok_cong:
  assumes "children r' = children r" "wakeup r' = wakeup r" "ended r' = ended r" "exit_code r' = exit_code r"
  shows "counted_ok C r' = counted_ok C r"
  unfolding counted_ok_def slots_def pid_of_def code_of_def assms by simp

lemma known_pids_all: "known_pids r = set (all_pids r)"
  by (auto simp: known_pids_def all_pids_def)

lemma fork_inv:
  assumes "run_inv C r" "at r = Starting n" "n < length (children r)" "0 < p" "p \<notin> known_pids r"
  shows "run_inv C (r\<lparr>at := Recording n p, alive := p # alive r\<rparr>)"
proof -
  let ?r = "r\<lparr>at := Recording n p, alive := p # alive r\<rparr>"
  have all: "all_pids ?r = p # all_pids r" by (simp add: all_pids_def)
  have i: "pids_ok r" "place_ok r" "counted_ok C r" using assms(1) by (simp_all add: run_inv_def)
  have p: "p \<notin> set (all_pids r)" using assms(5) known_pids_all by simp
  have new: "p \<notin> pid_of r ` slots r" using i(1) p assms(4) by (auto simp: pids_ok_def)
  have parts: "slots ?r = slots r" "pid_of ?r = pid_of r" by (auto simp: slots_def pid_of_def)
  have "pids_ok ?r" using i(1) p assms(4) by (auto simp: pids_ok_def all parts)
  moreover have "place_ok ?r"
    using i(2) new assms(2,3) by (auto simp: place_ok_def all parts) (auto simp: slots_def)
  moreover have "counted_ok C ?r" using i(3) counted_ok_cong [of ?r r C] by simp
  ultimately show ?thesis by (simp add: run_inv_def)
qed

lemma store_inv:
  assumes "run_inv C r" "at r = Recording n p"
  shows "run_inv C (record_client n p r)" "lost m q C r \<Longrightarrow> lost m q C (record_client n p r)"
proof -
  let ?r = "record_client n p r"
  have i: "pids_ok r" "place_ok r" "counted_ok C r" using assms(1) by (simp_all add: run_inv_def)
  have n: "n \<in> slots r" "\<forall>i \<in> slots r. pid_of r i = 0 \<longleftrightarrow> n \<le> i" "p \<in> set (all_pids r)" "p \<notin> pid_of r ` slots r"
    "set (all_pids r) \<subseteq> insert p (pid_of r ` slots r)" "0 < p"
    using i(1,2) assms(2) by (auto simp: place_ok_def pids_ok_def)
  have parts: "slots ?r = slots r" "all_pids ?r = all_pids r" "wakeup ?r = wakeup r" "ended ?r = ended r"
    "exit_code ?r = exit_code r" "length (children ?r) = length (children r)"
    "at ?r = (if n + 1 < length (children r) then Starting (n + 1) else Waiting)"
    by (simp_all add: record_client_def slots_def all_pids_def)
  have pid: "pid_of ?r j = (if j = n then p else pid_of r j)" "code_of ?r j = code_of r j" if "j \<in> slots r" for j
    using that by (cases "j = n"; simp add: record_client_def pid_of_def code_of_def slots_def)+
  have old: "distinct (all_pids r)" "\<forall>p \<in> set (all_pids r). 0 < p"
    "\<And>j. j \<in> slots r \<Longrightarrow> pid_of r j \<noteq> 0 \<Longrightarrow> pid_of r j \<in> set (all_pids r)"
    "\<And>j k. j \<in> slots r \<Longrightarrow> k \<in> slots r \<Longrightarrow> pid_of r j = pid_of r k \<Longrightarrow> pid_of r j \<noteq> 0 \<Longrightarrow> j = k"
    using i(1) unfolding pids_ok_def by blast+
  have "pid_of ?r j \<in> set (all_pids r)" if "j \<in> slots r" "pid_of ?r j \<noteq> 0" for j
    using that n(3) old(3) [of j] pid(1) [of j] by (cases "j = n") auto
  moreover have "j = k" if "j \<in> slots r" "k \<in> slots r" "pid_of ?r j = pid_of ?r k" "pid_of ?r j \<noteq> 0" for j k
  proof -
    have "p \<noteq> pid_of r j" "p \<noteq> pid_of r k" using that(1,2) n(4) by auto
    moreover have "(if j = n then p else pid_of r j) = (if k = n then p else pid_of r k)" "(if j = n then p else pid_of r j) \<noteq> 0"
      using that(3,4) unfolding pid(1) [OF that(1)] pid(1) [OF that(2)] .
    ultimately show ?thesis
      using old(4) [OF that(1,2)] by (simp split: if_splits)
  qed
  ultimately have pids: "pids_ok ?r"
    unfolding pids_ok_def parts using old(1,2) by blast
  have covered: "set (all_pids r) \<subseteq> pid_of ?r ` slots r"
  proof
    fix q assume q: "q \<in> set (all_pids r)"
    show "q \<in> pid_of ?r ` slots r"
    proof (cases "q = p")
      case True
      then show ?thesis using pid(1) [OF n(1)] n(1) by (intro image_eqI [of _ _ n]) simp_all
    next
      case False
      then obtain j where j: "j \<in> slots r" "q = pid_of r j" using q n(5) by auto
      have "pid_of r n = 0" using n(1,2) by simp
      then have "j \<noteq> n" using j(2) q old(2) by auto
      then show ?thesis using pid(1) [OF j(1)] j by (intro image_eqI [of _ _ j]) simp_all
    qed
  qed
  have "place_ok ?r"
  proof (cases "n + 1 < length (children r)")
    case True
    moreover have "pid_of ?r i = 0 \<longleftrightarrow> n + 1 \<le> i" if "i \<in> slots r" for i
      unfolding pid(1) [OF that] using n(2) [rule_format, OF that] n(6) by auto
    ultimately show ?thesis using covered by (simp add: place_ok_def parts)
  next
    case False
    have "pid_of ?r i \<noteq> 0" if "i \<in> slots r" for i
      unfolding pid(1) [OF that] using False n(2) [rule_format, OF that] n(6) that by (auto simp: slots_def)
    then show ?thesis using False covered by (simp add: place_ok_def parts)
  qed
  moreover have "n \<notin> C"
  proof
    assume "n \<in> C"
    then obtain st where "(pid_of r n, st) \<in> set (ended r)" using i(3) unfolding counted_ok_def by blast
    then have "pid_of r n \<in> fst ` set (ended r)" by (metis fst_conv imageI)
    then have "0 < pid_of r n" using old(2) by (simp add: all_pids_def)
    then show False using n(1,2) by auto
  qed
  moreover have "counted_ok C ?r"
  proof -
    have c: "C \<subseteq> slots r" "\<And>j. j \<in> C \<Longrightarrow> \<exists>st. (pid_of r j, st) \<in> set (ended r) \<and> code_of r j = new_code st 0"
      using i(3) unfolding counted_ok_def by blast+
    have "\<exists>st. (pid_of ?r j, st) \<in> set (ended r) \<and> code_of ?r j = new_code st 0" if "j \<in> C" for j
    proof -
      have "j \<in> slots r" "j \<noteq> n" using that c(1) \<open>n \<notin> C\<close> by auto
      then have "pid_of ?r j = pid_of r j" "code_of ?r j = code_of r j" using pid by simp_all
      then show ?thesis using c(2) [OF that] by simp
    qed
    moreover have "(\<forall>j \<in> slots r - C. code_of ?r j = 0) = (\<forall>j \<in> slots r - C. code_of r j = 0)"
      "(\<forall>j \<in> slots r. code_of ?r j = 0) = (\<forall>j \<in> slots r. code_of r j = 0)" using pid(2) by auto
    ultimately show ?thesis using i(3) unfolding counted_ok_def parts by simp
  qed
  ultimately show "run_inv C ?r" using pids by (simp add: run_inv_def)
  assume l: "lost m q C r"
  then have m: "m \<in> slots r" "q \<in> set (all_pids r)" by (auto simp: lost_def all_pids_def)
  have "pid_of r n = 0" "0 < q" using n(1,2) old(2) m(2) by simp_all
  then have "pid_of ?r m = q"
    unfolding pid(1) [OF m(1)] using l assms(2) by (auto simp: lost_def)
  then show "lost m q C ?r" using l m(1) by (simp add: lost_def parts)
qed

lemma leave_inv:
  assumes "run_inv C r" "p \<in> set (alive r)"
  shows "run_inv C (r\<lparr>alive := filter (\<lambda>q. q \<noteq> p) (alive r), zombies := zombies r @ [(p, st)]\<rparr>)"
proof -
  let ?r = "r\<lparr>alive := filter (\<lambda>q. q \<noteq> p) (alive r), zombies := zombies r @ [(p, st)]\<rparr>"
  have "set (all_pids ?r) = set (all_pids r)" using assms(2) by (auto simp: all_pids_def)
  moreover have "distinct (all_pids ?r) = distinct (all_pids r)"
    using assms by (auto simp: all_pids_def run_inv_def pids_ok_def)
  moreover have "pid_of ?r = pid_of r" by (auto simp: pid_of_def)
  moreover have "slots ?r = slots r" "at ?r = at r" by (simp_all add: slots_def)
  ultimately have "pids_ok ?r" "place_ok ?r"
    using assms(1) pids_place_cong [of ?r r] by (auto simp: run_inv_def)
  then show ?thesis using assms(1) counted_ok_cong [of ?r r C] by (simp add: run_inv_def)
qed

lemma move_inv:
  assumes "run_inv C r" "place_ok (r\<lparr>at := a\<rparr>)"
  shows "run_inv C (r\<lparr>at := a\<rparr>)"
proof -
  have "pids_ok (r\<lparr>at := a\<rparr>) = pids_ok r" by (rule pids_place_cong) auto
  then show ?thesis using assms counted_ok_cong [of "r\<lparr>at := a\<rparr>" r C] by (simp add: run_inv_def)
qed

lemma step_inv:
  assumes "run_step l r r'" "run_inv C r"
  shows "\<exists>C'. run_inv C' r' \<and> (\<forall>n p. lost n p C r \<longrightarrow> lost n p C' r')"
  using assms(1)
proof (cases rule: run_stepE)
  case (start n p)
  have end_ok: "run_inv C (r\<lparr>at := Ended c\<rparr>)" for c by (rule move_inv [OF assms(2)]) (simp add: place_ok_def)
  have "run_inv C r'" unfolding start(1) start_client_def
    using end_ok fork_inv [OF assms(2) start(2,3)] start(4) by auto
  moreover have "slots r' = slots r" "pid_of r' = pid_of r" "ended r' = ended r"
    by (auto simp: start(1) start_client_def slots_def pid_of_def)
  ultimately show ?thesis using start(2) by (auto simp: lost_def)
next
  case (no_clients n)
  then have "place_ok (r\<lparr>at := Waiting\<rparr>)" using assms(2) by (auto simp: place_ok_def run_inv_def slots_def)
  then have "run_inv C r'" unfolding no_clients(1) by (rule move_inv [OF assms(2)])
  then show ?thesis using no_clients by (auto simp: lost_def)
next
  case (store n p)
  then show ?thesis using store_inv [OF assms(2)] by blast
next
  case (leave p st)
  then have "run_inv C r'" using leave_inv [OF assms(2)] by blast
  then show ?thesis using leave(1) by (intro exI [of _ C]) (auto simp: lost_def slots_def pid_of_def)
next
  case signal
  then show ?thesis using handler_inv [OF assms(2)] by blast
next
  case finish
  then have "run_inv C r'"
    unfolding finish_run_def using assms(2) by (auto intro!: move_inv simp: place_ok_def)
  then show ?thesis using finish by (auto simp: lost_def finish_run_def)
qed

lemma steps_inv:
  assumes "(run_step l)\<^sup>*\<^sup>* r r'" "run_inv C r"
  shows "\<exists>C'. run_inv C' r' \<and> (\<forall>n p. lost n p C r \<longrightarrow> lost n p C' r')"
  using assms
proof (induction rule: rtranclp_induct)
  case (step y z)
  then show ?case using step_inv [of l y z] by (metis (no_types, opaque_lifting))
qed auto

lemma start_inv: "simptest_start l n = Inr r \<Longrightarrow> run_inv {} r"
  by (auto simp: simptest_start_def run_inv_def pids_ok_def place_ok_def counted_ok_def all_pids_def slots_def
      pid_of_def code_of_def split: if_splits)

interpretation children: step_relation "run_step l" "\<lambda>_. True" "\<lambda>r r'. length (children r') = length (children r)" for l
proof unfold_locales
  have "length (children (fold reap_child zs r)) = length (children r)" for zs r by (induction zs arbitrary: r) auto
  then show "True \<and> length (children t) = length (children s)" if "run_step l s t" for s t
    using that by (auto elim!: run_stepE simp: start_client_def record_client_def simptest_wait_signal_callback_def finish_run_def)
qed auto

lemmas children_length = children.steps_keep [OF _ TrueI, THEN conjunct2]

lemma start_length: "simptest_start l n = Inr r \<Longrightarrow> length (children r) = n"
  by (auto simp: simptest_start_def split: if_splits)

section \<open>Properties\<close>

text \<open>
  C18: In every interleaving, when the loop of the main thread on \<open>wakeup\<close> ends, every client has
  ended and has been waited for, its code is kept, and the server exits with 0 exactly when all
  clients did (and the library is finalized without an error).
\<close>

theorem simptest_waits_for_all:
  assumes "simptest_start l n = Inr r0" "(run_step l)\<^sup>*\<^sup>* r0 r" "at r = Waiting" "wakeup r \<le> 0"
  shows "alive r = [] \<and> zombies r = [] \<and>
    (\<forall>i < n. \<exists>st. (pid_of r i, st) \<in> set (ended r) \<and> code_of r i = new_code st 0) \<and>
    at (finish_run l r) = Ended (done_code l (exit_code r)) \<and>
    (done_code l (exit_code r) = 0 \<longleftrightarrow> end_rc l = 0 \<and> (\<forall>i < n. code_of r i = 0))"
proof -
  obtain C where inv: "pids_ok r" "place_ok r" "counted_ok C r"
    using steps_inv [OF assms(2) start_inv [OF assms(1)]] by (auto simp: run_inv_def)
  have slots: "slots r = {..<n}"
    using children_length [OF assms(2)] start_length [OF assms(1)] by (simp add: slots_def)
  have C: "C \<subseteq> {..<n}" "wakeup r = int n - int (card C)"
    "\<And>i. i \<in> C \<Longrightarrow> \<exists>st. (pid_of r i, st) \<in> set (ended r) \<and> code_of r i = new_code st 0"
    "exit_code r = 0 \<longleftrightarrow> (\<forall>i \<in> {..<n}. code_of r i = 0)"
    using inv(3) slots unfolding counted_ok_def by (auto simp: slots_def)
  have all: "C = {..<n}"
    using C(1,2) assms(4) by (intro card_subset_eq) (auto intro: antisym dest: card_mono [OF finite_lessThan])
  have "set (all_pids r) \<subseteq> pid_of r ` {..<n}" using inv(2) assms(3) by (simp add: place_ok_def slots)
  moreover have "pid_of r i \<in> fst ` set (ended r)" if "i < n" for i
    using C(3) [of i] that all by (force simp: image_iff)
  ultimately have "set (all_pids r) \<subseteq> fst ` set (ended r)" by auto
  moreover have "set (alive r) \<union> fst ` set (zombies r) \<subseteq> set (all_pids r)" by (auto simp: all_pids_def)
  moreover have "(set (alive r) \<union> fst ` set (zombies r)) \<inter> fst ` set (ended r) = {}"
    using inv(1) by (auto simp: pids_ok_def all_pids_def)
  ultimately have "set (alive r) \<union> fst ` set (zombies r) = {}"
    by (metis (no_types, lifting) inf.absorb1 subset_trans)
  then have "alive r = []" "zombies r = []" by simp_all
  moreover have "\<forall>i < n. \<exists>st. (pid_of r i, st) \<in> set (ended r) \<and> code_of r i = new_code st 0"
    using C(3) all by blast
  moreover have "at (finish_run l r) = Ended (done_code l (exit_code r))"
    using assms(4) by (simp add: finish_run_def)
  moreover have "done_code l (exit_code r) = 0 \<longleftrightarrow> end_rc l = 0 \<and> (\<forall>i < n. code_of r i = 0)"
    using C(4) by (auto simp: done_code_def)
  ultimately show ?thesis by blast
qed

text \<open>
  C37: A client that ends and is waited for before the main thread has stored its pid is never
  counted: \<open>wakeup\<close> stays positive in every continuation, so the server never leaves its
  waiting loop.
\<close>

theorem lost_client_hangs:
  assumes "simptest_start l n = Inr r0" "(run_step l)\<^sup>*\<^sup>* r0 r" "at r = Recording i p" "p \<in> fst ` set (ended r)"
    "(run_step l)\<^sup>*\<^sup>* r r'"
  shows "0 < wakeup r' \<and> (at r' = Waiting \<longrightarrow> at (finish_run l r') = Waiting)"
proof -
  obtain C where C: "run_inv C r" using steps_inv [OF assms(2) start_inv [OF assms(1)]] by blast
  have i: "i \<in> slots r" "pid_of r i = 0" using C assms(3) by (auto simp: run_inv_def place_ok_def)
  have "i \<notin> C"
  proof
    assume "i \<in> C"
    then obtain st where "(pid_of r i, st) \<in> set (ended r)" using C unfolding run_inv_def counted_ok_def by blast
    then have "pid_of r i \<in> set (all_pids r)" unfolding all_pids_def by (simp add: rev_image_eqI)
    then show False using C i(2) unfolding run_inv_def pids_ok_def by auto
  qed
  then have "lost i p C r" using assms(3,4) i(1) by (simp add: lost_def)
  then obtain C' where C': "run_inv C' r'" "lost i p C' r'" using steps_inv [OF assms(5) C] by blast
  then have "C' \<subset> slots r'" by (auto simp: run_inv_def counted_ok_def lost_def)
  then have "card C' < length (children r')" using psubset_card_mono [of "slots r'" C'] by (simp add: slots_def)
  then have "0 < wakeup r'" using C'(1) by (simp add: run_inv_def counted_ok_def)
  then show ?thesis by (simp add: finish_run_def)
qed

definition good_library :: library where
  "good_library = \<lparr>init_rc = 0, handler_status = 0, thread_rc = 0, collect_rc = 0, collect_status = 0,
     fork_setup_rc = (\<lambda>n. 0), register_client_rc = (\<lambda>n. 0), end_rc = 0\<rparr>"

definition one_client :: run where
  "one_client = \<lparr>at = Starting 0, children = [\<lparr>child_code = 0, child_pid = 0\<rparr>], wakeup = 1, exit_code = 0,
     alive = [], zombies = [], ended = []\<rparr>"

lemma one_client_start: "simptest_start good_library 1 = Inr one_client"
  by (simp add: simptest_start_def good_library_def one_client_def)

lemma one_client_forked: "run_step good_library one_client (one_client\<lparr>at := Recording 0 5, alive := [5]\<rparr>)"
  using run_step.start [of one_client 0 5 good_library]
  by (simp add: one_client_def known_pids_def start_client_def good_library_def)

theorem simptest_waits_for_all_witness:
  "\<exists>r. (run_step good_library)\<^sup>*\<^sup>* one_client r \<and> alive r = [] \<and> done_code good_library (exit_code r) \<noteq> 0"
proof -
  let ?r1 = "one_client\<lparr>at := Recording 0 5, alive := [5]\<rparr>"
  let ?r2 = "record_client 0 5 ?r1"
  let ?r3 = "?r2\<lparr>alive := [], zombies := [(5, Exited_with 3)]\<rparr>"
  let ?r4 = "simptest_wait_signal_callback ?r3"
  have s: "run_step good_library ?r1 ?r2" "run_step good_library ?r2 ?r3" "run_step good_library ?r3 ?r4"
    using run_step.store [of ?r1 0 5 good_library] run_step.leave [of 5 ?r2 good_library "Exited_with 3"]
      run_step.signal [of ?r3 good_library]
    by (simp_all add: record_client_def one_client_def)
  then have "(run_step good_library)\<^sup>*\<^sup>* one_client ?r4"
    using one_client_forked by (meson converse_rtranclp_into_rtranclp rtranclp.rtrancl_refl)
  moreover have "at ?r4 = Waiting" "wakeup ?r4 \<le> 0" "code_of ?r4 0 = 3"
    by (simp_all add: simptest_wait_signal_callback_def reap_child_def record_client_def one_client_def new_code_def code_of_def)
  ultimately show ?thesis
    using simptest_waits_for_all [OF one_client_start] by (metis less_one zero_neq_numeral)
qed

theorem lost_client_hangs_witness:
  "\<exists>r'. at r' = Waiting \<and> (run_step good_library)\<^sup>*\<^sup>* one_client r' \<and> 0 < wakeup r' \<and>
    (\<forall>r''. \<not> run_step good_library r' r'')"
proof -
  let ?r1 = "one_client\<lparr>at := Recording 0 5, alive := [5]\<rparr>"
  let ?r2 = "?r1\<lparr>alive := [], zombies := [(5, Exited_with 0)]\<rparr>"
  let ?r3 = "simptest_wait_signal_callback ?r2"
  let ?r4 = "record_client 0 5 ?r3"
  have s: "run_step good_library ?r1 ?r2" "run_step good_library ?r2 ?r3"
    using run_step.leave [of 5 ?r1 good_library "Exited_with 0"] run_step.signal [of ?r2 good_library]
    by (simp_all add: one_client_def)
  have r3: "?r3 = one_client\<lparr>at := Recording 0 5, ended := [(5, Exited_with 0)]\<rparr>"
    by (simp add: simptest_wait_signal_callback_def reap_child_def one_client_def)
  then have s4: "run_step good_library ?r3 ?r4" using run_step.store [of ?r3 0 5 good_library] by simp
  have reach: "(run_step good_library)\<^sup>*\<^sup>* one_client ?r3"
    using one_client_forked s by (meson converse_rtranclp_into_rtranclp rtranclp.rtrancl_refl)
  have hang: "0 < wakeup ?r4"
    using lost_client_hangs [OF one_client_start reach, of 0 5 ?r4] s4 r3 by (auto simp: one_client_def)
  have r4: "at ?r4 = Waiting" "alive ?r4 = []" "zombies ?r4 = []"
    unfolding r3 by (simp_all add: record_client_def one_client_def)
  then have "\<not> run_step good_library ?r4 r''" for r''
    using hang by (auto elim!: run_stepE)
  then show ?thesis
    using rtranclp.rtrancl_into_rtrancl [OF reach s4] hang r4(1) by blast
qed

end
