(* ===== verification/Pmi.thy ===== *)
theory Pmi
  imports CString
begin

text \<open>
  The client of the PMI-1 library, src/unit/pmi_client.c: the static variables of the program, its
  seven test items and its main program. The library (pmi.h) is not under src/: it is a record of
  functions on a state of its own, one for each call, which return the status, what the call wrote
  to its output parameter (\<open>None\<close> if it left it alone) and the state. The number of calls of
  \<open>log_fatal\<close> is kept, the texts printed are not. The result \<open>None\<close> of an item is a crash.
\<close>

section \<open>The library and the static variables\<close>

record 'l pmi =
  PMI_SUCCESS :: int
  PMI_FAIL :: int
  PMI_TRUE :: int
  PMI_FALSE :: int
  PMI_Init :: "'l \<Rightarrow> int \<times> int option \<times> 'l"
  PMI_Finalize :: "'l \<Rightarrow> int \<times> unit \<times> 'l"
  PMI_Initialized :: "'l \<Rightarrow> int \<times> int \<times> 'l"
  PMI_Get_size :: "'l \<Rightarrow> int \<times> int option \<times> 'l"
  PMI_Get_rank :: "'l \<Rightarrow> int \<times> int option \<times> 'l"
  PMI_Get_appnum :: "'l \<Rightarrow> int \<times> int option \<times> 'l"
  PMI_Get_universe_size :: "'l \<Rightarrow> int \<times> int option \<times> 'l"
  PMI_Get_id_length_max :: "'l \<Rightarrow> int \<times> int option \<times> 'l"
  PMI_Get_id :: "nat \<Rightarrow> 'l \<Rightarrow> int \<times> string option \<times> 'l"
  PMI_Get_kvs_domain_id :: "nat \<Rightarrow> 'l \<Rightarrow> int \<times> string option \<times> 'l"
  PMI_KVS_Get_my_name :: "nat \<Rightarrow> 'l \<Rightarrow> int \<times> string option \<times> 'l"
  PMI_KVS_Get_key_length_max :: "'l \<Rightarrow> int \<times> int option \<times> 'l"
  PMI_KVS_Get_value_length_max :: "'l \<Rightarrow> int \<times> int option \<times> 'l"
  PMI_Get_clique_size :: "'l \<Rightarrow> int \<times> int option \<times> 'l"
  PMI_Get_clique_ranks :: "nat \<Rightarrow> 'l \<Rightarrow> int \<times> int list \<times> 'l"
  PMI_KVS_Put :: "string \<Rightarrow> string \<Rightarrow> string \<Rightarrow> 'l \<Rightarrow> int \<times> unit \<times> 'l"
  PMI_KVS_Commit :: "string \<Rightarrow> 'l \<Rightarrow> int \<times> unit \<times> 'l"
  PMI_Barrier :: "'l \<Rightarrow> int \<times> unit \<times> 'l"
  PMI_KVS_Get :: "string \<Rightarrow> string \<Rightarrow> nat \<Rightarrow> 'l \<Rightarrow> int \<times> string \<times> 'l"

record 'l pmi_client =
  lib :: 'l                               \<comment> \<open>the state of the library in this process\<close>
  spawned :: int
  world_size :: int                       \<comment> \<open>\<open>size\<close>\<close>
  world_rank :: int                       \<comment> \<open>\<open>rank\<close>\<close>
  appnum :: int
  jobid :: string
  legacy :: bool                          \<comment> \<open>\<open>_legacy\<close>\<close>
  rands :: "int list"                     \<comment> \<open>what \<open>rand\<close> will return, then 0\<close>
  fatals :: nat                           \<comment> \<open>calls of \<open>log_fatal\<close> so far\<close>

type_synonym 'l item_result = "(int \<times> 'l pmi_client) option"

definition jobid_size :: nat where
  "jobid_size = 255"

lemma lib_simps:
  "lib (c\<lparr>lib := l\<rparr>) = l" "c\<lparr>lib := l, lib := m\<rparr> = c\<lparr>lib := m\<rparr>" "world_size (c\<lparr>lib := l\<rparr>) = world_size c"
  by simp_all

section \<open>Checks and calls\<close>

definition log_fatal :: "'l pmi_client \<Rightarrow> 'l pmi_client" where
  "log_fatal c = c\<lparr>fatals := fatals c + 1\<rparr>"

text \<open>A failed \<open>log_assert\<close> logs and sets \<open>rc\<close>, which the next call overwrites.\<close>

definition log_assert :: "bool \<Rightarrow> int \<Rightarrow> 'l pmi_client \<Rightarrow> int \<times> 'l pmi_client" where
  "log_assert e rc c = (if e then (rc, c) else (- 1, log_fatal c))"

definition random_value :: "int \<Rightarrow> int \<Rightarrow> 'l pmi_client \<Rightarrow> int \<times> 'l pmi_client" where
  "random_value min_value max_value c =
     (if min_value \<ge> max_value then (min_value, c)
      else (case rands c of
              [] \<Rightarrow> (min_value, c)
            | r # rs \<Rightarrow> (min_value + r mod (max_value - min_value + 1), c\<lparr>rands := rs\<rparr>)))"

lemma random_value_range:
  assumes "random_value a b c = (v, c')"
  shows "a \<le> v \<and> (v = a \<or> v \<le> b) \<and> c' = c\<lparr>rands := rands c'\<rparr>"
proof -
  have "a + x mod (b - a + 1) \<le> b \<and> a \<le> a + x mod (b - a + 1)" if "a < b" for x
    using that pos_mod_bound [of "b - a + 1" x] pos_mod_sign [of "b - a + 1" x] by linarith
  then show ?thesis using assms by (auto simp: random_value_def split: if_splits list.splits)
qed

text \<open>The value of a variable after a call that may have written it.\<close>

definition out :: "'a option \<Rightarrow> 'a \<Rightarrow> 'a" where
  "out v old = (case v of None \<Rightarrow> old | Some x \<Rightarrow> x)"

text \<open>\<open>if (PMI_SUCCESS != (rc = \<dots>)) { log_fatal(\<dots>); return rc; }\<close>, then the rest of the function.\<close>

definition on_success ::
  "int \<Rightarrow> int \<times> 'a \<times> 'l \<Rightarrow> 'l pmi_client \<Rightarrow> ('a \<Rightarrow> int \<Rightarrow> 'l pmi_client \<Rightarrow> 'l item_result) \<Rightarrow> 'l item_result" where
  "on_success success r c rest =
     (case r of (rc, v, l) \<Rightarrow>
        (let c = c\<lparr>lib := l\<rparr> in if rc \<noteq> success then Some (rc, log_fatal c) else rest v rc c))"


section \<open>Test items\<close>

text \<open>The three names of item 1 are the same block around another call.\<close>

definition check_name ::
  "'l pmi \<Rightarrow> (nat \<Rightarrow> 'l \<Rightarrow> int \<times> string option \<times> 'l) \<Rightarrow> 'l pmi_client
     \<Rightarrow> (int \<Rightarrow> 'l pmi_client \<Rightarrow> 'l item_result) \<Rightarrow> 'l item_result" where
  "check_name P get_name c rest =
     (let c = c\<lparr>jobid := ''test_item1''\<rparr>
      in on_success (PMI_SUCCESS P) (get_name jobid_size (lib c)) c (\<lambda>v rc c.
           let c = c\<lparr>jobid := out v (jobid c)\<rparr>;
               (rc, c) = log_assert (jobid c \<noteq> ''test_item1'') rc c
           in rest rc c))"

definition pmi_test_item1 :: "'l pmi \<Rightarrow> 'l pmi_client \<Rightarrow> 'l item_result" where
  "pmi_test_item1 P c =
     (let ok = PMI_SUCCESS P;
          (rc, c) = log_assert (spawned c = PMI_FALSE P \<or> spawned c = PMI_TRUE P) 0 c
      in on_success ok (PMI_Get_size P (lib c)) c (\<lambda>v rc c.
         let c = c\<lparr>world_size := out v (world_size c)\<rparr>;
             (rc, c) = log_assert (world_size c \<ge> 0) rc c
         in on_success ok (PMI_Get_rank P (lib c)) c (\<lambda>v rc c.
         let c = c\<lparr>world_rank := out v (world_rank c)\<rparr>;
             (rc, c) = log_assert (world_rank c \<ge> 0) rc c;
             (rc, c) = log_assert (world_rank c < world_size c) rc c
         in on_success ok (PMI_Get_appnum P (lib c)) c (\<lambda>v rc c.
         let c = c\<lparr>appnum := out v (appnum c)\<rparr>;
             (val, c) = random_value 10 100 c
         in on_success ok (PMI_Get_universe_size P (lib c)) c (\<lambda>v rc c.
         let (rc, c) = log_assert (world_size c = out v val) rc c;
             (val, c) = random_value 10 100 c
         in on_success ok (PMI_Get_id_length_max P (lib c)) c (\<lambda>v rc c.
         let (rc, c) = (if \<not> legacy c then log_assert (int jobid_size = out v val) rc c else (rc, c))
         in check_name P (PMI_Get_id P) c (\<lambda>rc c.
            check_name P (PMI_Get_kvs_domain_id P) c (\<lambda>rc c.
            check_name P (PMI_KVS_Get_my_name P) c (\<lambda>rc c. Some (rc, c))))))))))"

definition pmi_test_item2 :: "'l pmi \<Rightarrow> 'l pmi_client \<Rightarrow> 'l item_result" where
  "pmi_test_item2 P c =
     on_success (PMI_SUCCESS P) (PMI_Initialized P (lib c)) c (\<lambda>val rc c.
       Some (log_assert (PMI_TRUE P = val) rc c))"

definition pmi_test_item3 :: "'l pmi \<Rightarrow> 'l pmi_client \<Rightarrow> 'l item_result" where
  "pmi_test_item3 P c =
     (let (val, c) = random_value 10 100 c
      in on_success (PMI_SUCCESS P) (PMI_KVS_Get_key_length_max P (lib c)) c (\<lambda>v rc c.
         let (rc, c) = (if \<not> legacy c then log_assert (511 = out v val) rc c else (rc, c));
             (val, c) = random_value 10 100 c
         in on_success (PMI_SUCCESS P) (PMI_KVS_Get_value_length_max P (lib c)) c (\<lambda>v rc c.
            Some (if \<not> legacy c then log_assert (4096 = out v val) rc c else (rc, c)))))"

text \<open>A negative size of the clique makes \<open>alloca\<close> and \<open>memset\<close> run out of the stack.\<close>

definition pmi_test_item4 :: "'l pmi \<Rightarrow> 'l pmi_client \<Rightarrow> 'l item_result" where
  "pmi_test_item4 P c =
     on_success (PMI_SUCCESS P) (PMI_Get_clique_size P (lib c)) c (\<lambda>v rc c.
       let val = out v (- 1);
           (rc, c) = log_assert (0 < val \<and> val \<le> world_size c) rc c
       in if val < 0 then None
          else on_success (PMI_SUCCESS P) (PMI_Get_clique_ranks P (nat val) (lib c)) c (\<lambda>written rc c.
            let ranks = take (nat val) (written @ replicate (nat val) (- 1))
            in if \<exists>r \<in> set ranks. \<not> (0 \<le> r \<and> r < world_size c) then Some (rc, log_fatal c)
               else Some (rc, c)))"

fun attribute_loop :: "'l pmi \<Rightarrow> nat \<Rightarrow> string list \<Rightarrow> int \<Rightarrow> 'l pmi_client \<Rightarrow> 'l item_result" where
  "attribute_loop P val_size [] rc c = Some (rc, c)"
| "attribute_loop P val_size (key # keys) rc c =
     on_success (PMI_SUCCESS P) (PMI_KVS_Get P (jobid c) key val_size (lib c)) c (\<lambda>_ rc c.
       attribute_loop P val_size keys rc c)"

definition pmi_test_item5 :: "'l pmi \<Rightarrow> 'l pmi_client \<Rightarrow> 'l item_result" where
  "pmi_test_item5 P c =
     (if \<not> legacy c then Some (0, c)
      else on_success (PMI_SUCCESS P) (PMI_KVS_Get_value_length_max P (lib c)) c (\<lambda>v rc c.
        let val_size = out v 0
        in if val_size < 0 then None
           else attribute_loop P (nat val_size) [''PMI_process_mapping''] rc c))"

text \<open>\<open>file\<close> is the value of \<open>__FILE__\<close>.\<close>

definition pmi_test_item6 :: "'l pmi \<Rightarrow> string \<Rightarrow> 'l pmi_client \<Rightarrow> 'l item_result" where
  "pmi_test_item6 P file c =
     on_success (PMI_SUCCESS P) (PMI_KVS_Put P (jobid c) ''test_item6'' file (lib c)) c (\<lambda>_ rc c.
     on_success (PMI_SUCCESS P) (PMI_KVS_Get P (jobid c) ''test_item6'' 100 (lib c)) c (\<lambda>val rc c.
       Some (log_assert (file = val) rc c)))"

section \<open>The exchange of keys\<close>

definition key_of :: "int \<Rightarrow> string" where
  "key_of i = ''KEY-'' @ decimal i"

definition value_of :: "int \<Rightarrow> string" where
  "value_of i = ''VALUE-'' @ decimal i"

text \<open>The loop over all ranks that puts one key. The result \<open>Some rc\<close> means that the function returns.\<close>

fun put_loop ::
  "int \<Rightarrow> (string \<Rightarrow> string \<Rightarrow> 'l \<Rightarrow> int \<times> unit \<times> 'l) \<Rightarrow> int list \<Rightarrow> 'l pmi_client \<Rightarrow> int option \<times> 'l pmi_client" where
  "put_loop ok put [] c = (None, c)"
| "put_loop ok put (i # ks) c =
     (if i = world_rank c
      then (case put (key_of i) (value_of i) (lib c) of (rc, _, l) \<Rightarrow>
              (if rc \<noteq> ok then (Some rc, log_fatal (c\<lparr>lib := l\<rparr>)) else put_loop ok put ks (c\<lparr>lib := l\<rparr>)))
      else put_loop ok put ks c)"

text \<open>The loop that reads the keys of all ranks; \<open>checks\<close> are the assertions on what was read.\<close>

fun get_loop ::
  "int \<Rightarrow> (int \<Rightarrow> 'l \<Rightarrow> int \<times> 'a \<times> 'l) \<Rightarrow> (int \<Rightarrow> 'a \<Rightarrow> int \<Rightarrow> 'l pmi_client \<Rightarrow> int \<times> 'l pmi_client)
     \<Rightarrow> int list \<Rightarrow> int \<Rightarrow> 'l pmi_client \<Rightarrow> 'l item_result" where
  "get_loop ok get checks [] rc c = Some (rc, c)"
| "get_loop ok get checks (i # ks) rc c =
     on_success ok (get i (lib c)) c (\<lambda>v rc c.
       let (rc, c) = checks i v rc c in get_loop ok get checks ks rc c)"

definition pmi_item7_puts :: "'l pmi \<Rightarrow> 'l pmi_client \<Rightarrow> int \<times> 'l pmi_client" where
  "pmi_item7_puts P c =
     (case put_loop (PMI_SUCCESS P) (PMI_KVS_Put P (jobid c)) [0..world_size c - 1] c of
        (Some rc, c) \<Rightarrow> (rc, c)
      | (None, c) \<Rightarrow>
          (case PMI_KVS_Commit P (jobid c) (lib c) of (rc, _, l) \<Rightarrow>
             (rc, if rc \<noteq> PMI_SUCCESS P then log_fatal (c\<lparr>lib := l\<rparr>) else c\<lparr>lib := l\<rparr>)))"

definition pmi_item7_gets :: "'l pmi \<Rightarrow> int \<Rightarrow> 'l pmi_client \<Rightarrow> 'l item_result" where
  "pmi_item7_gets P rc c =
     get_loop (PMI_SUCCESS P) (\<lambda>i. PMI_KVS_Get P (jobid c) (key_of i) 100)
       (\<lambda>i val. log_assert (value_of i = val)) [0..world_size c - 1] rc c"

definition pmi_test_item7 :: "'l pmi \<Rightarrow> 'l pmi_client \<Rightarrow> 'l item_result" where
  "pmi_test_item7 P c =
     (case pmi_item7_puts P c of (rc, c) \<Rightarrow>
        (if rc \<noteq> PMI_SUCCESS P then Some (rc, c)
         else on_success (PMI_SUCCESS P) (PMI_Barrier P (lib c)) c (\<lambda>_. pmi_item7_gets P)))"

section \<open>The main program\<close>

text \<open>Item 1 always runs, the others when no item was chosen (0) or they were.\<close>

fun run_items ::
  "int \<Rightarrow> (int \<times> ('l pmi_client \<Rightarrow> 'l item_result)) list \<Rightarrow> int \<Rightarrow> 'l pmi_client \<Rightarrow> 'l item_result" where
  "run_items ti [] ret c = Some (ret, c)"
| "run_items ti ((k, item) # items) ret c =
     (if k = 1 \<or> ti = 0 \<or> k = ti
      then (case item c of
              None \<Rightarrow> None
            | Some (rc, c) \<Rightarrow> run_items ti items (ret + (if rc \<noteq> 0 then 1 else 0)) c)
      else run_items ti items ret c)"

definition random_statics :: "'l pmi_client \<Rightarrow> 'l pmi_client" where
  "random_statics c =
     (let (v, c) = random_value 10 20 c; c = c\<lparr>spawned := v\<rparr>;
          (v, c) = random_value 10 20 c; c = c\<lparr>world_size := v\<rparr>;
          (v, c) = random_value 10 20 c; c = c\<lparr>world_rank := v\<rparr>;
          (v, c) = random_value 10 20 c; c = c\<lparr>appnum := v\<rparr>
      in c)"

text \<open>
  The arguments are \<open>argv[1]\<close>, \<open>__FILE__\<close> and whether \<open>PMIX_NAMESPACE\<close> is set in the environment.
\<close>

definition pmi_client_main :: "'l pmi \<Rightarrow> string option \<Rightarrow> string \<Rightarrow> bool \<Rightarrow> 'l pmi_client \<Rightarrow> 'l item_result" where
  "pmi_client_main P arg file has_namespace c =
     (let ti = (case arg of None \<Rightarrow> 0 | Some s \<Rightarrow> atoi s);
          c = random_statics c
      in on_success (PMI_SUCCESS P) (PMI_Init P (lib c)) c (\<lambda>v rc c.
           let c = c\<lparr>spawned := out v (spawned c), legacy := \<not> has_namespace\<rparr>
           in case run_items ti
                     [(1, pmi_test_item1 P), (2, pmi_test_item2 P), (3, pmi_test_item3 P), (4, pmi_test_item4 P),
                      (5, pmi_test_item5 P), (6, pmi_test_item6 P file), (7, pmi_test_item7 P)] 0 c of
                None \<Rightarrow> None
              | Some (ret, c) \<Rightarrow>
                  on_success (PMI_SUCCESS P) (PMI_Finalize P (lib c)) c (\<lambda>_ rc c. Some (ret, c))))"

section \<open>The loops\<close>

lemma key_of_inj: "key_of (int i) = key_of (int j) \<longleftrightarrow> i = j"
proof
  assume "key_of (int i) = key_of (int j)"
  then have "digits_val 0 (decimal_nat i) = digits_val 0 (decimal_nat j)" by (simp add: key_of_def decimal_def)
  then show "i = j" by (simp add: digits_val_decimal)
qed simp

lemma value_of_length: "int i \<le> int_max \<Longrightarrow> length (value_of (int i)) < 100"
  using decimal_length_le [of "int i" 10] by (simp add: value_of_def int_max_def)

lemma put_loop_skip: "world_rank c \<notin> set ks \<Longrightarrow> put_loop ok put ks c = (None, c)"
  by (induction ks) auto

lemma put_loop_once:
  assumes "distinct ks" "world_rank c \<in> set ks"
    and "put (key_of (world_rank c)) (value_of (world_rank c)) (lib c) = (ok, (), l')"
  shows "put_loop ok put ks c = (None, c\<lparr>lib := l'\<rparr>)"
  using assms by (induction ks) (auto simp: put_loop_skip)

text \<open>
  When the library answers every request, only the last key decides over the status the loop
  leaves, and every wrong value is logged. \<open>J\<close> is what the requests keep of the library's state.
\<close>

lemma get_loop_result:
  assumes get: "\<And>i l. i \<in> set ks \<Longrightarrow> J l \<Longrightarrow> \<exists>l'. get i l = (ok, w i, l') \<and> J l'"
    and checks: "\<And>i c. checks i (w i) ok c = (if good i then ok else - 1, c\<lparr>fatals := fatals c + cost i\<rparr>)"
    and "J (lib c)"
  shows "\<exists>l'. get_loop ok get checks ks rc c =
      Some (if ks = [] then rc else if good (last ks) then ok else - 1,
            c\<lparr>lib := l', fatals := fatals c + sum_list (map cost ks)\<rparr>) \<and> J l'"
  using assms(1,3)
proof (induction ks arbitrary: rc c)
  case Nil
  then show ?case by (auto intro!: exI [of _ "lib c"])
next
  case (Cons i ks)
  from Cons.prems(1) [of i "lib c"] Cons.prems(2) obtain l1 where l1: "get i (lib c) = (ok, w i, l1)" "J l1" by auto
  let ?c = "c\<lparr>lib := l1, fatals := fatals c + cost i\<rparr>"
  let ?rc = "if good i then ok else - 1"
  have "\<exists>l'. get_loop ok get checks ks ?rc ?c =
      Some (if ks = [] then ?rc else if good (last ks) then ok else - 1,
            ?c\<lparr>lib := l', fatals := fatals ?c + sum_list (map cost ks)\<rparr>) \<and> J l'"
    using Cons.prems(1) l1(2) by (intro Cons.IH) auto
  then show ?case
    by (elim exE) (auto simp: l1 on_success_def checks add.assoc intro!: exI)
qed

lemma log_assert_cost:
  "log_assert e ok c = (if e then ok else - 1, c\<lparr>fatals := fatals c + (if e then 0 else 1)\<rparr>)"
  by (simp add: log_assert_def log_fatal_def)


section \<open>All the clients\<close>

text \<open>
  What PMI-1 documents of its key-value space: \<open>put\<close> keeps a pair in the process, \<open>commit\<close> publishes
  the pairs kept, the barrier returns when all processes have entered it, with the published pairs
  visible everywhere, and \<open>get\<close> returns a visible value that fits the buffer. \<open>sync\<close> takes the states
  of the libraries of all processes when they enter the barrier to those when they leave it;
  \<open>pend\<close>, \<open>comm\<close> and \<open>seen\<close> are the pairs kept, published and visible.
\<close>

definition kvs_laws ::
  "'l pmi \<Rightarrow> ('l list \<Rightarrow> 'l list) \<Rightarrow> ('l \<Rightarrow> string \<Rightarrow> string option) \<Rightarrow> ('l \<Rightarrow> string \<Rightarrow> string option)
     \<Rightarrow> ('l \<Rightarrow> string \<Rightarrow> string option) \<Rightarrow> bool" where
  "kvs_laws P sync pend comm seen \<longleftrightarrow>
     PMI_SUCCESS P = 0
   \<and> (\<forall>name k v l. \<exists>l'. PMI_KVS_Put P name k v l = (0, (), l') \<and> pend l' = (pend l)(k \<mapsto> v) \<and> comm l' = comm l)
   \<and> (\<forall>name l. \<exists>l'. PMI_KVS_Commit P name l = (0, (), l') \<and> comm l' = comm l ++ pend l)
   \<and> (\<forall>ls i k v. i < length ls \<longrightarrow> (\<exists>l \<in> set ls. comm l k = Some v) \<longrightarrow> (\<forall>l \<in> set ls. comm l k \<in> {None, Some v})
        \<longrightarrow> seen (sync ls ! i) k = Some v)
   \<and> (\<forall>name k v n l. seen l k = Some v \<longrightarrow> length v < n
        \<longrightarrow> (\<exists>l'. PMI_KVS_Get P name k n l = (0, v, l') \<and> seen l' = seen l))"

text \<open>
  A run of item 7 by all the processes: \<open>None\<close> when one of them does not get to the barrier, where
  the others then wait for ever.
\<close>

definition pmi_item7_run ::
  "'l pmi \<Rightarrow> ('l list \<Rightarrow> 'l list) \<Rightarrow> 'l pmi_client list \<Rightarrow> 'l item_result list option" where
  "pmi_item7_run P sync cs =
     (let ps = map (pmi_item7_puts P) cs
      in if \<exists>p \<in> set ps. fst p \<noteq> PMI_SUCCESS P then None
         else Some (map (\<lambda>i. pmi_test_item7
                        (P\<lparr>PMI_Barrier := (\<lambda>_. (PMI_SUCCESS P, (), sync (map (lib \<circ> snd) ps) ! i))\<rparr>) (cs ! i))
                      [0..<length cs]))"

text \<open>No process holds another value under one of the keys.\<close>

definition keys_free :: "nat \<Rightarrow> (string \<Rightarrow> string option) \<Rightarrow> bool" where
  "keys_free n m \<longleftrightarrow> (\<forall>i < n. m (key_of (int i)) \<in> {None, Some (value_of (int i))})"

lemma pmi_item7_puts_ok:
  assumes laws: "kvs_laws P sync pend comm seen" and rank: "0 \<le> world_rank c" "world_rank c < world_size c"
  shows "\<exists>l'. pmi_item7_puts P c = (0, c\<lparr>lib := l'\<rparr>)
           \<and> comm l' = comm (lib c) ++ (pend (lib c))(key_of (world_rank c) \<mapsto> value_of (world_rank c))"
proof -
  have ok: "PMI_SUCCESS P = 0" using laws by (simp add: kvs_laws_def)
  obtain l1 where put: "PMI_KVS_Put P (jobid c) (key_of (world_rank c)) (value_of (world_rank c)) (lib c) = (0, (), l1)"
      "pend l1 = (pend (lib c))(key_of (world_rank c) \<mapsto> value_of (world_rank c))" "comm l1 = comm (lib c)"
    using laws unfolding kvs_laws_def by metis
  obtain l2 where commit: "PMI_KVS_Commit P (jobid c) l1 = (0, (), l2)" "comm l2 = comm l1 ++ pend l1"
    using laws unfolding kvs_laws_def by metis
  have "put_loop 0 (PMI_KVS_Put P (jobid c)) [0..world_size c - 1] c = (None, c\<lparr>lib := l1\<rparr>)"
    using put(1) rank by (intro put_loop_once) auto
  then have "pmi_item7_puts P c = (0, c\<lparr>lib := l2\<rparr>)" by (simp add: pmi_item7_puts_def ok commit)
  then show ?thesis using commit(2) put(2,3) by (intro exI [of _ l2]) simp
qed

lemma barrier_update:
  "pmi_item7_puts (P\<lparr>PMI_Barrier := b\<rparr>) c = pmi_item7_puts P c"
  "pmi_item7_gets (P\<lparr>PMI_Barrier := b\<rparr>) rc c = pmi_item7_gets P rc c"
  by (simp_all add: pmi_item7_puts_def pmi_item7_gets_def split: option.split prod.split)

lemma pmi_item7_gets_ok:
  assumes laws: "kvs_laws P sync pend comm seen" and size: "world_size c = int n" "int n \<le> int_max"
    and seen: "\<forall>i < n. seen (lib c) (key_of (int i)) = Some (value_of (int i))"
  shows "\<exists>l'. pmi_item7_gets P 0 c = Some (0, c\<lparr>lib := l'\<rparr>)"
proof -
  let ?get = "\<lambda>i. PMI_KVS_Get P (jobid c) (key_of i) 100"
  have ok: "PMI_SUCCESS P = 0" using laws by (simp add: kvs_laws_def)
  have get: "\<exists>l'. ?get i l = (0, value_of i, l') \<and> seen l' = seen (lib c)"
    if "i \<in> set [0..world_size c - 1]" "seen l = seen (lib c)" for i l
  proof -
    have i: "0 \<le> i" "i < int n" using that(1) size(1) by auto
    then have "seen l (key_of i) = Some (value_of i)" "length (value_of i) < 100"
      using seen [rule_format, of "nat i"] that(2) value_of_length [of "nat i"] size(2) by auto
    then show ?thesis using laws that(2) unfolding kvs_laws_def by metis
  qed
  show ?thesis
    using get_loop_result [where J = "\<lambda>l. seen l = seen (lib c)" and get = ?get and w = value_of and ok = 0
        and good = "\<lambda>_. True" and cost = "\<lambda>_. 0" and checks = "\<lambda>i val. log_assert (value_of i = val)"
        and ks = "[0..world_size c - 1]" and rc = 0 and c = c] get
    by (force simp: pmi_item7_gets_def ok log_assert_def)
qed

lemma published_visible:
  assumes laws: "kvs_laws P sync pend comm seen"
    and free: "\<And>i. i < n \<Longrightarrow> keys_free n (pend (f i)) \<and> keys_free n (comm (f i))"
    and comm: "\<And>i. i < n \<Longrightarrow> comm (l i) = comm (f i) ++ (pend (f i))(key_of (int i) \<mapsto> value_of (int i))"
    and "i < n" "j < n"
  shows "seen (sync (map l [0..<n]) ! i) (key_of (int j)) = Some (value_of (int j))"
proof -
  have "comm (l a) (key_of (int b)) \<in> {None, Some (value_of (int b))}" if "a < n" "b < n" for a b
    using free [OF that(1)] that by (auto simp: comm keys_free_def map_add_def key_of_inj split: option.splits)
  then have "\<forall>x \<in> set (map l [0..<n]). comm x (key_of (int j)) \<in> {None, Some (value_of (int j))}" using assms(5) by auto
  moreover have "\<exists>x \<in> set (map l [0..<n]). comm x (key_of (int j)) = Some (value_of (int j))"
    using assms(5) comm [OF assms(5)] by (auto intro: bexI [of _ j])
  ultimately show ?thesis using laws assms(4) unfolding kvs_laws_def by auto
qed

text \<open>
  C22: item 7 passes on every process. Whatever the order in which the processes put their keys,
  when all of them have the rank and the number of processes the library gave them and the library
  keeps its laws, every process gets to the barrier and reads the values of all the others: all of
  them return 0, have logged no failure and left the static variables alone.
\<close>

theorem pmi_key_exchange_passes:
  assumes laws: "kvs_laws P sync pend comm seen" and n: "n = length cs" "int n \<le> int_max"
    and ranks: "\<forall>i < n. world_rank (cs ! i) = int i \<and> world_size (cs ! i) = int n
                  \<and> keys_free n (pend (lib (cs ! i))) \<and> keys_free n (comm (lib (cs ! i)))"
  shows "\<exists>rs. pmi_item7_run P sync cs = Some rs \<and> length rs = n
           \<and> (\<forall>i < n. \<exists>l'. rs ! i = Some (0, (cs ! i)\<lparr>lib := l'\<rparr>))"
proof -
  let ?goal = "\<lambda>i l'. pmi_item7_puts P (cs ! i) = (0, (cs ! i)\<lparr>lib := l'\<rparr>)
      \<and> comm l' = comm (lib (cs ! i)) ++ (pend (lib (cs ! i)))(key_of (int i) \<mapsto> value_of (int i))"
  have ok: "PMI_SUCCESS P = 0" using laws by (simp add: kvs_laws_def)
  have "\<exists>l'. i < n \<longrightarrow> ?goal i l'" for i
    using pmi_item7_puts_ok [OF laws, of "cs ! i"] ranks by (cases "i < n") auto
  then obtain l where puts: "\<And>i. i < n \<Longrightarrow> ?goal i (l i)" by metis
  have ls: "map (lib \<circ> snd \<circ> pmi_item7_puts P) cs = map l [0..<n]"
    by (rule nth_equalityI) (auto simp: n(1) puts [unfolded n(1)])
  have gets: "\<exists>l'. pmi_item7_gets P 0 ((cs ! i)\<lparr>lib := sync (map l [0..<n]) ! i\<rparr>) = Some (0, (cs ! i)\<lparr>lib := l'\<rparr>)"
    if "i < n" for i
    using pmi_item7_gets_ok [OF laws, of "(cs ! i)\<lparr>lib := sync (map l [0..<n]) ! i\<rparr>" n] ranks n(2) that
      published_visible [OF laws, where f = "\<lambda>i. lib (cs ! i)" and n = n and l = l] puts by auto
  let ?rs = "map (\<lambda>i. pmi_test_item7 (P\<lparr>PMI_Barrier := \<lambda>_. (0, (), sync (map l [0..<n]) ! i)\<rparr>) (cs ! i)) [0..<n]"
  have "\<exists>l'. ?rs ! i = Some (0, (cs ! i)\<lparr>lib := l'\<rparr>)" if "i < n" for i
    using gets puts that by (simp add: pmi_test_item7_def barrier_update ok on_success_def)
  moreover have "pmi_item7_run P sync cs = Some ?rs"
    using puts by (auto simp: pmi_item7_run_def ls ok n(1) in_set_conv_nth)
  ultimately show ?thesis by auto
qed

section \<open>A library\<close>

text \<open>A key-value space in the memory of the processes, with the maps of pairs kept, published and visible.\<close>

type_synonym kvs = "(string \<Rightarrow> string option) \<times> (string \<Rightarrow> string option) \<times> (string \<Rightarrow> string option)"

definition kvs_pmi :: "kvs pmi" where
  "kvs_pmi =
     \<lparr>PMI_SUCCESS = 0, PMI_FAIL = - 1, PMI_TRUE = 1, PMI_FALSE = 0,
      PMI_Init = (\<lambda>l. (0, Some 0, l)), PMI_Finalize = (\<lambda>l. (0, (), l)), PMI_Initialized = (\<lambda>l. (0, 1, l)),
      PMI_Get_size = (\<lambda>l. (0, Some 2, l)), PMI_Get_rank = (\<lambda>l. (0, Some 0, l)), PMI_Get_appnum = (\<lambda>l. (0, Some 0, l)),
      PMI_Get_universe_size = (\<lambda>l. (0, Some 2, l)), PMI_Get_id_length_max = (\<lambda>l. (0, Some 255, l)),
      PMI_Get_id = (\<lambda>_ l. (0, Some ''job'', l)), PMI_Get_kvs_domain_id = (\<lambda>_ l. (0, Some ''job'', l)),
      PMI_KVS_Get_my_name = (\<lambda>_ l. (0, Some ''job'', l)),
      PMI_KVS_Get_key_length_max = (\<lambda>l. (0, Some 511, l)), PMI_KVS_Get_value_length_max = (\<lambda>l. (0, Some 4096, l)),
      PMI_Get_clique_size = (\<lambda>l. (0, Some 2, l)), PMI_Get_clique_ranks = (\<lambda>_ l. (0, [0, 1], l)),
      PMI_KVS_Put = (\<lambda>_ k v (p, c, s). (0, (), (p(k \<mapsto> v), c, s))),
      PMI_KVS_Commit = (\<lambda>_ (p, c, s). (0, (), (Map.empty, c ++ p, s ++ p))),
      PMI_Barrier = (\<lambda>l. (0, (), l)),
      PMI_KVS_Get = (\<lambda>_ k _ (p, c, s). case s k of None \<Rightarrow> (- 1, [], (p, c, s)) | Some v \<Rightarrow> (0, v, (p, c, s)))\<rparr>"

definition kvs_sync :: "kvs list \<Rightarrow> kvs list" where
  "kvs_sync ls = (let all = foldr (\<lambda>(_, c, _) m. m ++ c) ls Map.empty in map (\<lambda>(p, c, s). (p, c, all)) ls)"

lemma kvs_merge:
  "\<forall>l \<in> set ls. fst (snd l) k \<in> {None, Some v} \<Longrightarrow>
   foldr (\<lambda>(_, c, _) m. m ++ c) ls Map.empty k = (if \<exists>l \<in> set ls. fst (snd l) k = Some v then Some v else None)"
proof (induction ls)
  case (Cons l ls)
  obtain p c s where l: "l = (p, c, s)" by (cases l) auto
  with Cons show ?case by (cases "c k") (auto simp: map_add_def)
qed simp

lemma kvs_pmi_laws: "kvs_laws kvs_pmi kvs_sync fst (\<lambda>l. fst (snd l)) (\<lambda>l. snd (snd l))"
  unfolding kvs_laws_def
proof (intro conjI allI impI)
  fix ls :: "kvs list" and i k v
  assume "i < length ls" "\<exists>l \<in> set ls. fst (snd l) k = Some v" "\<forall>l \<in> set ls. fst (snd l) k \<in> {None, Some v}"
  then show "snd (snd (kvs_sync ls ! i)) k = Some v" using kvs_merge [of ls k v] by (simp add: kvs_sync_def split: prod.split)
qed (auto simp: kvs_pmi_def)

definition fresh_client :: "int \<Rightarrow> int \<Rightarrow> kvs pmi_client" where
  "fresh_client n r =
     \<lparr>lib = (Map.empty, Map.empty, Map.empty), spawned = 0, world_size = n, world_rank = r, appnum = 0, jobid = ''job'',
      legacy = False, rands = [], fatals = 0\<rparr>"

theorem pmi_key_exchange_passes_witness:
  "\<exists>rs. pmi_item7_run kvs_pmi kvs_sync (map (fresh_client 2) [0, 1]) = Some rs \<and> length rs = 2
     \<and> (\<forall>i < 2. \<exists>l'. rs ! i = Some (0, (map (fresh_client 2) [0, 1] ! i)\<lparr>lib := l'\<rparr>))"
  using pmi_key_exchange_passes [OF kvs_pmi_laws, of 2 "map (fresh_client 2) [0, 1]"]
  by (simp add: less_2_cases_iff int_max_def fresh_client_def keys_free_def)

section \<open>What item 7 checks\<close>

text \<open>
  The failures item 7 counts. On a library that answers all requests, every wrong value is
  logged as a failure, but the status is overwritten by the next request: the item fails exactly
  when the value of the last rank is wrong.
\<close>

lemma pmi_item7_counts_last_key:
  assumes puts: "pmi_item7_puts P c = (0, c1)" and barrier: "PMI_Barrier P (lib c1) = (0, (), l1)" and ok: "PMI_SUCCESS P = 0"
    and size: "world_size c1 = int n"
    and get: "\<And>i. i < n \<Longrightarrow> PMI_KVS_Get P (jobid c1) (key_of (int i)) 100 l1 = (0, w i, l1)"
  shows "\<exists>l'. pmi_test_item7 P c =
    Some (if 0 < n \<and> value_of (int (n - 1)) \<noteq> w (n - 1) then - 1 else 0,
          c1\<lparr>lib := l', fatals := fatals c1 + length (filter (\<lambda>i. value_of (int i) \<noteq> w i) [0..<n])\<rparr>)"
proof -
  let ?good = "\<lambda>i. value_of i = w (nat i)" and ?c = "c1\<lparr>lib := l1\<rparr>" and ?ks = "map int [0..<n]"
  have ks: "[0..world_size c1 - 1] = ?ks" using upto_ints [of 0 n] size by simp
  have "\<exists>l'. get_loop 0 (\<lambda>i. PMI_KVS_Get P (jobid c1) (key_of i) 100) (\<lambda>i val. log_assert (value_of i = val)) ?ks 0 ?c =
      Some (if ?ks = [] then 0 else if ?good (last ?ks) then 0 else - 1,
            ?c\<lparr>lib := l', fatals := fatals ?c + sum_list (map (\<lambda>i. if ?good i then 0 else 1) ?ks)\<rparr>) \<and> l' = l1"
  proof (rule get_loop_result [where J = "\<lambda>l. l = l1"])
    show "\<exists>l'. PMI_KVS_Get P (jobid c1) (key_of i) 100 l = (0, w (nat i), l') \<and> l' = l1" if "i \<in> set ?ks" "l = l1" for i l
      using get that by auto
  qed (simp_all add: log_assert_cost)
  then have "pmi_item7_gets P 0 ?c = Some (if 0 < n \<and> value_of (int (n - 1)) \<noteq> w (n - 1) then - 1 else 0,
      c1\<lparr>lib := l1, fatals := fatals c1 + length (filter (\<lambda>i. value_of (int i) \<noteq> w i) [0..<n])\<rparr>)"
    by (cases n) (simp_all add: pmi_item7_gets_def ok ks sum_list_count filter_map comp_def)
  then show ?thesis by (auto simp: pmi_test_item7_def puts ok barrier on_success_def)
qed

text \<open>Two processes; the library answers with a wrong value for the first rank, and item 7 passes.\<close>

definition wrong_pmi :: "kvs pmi" where
  "wrong_pmi = kvs_pmi\<lparr>PMI_KVS_Get := \<lambda>_ k _ l. (0, if k = ''KEY-0'' then ''x'' else ''VALUE-1'', l)\<rparr>"

end
