(* ===== verification/Pmi2.thy ===== *)
theory Pmi2
  imports Pmi
begin

text \<open>
  The client of the PMI-2 library, src/unit/pmi2_client.c: its ten test items and its main program.
  The helper functions and the static variables are those of src/unit/pmi_client.c, of which the
  file has a copy. The library (pmi2.h) is again a record of functions on its own state.
\<close>

section \<open>The library\<close>

record 'l pmi2 =
  PMI2_SUCCESS :: int
  PMI2_ID_NULL :: int
  PMI2_MAX_VALLEN :: nat
  PMI2_Init :: "'l \<Rightarrow> int \<times> (int option \<times> int option \<times> int option \<times> int option) \<times> 'l"
  PMI2_Finalize :: "'l \<Rightarrow> int \<times> unit \<times> 'l"
  PMI2_Initialized :: "'l \<Rightarrow> int"
  PMI2_Job_GetId :: "nat \<Rightarrow> 'l \<Rightarrow> int \<times> string option \<times> 'l"
  PMI2_Job_GetRank :: "'l \<Rightarrow> int \<times> int option \<times> 'l"
  PMI2_Info_GetSize :: "'l \<Rightarrow> int \<times> int option \<times> 'l"
  PMI2_Info_GetJobAttr :: "string \<Rightarrow> nat \<Rightarrow> 'l \<Rightarrow> int \<times> (string \<times> bool) \<times> 'l"   \<comment> \<open>the value and \<open>found\<close>\<close>
  PMI2_Info_GetNodeAttr :: "string \<Rightarrow> nat \<Rightarrow> bool \<Rightarrow> 'l \<Rightarrow> int \<times> (string \<times> bool) \<times> 'l"
  PMI2_Info_PutNodeAttr :: "string \<Rightarrow> string \<Rightarrow> 'l \<Rightarrow> int \<times> unit \<times> 'l"
  PMI2_KVS_Put :: "string \<Rightarrow> string \<Rightarrow> 'l \<Rightarrow> int \<times> unit \<times> 'l"
  PMI2_KVS_Fence :: "'l \<Rightarrow> int \<times> unit \<times> 'l"
  PMI2_KVS_Get :: "string option \<Rightarrow> int \<Rightarrow> string \<Rightarrow> nat \<Rightarrow> 'l \<Rightarrow> int \<times> (string \<times> int) \<times> 'l"   \<comment> \<open>the value and its length\<close>

definition jobid2_size :: nat where
  "jobid2_size = 100"

section \<open>Test items\<close>

definition pmi2_test_item1 :: "'l pmi2 \<Rightarrow> 'l pmi_client \<Rightarrow> 'l item_result" where
  "pmi2_test_item1 P c =
     (let (rc, c) = log_assert (spawned c = 0 \<or> spawned c = 1) 0 c;
          (rc, c) = log_assert (world_size c \<ge> 0) rc c;
          (rc, c) = log_assert (world_rank c \<ge> 0) rc c;
          (rc, c) = log_assert (world_rank c < world_size c) rc c;
          c = c\<lparr>jobid := ''test_item1''\<rparr>
      in on_success (PMI2_SUCCESS P) (PMI2_Job_GetId P jobid2_size (lib c)) c (\<lambda>v rc c.
           let c = c\<lparr>jobid := out v (jobid c)\<rparr>
           in Some (log_assert (jobid c \<noteq> ''test_item1'') rc c)))"

definition pmi2_test_item2 :: "'l pmi2 \<Rightarrow> 'l pmi_client \<Rightarrow> 'l item_result" where
  "pmi2_test_item2 P c =
     (let (rc, c) = log_assert (PMI2_Initialized P (lib c) \<noteq> 0) 0 c;
          (val, c) = random_value 10 100 c
      in on_success (PMI2_SUCCESS P) (PMI2_Job_GetRank P (lib c)) c (\<lambda>v rc c.
         let (rc, c) = log_assert (world_rank c = out v val) rc c
         in on_success (PMI2_SUCCESS P) (PMI2_Info_GetSize P (lib c)) c (\<lambda>v rc c.
            Some (log_assert (0 < out v (- 1)) rc c))))"

text \<open>The loops over the attributes only print what they find.\<close>

fun pmi2_attr_loop ::
  "int \<Rightarrow> (string \<Rightarrow> 'l \<Rightarrow> int \<times> (string \<times> bool) \<times> 'l) \<Rightarrow> string list \<Rightarrow> int \<Rightarrow> 'l pmi_client \<Rightarrow> 'l item_result" where
  "pmi2_attr_loop ok get [] rc c = Some (rc, c)"
| "pmi2_attr_loop ok get (key # keys) rc c =
     on_success ok (get key (lib c)) c (\<lambda>_ rc c. pmi2_attr_loop ok get keys rc c)"

definition pmi2_test_item3 :: "'l pmi2 \<Rightarrow> 'l pmi_client \<Rightarrow> 'l item_result" where
  "pmi2_test_item3 P c =
     (if \<not> legacy c then Some (0, c)
      else pmi2_attr_loop (PMI2_SUCCESS P) (\<lambda>key. PMI2_Info_GetJobAttr P key (PMI2_MAX_VALLEN P))
             [''universeSize'', ''hasNameServ'', ''physTopology'', ''physTopologyLevels'', ''cartDims'', ''isHeterogeneous'']
             0 c)"

definition pmi2_test_item4 :: "'l pmi2 \<Rightarrow> 'l pmi_client \<Rightarrow> 'l item_result" where
  "pmi2_test_item4 P c =
     (if \<not> legacy c then Some (0, c)
      else pmi2_attr_loop (PMI2_SUCCESS P) (\<lambda>key. PMI2_Info_GetNodeAttr P key (PMI2_MAX_VALLEN P) True)
             [''memPoolType'', ''memSYSVid'', ''memAnonMMAPfd'', ''memNTName''] 0 c)"

definition pmi2_test_item5 :: "'l pmi2 \<Rightarrow> 'l pmi_client \<Rightarrow> 'l item_result" where
  "pmi2_test_item5 P c =
     (let tkey = ''sharedFilename''; tval = ''pmix-pmi2-check''
      in on_success (PMI2_SUCCESS P) (PMI2_Info_PutNodeAttr P tkey tval (lib c)) c (\<lambda>_ rc c.
         on_success (PMI2_SUCCESS P) (PMI2_Info_GetNodeAttr P tkey (PMI2_MAX_VALLEN P) True (lib c)) c (\<lambda>(val, found) rc c.
         let (rc, c) = log_assert found rc c;
             (rc, c) = log_assert (length tval = length val) rc c
         in Some (log_assert (tval = val) rc c))))"

text \<open>Without a fence the value must not be found.\<close>

definition pmi2_test_item6 :: "'l pmi2 \<Rightarrow> string \<Rightarrow> 'l pmi_client \<Rightarrow> 'l item_result" where
  "pmi2_test_item6 P file c =
     on_success (PMI2_SUCCESS P) (PMI2_KVS_Put P ''test_item6'' file (lib c)) c (\<lambda>_ rc c.
       case PMI2_KVS_Get P None (PMI2_ID_NULL P) ''test_item6'' (PMI2_MAX_VALLEN P) (lib c) of (rc, _, l) \<Rightarrow>
         Some (if rc = PMI2_SUCCESS P then 1 else 0, c\<lparr>lib := l\<rparr>))"

text \<open>The assertions of items 7 to 9 on a value that was read.\<close>

definition value_checks :: "int \<Rightarrow> string \<times> int \<Rightarrow> int \<Rightarrow> 'l pmi_client \<Rightarrow> int \<times> 'l pmi_client" where
  "value_checks i = (\<lambda>(val, len) rc c.
     (let (rc, c) = log_assert (int (length (value_of i)) = len) rc c
      in log_assert (value_of i = val) rc c))"

definition pmi2_test_item7 :: "'l pmi2 \<Rightarrow> 'l pmi_client \<Rightarrow> 'l item_result" where
  "pmi2_test_item7 P c =
     (let i = world_rank c
      in on_success (PMI2_SUCCESS P) (PMI2_KVS_Put P (key_of i) (value_of i) (lib c)) c (\<lambda>_ rc c.
         on_success (PMI2_SUCCESS P) (PMI2_KVS_Fence P (lib c)) c (\<lambda>_ rc c.
         on_success (PMI2_SUCCESS P) (PMI2_KVS_Get P (Some (jobid c)) i (key_of i) (PMI2_MAX_VALLEN P) (lib c)) c (\<lambda>v rc c.
         let (rc, c) = value_checks i v rc c in Some (0, c)))))"

definition pmi2_test_item8 :: "'l pmi2 \<Rightarrow> 'l pmi_client \<Rightarrow> 'l item_result" where
  "pmi2_test_item8 P c =
     (case put_loop (PMI2_SUCCESS P) (PMI2_KVS_Put P) [0..world_size c - 1] c of
        (Some rc, c) \<Rightarrow> Some (rc, c)
      | (None, c) \<Rightarrow>
          on_success (PMI2_SUCCESS P) (PMI2_KVS_Fence P (lib c)) c (\<lambda>_ rc c.
            get_loop (PMI2_SUCCESS P) (\<lambda>i. PMI2_KVS_Get P (Some (jobid c)) i (key_of i) (PMI2_MAX_VALLEN P)) value_checks
              [0..world_size c - 1] rc c))"

definition pmi2_test_item9 :: "'l pmi2 \<Rightarrow> 'l pmi_client \<Rightarrow> 'l item_result" where
  "pmi2_test_item9 P c =
     (case put_loop (PMI2_SUCCESS P) (PMI2_KVS_Put P) [0..world_size c - 1] c of
        (Some rc, c) \<Rightarrow> Some (rc, c)
      | (None, c) \<Rightarrow>
          on_success (PMI2_SUCCESS P) (PMI2_KVS_Fence P (lib c)) c (\<lambda>_ rc c.
            get_loop (PMI2_SUCCESS P)
              (\<lambda>i. PMI2_KVS_Get P (Some (jobid c)) (PMI2_ID_NULL P) (key_of i) (PMI2_MAX_VALLEN P)) value_checks
              [0..world_size c - 1] rc c))"

section \<open>Several fences\<close>

definition rank_key :: "int \<Rightarrow> int \<Rightarrow> string" where
  "rank_key r i = ''RANK'' @ decimal r @ ''-key-'' @ decimal i"

text \<open>The characters the values consist of, by their codes: \<open>a\<close> to \<open>z\<close>, and from the start again.\<close>

definition next_symb :: "nat \<Rightarrow> nat" where
  "next_symb symb = (if symb + 1 > 122 then 97 else symb + 1)"

fun item10_puts ::
  "'l pmi2 \<Rightarrow> nat \<Rightarrow> int list \<Rightarrow> nat \<Rightarrow> 'l pmi_client \<Rightarrow> int option \<times> nat \<times> 'l pmi_client" where
  "item10_puts P val_size [] symb c = (None, symb, c)"
| "item10_puts P val_size (i # ks) symb c =
     (case PMI2_KVS_Put P (rank_key (world_rank c) i) (replicate val_size (char_of symb)) (lib c) of (rc, _, l) \<Rightarrow>
        (if rc \<noteq> PMI2_SUCCESS P then (Some rc, next_symb symb, log_fatal (c\<lparr>lib := l\<rparr>))
         else item10_puts P val_size ks (next_symb symb) (c\<lparr>lib := l\<rparr>)))"

text \<open>A wrong length and every wrong character are logged; nothing else happens with them.\<close>

definition item10_compare :: "nat \<Rightarrow> nat \<Rightarrow> string \<times> int \<Rightarrow> 'l pmi_client \<Rightarrow> 'l pmi_client" where
  "item10_compare val_size symb = (\<lambda>(val, len) c.
     (let c = (if len \<noteq> int val_size then log_fatal c else c);
          buffer = val @ replicate val_size (char_of (0 :: nat))
      in fold (\<lambda>j c. if buffer ! j \<noteq> char_of symb then log_fatal c else c) [0..<val_size] c))"

fun item10_keys ::
  "'l pmi2 \<Rightarrow> nat \<Rightarrow> int \<Rightarrow> int list \<Rightarrow> nat \<Rightarrow> 'l pmi_client \<Rightarrow> int option \<times> 'l pmi_client" where
  "item10_keys P val_size r [] symb c = (None, c)"
| "item10_keys P val_size r (i # ks) symb c =
     (case PMI2_KVS_Get P (Some (jobid c)) r (rank_key r i) (PMI2_MAX_VALLEN P) (lib c) of (rc, v, l) \<Rightarrow>
        (if rc \<noteq> PMI2_SUCCESS P then (Some rc, log_fatal (c\<lparr>lib := l\<rparr>))
         else item10_keys P val_size r ks (next_symb symb) (item10_compare val_size symb v (c\<lparr>lib := l\<rparr>))))"

fun item10_ranks :: "'l pmi2 \<Rightarrow> nat \<Rightarrow> int \<Rightarrow> int list \<Rightarrow> 'l pmi_client \<Rightarrow> int option \<times> 'l pmi_client" where
  "item10_ranks P val_size keys_total [] c = (None, c)"
| "item10_ranks P val_size keys_total (r # rs) c =
     (case item10_keys P val_size r [0..keys_total - 1] 97 c of
        (Some rc, c) \<Rightarrow> (Some rc, c)
      | (None, c) \<Rightarrow> item10_ranks P val_size keys_total rs c)"

text \<open>The first argument counts the fences left.\<close>

fun item10_fences ::
  "nat \<Rightarrow> 'l pmi2 \<Rightarrow> nat \<Rightarrow> nat \<Rightarrow> int \<Rightarrow> int \<Rightarrow> 'l pmi_client \<Rightarrow> 'l item_result" where
  "item10_fences 0 P val_size symb_start keys_total rc c = Some (rc, c)"
| "item10_fences (Suc n) P val_size symb_start keys_total rc c =
     (case item10_puts P val_size [keys_total..keys_total + 50 - 1] symb_start c of
        (Some rc, _, c) \<Rightarrow> Some (rc, c)
      | (None, symb, c) \<Rightarrow>
          (let keys_total = keys_total + 50
           in on_success (PMI2_SUCCESS P) (PMI2_KVS_Fence P (lib c)) c (\<lambda>_ rc c.
                case item10_ranks P val_size keys_total [0..world_size c - 1] c of
                  (Some rc, c) \<Rightarrow> Some (rc, c)
                | (None, c) \<Rightarrow> item10_fences n P val_size symb keys_total rc c)))"

text \<open>The buffer of the value has \<open>PMI2_MAX_VALLEN\<close> bytes, one of them for the NUL byte.\<close>

definition pmi2_test_item10 :: "'l pmi2 \<Rightarrow> 'l pmi_client \<Rightarrow> 'l item_result" where
  "pmi2_test_item10 P c =
     (let (val_size, c) = random_value 10 (int (PMI2_MAX_VALLEN P) div 10) c
      in if int (PMI2_MAX_VALLEN P) \<le> val_size then None
         else item10_fences 5 P (nat val_size) 97 0 0 c)"

section \<open>The main program\<close>

definition pmi2_client_main :: "'l pmi2 \<Rightarrow> string option \<Rightarrow> string \<Rightarrow> bool \<Rightarrow> 'l pmi_client \<Rightarrow> 'l item_result" where
  "pmi2_client_main P arg file has_namespace c =
     (let ti = (case arg of None \<Rightarrow> 0 | Some s \<Rightarrow> atoi s);
          c = random_statics c
      in on_success (PMI2_SUCCESS P) (PMI2_Init P (lib c)) c (\<lambda>(vs, vn, vr, va) rc c.
           let c = c\<lparr>spawned := out vs (spawned c), world_size := out vn (world_size c), world_rank := out vr (world_rank c),
                     appnum := out va (appnum c), legacy := \<not> has_namespace\<rparr>
           in case run_items ti
                     [(1, pmi2_test_item1 P), (2, pmi2_test_item2 P), (3, pmi2_test_item3 P), (4, pmi2_test_item4 P),
                      (5, pmi2_test_item5 P), (6, pmi2_test_item6 P file), (7, pmi2_test_item7 P), (8, pmi2_test_item8 P),
                      (9, pmi2_test_item9 P), (10, pmi2_test_item10 P)] 0 c of
                None \<Rightarrow> None
              | Some (ret, c) \<Rightarrow>
                  on_success (PMI2_SUCCESS P) (PMI2_Finalize P (lib c)) c (\<lambda>_ rc c. Some (ret, c))))"

section \<open>The values of item 10\<close>

text \<open>
  What PMI-2 documents, seen from one of \<open>n\<close> processes that all run item 10 with values of the same
  length: \<open>put\<close> keeps a pair; after the fence every process has put under its own rank what this one
  (rank \<open>me\<close>) has put under its rank, and the pairs are visible to \<open>get\<close>, which leaves them alone.
\<close>

definition kvs2_laws ::
  "'l pmi2 \<Rightarrow> nat \<Rightarrow> int \<Rightarrow> ('l \<Rightarrow> string \<Rightarrow> string option) \<Rightarrow> ('l \<Rightarrow> int \<Rightarrow> string \<Rightarrow> string option) \<Rightarrow> bool" where
  "kvs2_laws P n me mine seen \<longleftrightarrow>
     PMI2_SUCCESS P = 0
   \<and> (\<forall>k v l. \<exists>l'. PMI2_KVS_Put P k v l = (0, (), l') \<and> mine l' = (mine l)(k \<mapsto> v))
   \<and> (\<forall>l. \<exists>l'. PMI2_KVS_Fence P l = (0, (), l') \<and> mine l' = mine l
        \<and> (\<forall>r < n. \<forall>i v. mine l (rank_key me i) = Some v \<longrightarrow> seen l' (int r) (rank_key (int r) i) = Some v))
   \<and> (\<forall>job r k m l v. seen l r k = Some v \<longrightarrow> length v < m
        \<longrightarrow> (\<exists>l'. PMI2_KVS_Get P (Some job) r k m l = (0, (v, int (length v)), l') \<and> mine l' = mine l \<and> seen l' = seen l))"

definition symb_of :: "nat \<Rightarrow> nat" where
  "symb_of i = 97 + i mod 26"

definition item10_value :: "nat \<Rightarrow> nat \<Rightarrow> string" where
  "item10_value val_size i = replicate val_size (char_of (symb_of i))"

lemma next_symb_of: "next_symb (symb_of i) = symb_of (Suc i)"
  using mod_less_divisor [of 26 i] by (simp add: next_symb_def symb_of_def mod_Suc) linarith

lemma rank_key_inj: "rank_key r (int i) = rank_key r (int j) \<longleftrightarrow> i = j"
  using key_of_inj [of i j] by (simp add: rank_key_def key_of_def)

text \<open>Having put the first \<open>t\<close> values, and seeing those of all ranks.\<close>

definition has_put :: "('l \<Rightarrow> string \<Rightarrow> string option) \<Rightarrow> int \<Rightarrow> nat \<Rightarrow> nat \<Rightarrow> 'l \<Rightarrow> bool" where
  "has_put mine me val_size t l \<longleftrightarrow> (\<forall>i < t. mine l (rank_key me (int i)) = Some (item10_value val_size i))"

definition sees :: "('l \<Rightarrow> int \<Rightarrow> string \<Rightarrow> string option) \<Rightarrow> nat \<Rightarrow> nat \<Rightarrow> nat \<Rightarrow> 'l \<Rightarrow> bool" where
  "sees seen n val_size t l \<longleftrightarrow>
     (\<forall>r < n. \<forall>i < t. seen l (int r) (rank_key (int r) (int i)) = Some (item10_value val_size i))"

lemma item10_puts_ok:
  assumes laws: "kvs2_laws P n (world_rank c) mine seen"
  shows "has_put mine (world_rank c) val_size t (lib c) \<Longrightarrow>
    \<exists>l'. item10_puts P val_size (map int [t..<t + k]) (symb_of t) c = (None, symb_of (t + k), c\<lparr>lib := l'\<rparr>)
       \<and> has_put mine (world_rank c) val_size (t + k) l'"
  using laws
proof (induction k arbitrary: t c)
  case 0
  then show ?case by (auto intro: exI [of _ "lib c"])
next
  case (Suc k)
  have ks: "map int [t..<Suc (t + k)] = int t # map int [Suc t..<Suc (t + k)]" by (simp add: upt_conv_Cons del: upt_Suc)
  from Suc.prems(2) obtain l1 where put: "PMI2_KVS_Put P (rank_key (world_rank c) (int t)) (item10_value val_size t) (lib c) = (0, (), l1)"
      "mine l1 = (mine (lib c))(rank_key (world_rank c) (int t) \<mapsto> item10_value val_size t)" and ok: "PMI2_SUCCESS P = 0"
    unfolding kvs2_laws_def by metis
  have "has_put mine (world_rank c) val_size (Suc t) l1"
    using Suc.prems(1) by (auto simp: has_put_def put(2) rank_key_inj less_Suc_eq)
  with Suc.IH [where t = "Suc t" and c = "c\<lparr>lib := l1\<rparr>"] Suc.prems(2)
  obtain l' where "item10_puts P val_size (map int [Suc t..<Suc t + k]) (symb_of (Suc t)) (c\<lparr>lib := l1\<rparr>)
      = (None, symb_of (Suc t + k), c\<lparr>lib := l'\<rparr>)" "has_put mine (world_rank c) val_size (Suc t + k) l'"
    by auto
  then show ?case
    by (intro exI [of _ l']) (simp add: ks put(1) [unfolded item10_value_def] ok next_symb_of del: upt_Suc)
qed

lemma fold_unchanged: "\<forall>j \<in> set js. f j c = c \<Longrightarrow> fold f js c = c"
  by (induction js) auto

lemma item10_compare_same: "item10_compare val_size symb (replicate val_size (char_of symb), int val_size) c = c"
  by (auto simp: item10_compare_def nth_append intro!: fold_unchanged)

lemma item10_keys_ok:
  assumes laws: "kvs2_laws P n me mine seen" and size: "val_size < PMI2_MAX_VALLEN P" and "r < n"
  shows "sees seen n val_size (t + k) (lib c) \<Longrightarrow>
    \<exists>l'. item10_keys P val_size (int r) (map int [t..<t + k]) (symb_of t) c = (None, c\<lparr>lib := l'\<rparr>)
       \<and> mine l' = mine (lib c) \<and> seen l' = seen (lib c)"
proof (induction k arbitrary: t c)
  case 0
  then show ?case by (auto intro: exI [of _ "lib c"])
next
  case (Suc k)
  have ks: "map int [t..<Suc (t + k)] = int t # map int [Suc t..<Suc (t + k)]" by (simp add: upt_conv_Cons del: upt_Suc)
  let ?v = "item10_value val_size t"
  have "seen (lib c) (int r) (rank_key (int r) (int t)) = Some ?v" "length ?v < PMI2_MAX_VALLEN P"
    using Suc.prems assms(3) size by (simp_all add: sees_def item10_value_def)
  then obtain l1 where get: "PMI2_KVS_Get P (Some (jobid c)) (int r) (rank_key (int r) (int t)) (PMI2_MAX_VALLEN P) (lib c)
      = (0, (?v, int (length ?v)), l1)" and l1: "mine l1 = mine (lib c)" "seen l1 = seen (lib c)" and ok: "PMI2_SUCCESS P = 0"
    using laws unfolding kvs2_laws_def by metis
  have "sees seen n val_size (Suc t + k) (lib (c\<lparr>lib := l1\<rparr>))" using Suc.prems by (simp add: sees_def l1)
  from Suc.IH [OF this] obtain l' where
      "item10_keys P val_size (int r) (map int [Suc t..<Suc t + k]) (symb_of (Suc t)) (c\<lparr>lib := l1\<rparr>) = (None, c\<lparr>lib := l'\<rparr>)"
      "mine l' = mine l1" "seen l' = seen l1" by auto
  then show ?case
    by (intro exI [of _ l']) (simp add: ks get ok next_symb_of l1 item10_value_def item10_compare_same del: upt_Suc)
qed

lemma item10_ranks_ok:
  assumes laws: "kvs2_laws P n me mine seen" and size: "val_size < PMI2_MAX_VALLEN P"
  shows "r + k \<le> n \<Longrightarrow> sees seen n val_size t (lib c) \<Longrightarrow>
    \<exists>l'. item10_ranks P val_size (int t) (map int [r..<r + k]) c = (None, c\<lparr>lib := l'\<rparr>) \<and> mine l' = mine (lib c)"
proof (induction k arbitrary: r c)
  case 0
  then show ?case by (auto intro: exI [of _ "lib c"])
next
  case (Suc k)
  have rs: "map int [r..<Suc (r + k)] = int r # map int [Suc r..<Suc (r + k)]" by (simp add: upt_conv_Cons del: upt_Suc)
  have keys: "[0..int t - 1] = map int [0..<0 + t]" using upto_ints [of 0 t] by simp
  obtain l1 where l1: "item10_keys P val_size (int r) [0..int t - 1] 97 c = (None, c\<lparr>lib := l1\<rparr>)"
      "mine l1 = mine (lib c)" "seen l1 = seen (lib c)"
    using item10_keys_ok [OF laws size, of r 0 t c] Suc.prems unfolding keys by (auto simp: symb_of_def)
  have "sees seen n val_size t (lib (c\<lparr>lib := l1\<rparr>))" using Suc.prems by (simp add: sees_def l1)
  with Suc.IH [of "Suc r" "c\<lparr>lib := l1\<rparr>"] Suc.prems(1) obtain l' where
      "item10_ranks P val_size (int t) (map int [Suc r..<Suc (r + k)]) (c\<lparr>lib := l1\<rparr>) = (None, c\<lparr>lib := l'\<rparr>)"
      "mine l' = mine l1" by auto
  then show ?case by (intro exI [of _ l']) (simp add: rs l1 del: upt_Suc)
qed

lemma item10_fences_ok:
  assumes laws: "kvs2_laws P n (world_rank c) mine seen" and size: "val_size < PMI2_MAX_VALLEN P" "world_size c = int n"
    and "has_put mine (world_rank c) val_size t (lib c)"
  shows "\<exists>l'. item10_fences k P val_size (symb_of t) (int t) 0 c = Some (0, c\<lparr>lib := l'\<rparr>)"
  using assms(1,3,4)
proof (induction k arbitrary: t c)
  case 0
  then show ?case by (auto intro: exI [of _ "lib c"])
next
  case (Suc k)
  note laws = Suc.prems(1)
  have ok: "PMI2_SUCCESS P = 0" using laws by (simp add: kvs2_laws_def)
  have keys: "[int t..int (t + 50) - 1] = map int [t..<t + 50]" by (rule upto_ints)
  have ranks: "[0..world_size c - 1] = map int [0..<0 + n]" using upto_ints [of 0 n] Suc.prems(2) by simp
  obtain l1 where puts: "item10_puts P val_size (map int [t..<t + 50]) (symb_of t) c = (None, symb_of (t + 50), c\<lparr>lib := l1\<rparr>)"
    and l1: "has_put mine (world_rank c) val_size (t + 50) l1"
    using item10_puts_ok [OF laws Suc.prems(3), of 50] by blast
  obtain l2 where fence: "PMI2_KVS_Fence P l1 = (0, (), l2)" "mine l2 = mine l1"
    and seen: "\<forall>r < n. \<forall>i v. mine l1 (rank_key (world_rank c) i) = Some v \<longrightarrow> seen l2 (int r) (rank_key (int r) i) = Some v"
    using laws unfolding kvs2_laws_def by metis
  have "sees seen n val_size (t + 50) (lib (c\<lparr>lib := l2\<rparr>))" using l1 seen by (simp add: sees_def has_put_def)
  then obtain l3 where gets: "item10_ranks P val_size (int (t + 50)) (map int [0..<0 + n]) (c\<lparr>lib := l2\<rparr>) = (None, c\<lparr>lib := l3\<rparr>)"
      "mine l3 = mine l2"
    using item10_ranks_ok [OF laws size(1), of 0 n "t + 50" "c\<lparr>lib := l2\<rparr>"] by auto
  have "has_put mine (world_rank c) val_size (t + 50) l3" using l1 by (simp add: has_put_def fence gets)
  with Suc.IH [of "c\<lparr>lib := l3\<rparr>" "t + 50"] laws Suc.prems(2) obtain l' where
      "item10_fences k P val_size (symb_of (t + 50)) (int (t + 50)) 0 (c\<lparr>lib := l3\<rparr>) = Some (0, c\<lparr>lib := l'\<rparr>)" by auto
  moreover have "int t + 50 = int (t + 50)" by simp
  ultimately show ?case
    using gets(1) by (intro exI [of _ l']) (simp only: item10_fences.simps keys puts prod.case option.case Let_def on_success_def fence ok
        lib_simps ranks simp_thms if_False)
qed


section \<open>A library\<close>

text \<open>The process of rank 0 of two; the fence shows what both put, in each its own rank in the keys.\<close>

type_synonym kvs2 = "(string \<Rightarrow> string option) \<times> (int \<Rightarrow> string \<Rightarrow> string option)"

definition kvs2_pmi :: "kvs2 pmi2" where
  "kvs2_pmi =
     \<lparr>PMI2_SUCCESS = 0, PMI2_ID_NULL = - 1, PMI2_MAX_VALLEN = 1024,
      PMI2_Init = (\<lambda>l. (0, (Some 0, Some 2, Some 0, Some 0), l)), PMI2_Finalize = (\<lambda>l. (0, (), l)),
      PMI2_Initialized = (\<lambda>l. 1), PMI2_Job_GetId = (\<lambda>_ l. (0, Some ''job'', l)), PMI2_Job_GetRank = (\<lambda>l. (0, Some 0, l)),
      PMI2_Info_GetSize = (\<lambda>l. (0, Some 1, l)), PMI2_Info_GetJobAttr = (\<lambda>_ _ l. (0, ([], False), l)),
      PMI2_Info_GetNodeAttr = (\<lambda>_ _ _ l. (0, ([], False), l)), PMI2_Info_PutNodeAttr = (\<lambda>_ _ l. (0, (), l)),
      PMI2_KVS_Put = (\<lambda>k v (m, s). (0, (), (m(k \<mapsto> v), s))),
      PMI2_KVS_Fence = (\<lambda>(m, s). (0, (), (m, \<lambda>r k. m (''RANK'' @ decimal 0 @ drop (4 + length (decimal r)) k)))),
      PMI2_KVS_Get = (\<lambda>_ r k _ (m, s). case s r k of None \<Rightarrow> (- 1, ([], 0), (m, s)) | Some v \<Rightarrow> (0, (v, int (length v)), (m, s)))\<rparr>"

lemma kvs2_pmi_laws: "kvs2_laws kvs2_pmi 2 0 fst snd"
  unfolding kvs2_laws_def by (auto simp: kvs2_pmi_def rank_key_def numeral_eq_Suc)

definition fresh_client2 :: "kvs2 pmi_client" where
  "fresh_client2 =
     \<lparr>lib = (Map.empty, \<lambda>_ _. None), spawned = 0, world_size = 2, world_rank = 0, appnum = 0, jobid = ''job'',
      legacy = False, rands = [57], fatals = 0\<rparr>"


end
