(* ===== verification/TcFilter.thy ===== *)
theory TcFilter
  imports CString "HOL-Library.Monad_Syntax"
begin

text \<open>
  The filter of test output, src/prrte/debug/tcfilter.c: it removes the sequence numbers from the
  lines of its input and replaces namespaces, process identifiers and hosts by uniform names. The
  regular expressions of the C library are parameters: \<open>regcomp\<close> tells whether a pattern compiles,
  \<open>regexec\<close> returns the offsets of the match and of its groups in a string. The result \<open>None\<close> is a
  write past the end of a buffer or a scan that never ends, \<open>Some (Inl code)\<close> is \<open>exit(code)\<close>.
\<close>

section \<open>Patterns\<close>

definition pid_pattern :: string where
  "pid_pattern = ''pid ([0-9]+):?''"

definition namespace_pattern :: string where
  "namespace_pattern = ''([a-zA-Z]+[a-zA-Z0-9_.'' @ [CHR 92] @ ''-]+[@.][0-9]+)''"

definition namespace_pattern2 :: string where
  "namespace_pattern2 = ''namespace=([a-zA-Z]+[a-zA-Z0-9_@.'' @ [CHR 92] @ ''-]+)''"

definition nspace_pid_pattern :: string where
  "nspace_pid_pattern = ''([a-zA-Z]+[a-zA-Z0-9_.'' @ [CHR 92] @ ''-]+[@.][0-9]+):([0-9]{2,8})''"

definition nspace_rank_pid_pattern :: string where
  "nspace_rank_pid_pattern = ''([a-zA-Z]+[a-zA-Z0-9_@.'' @ [CHR 92] @ ''-]+[@.][0-9]+):-?[0-9]+:([0-9]+)''"

definition host_pattern :: string where
  "host_pattern = ''on host ([0-9a-zA-Z][a-zA-Z0-9.'' @ [CHR 92] @ ''-]+)''"

definition host_pid_ns_pattern :: string where
  "host_pid_ns_pattern = ''([a-zA-Z0-9_.'' @ [CHR 92] @ ''-]+):([0-9]+):([0-9]+@[0-9]+)''"

definition host_pid_ns_rank_pid_pattern :: string where
  "host_pid_ns_rank_pid_pattern = ''([a-zA-Z0-9_.'' @ [CHR 92] @ ''-]+):([0-9]+):([0-9]+)@[0-9]+:-?[0-9]+:([0-9]+)''"

definition unconnected_tool_ns_pattern :: string where
  "unconnected_tool_ns_pattern = ''ns ([a-zA-Z0-9_.'' @ [CHR 92] @ ''-]+:[0-9]+)''"

definition uri_pattern :: string where
  "uri_pattern = ''([0-9a-zA-Z][a-zA-Z0-9.'' @ [CHR 92] @ ''-]+:[0-9]+'' @ [CHR 92] @ ''.[0-9]+);tcp''"

definition release_ns_pattern :: string where
  "release_ns_pattern =
     [CHR 92] @ ''[([0-9a-zA-Z][a-zA-Z0-9.'' @ [CHR 92] @ ''-]+:[0-9]+:[0-9]+:[0-9]+)'' @ [CHR 92] @ '']''"

definition tcp4_connect_pattern :: string where
  "tcp4_connect_pattern =
     ''tcp4://([0-9]+'' @ [CHR 92] @ ''.[0-9]+'' @ [CHR 92] @ ''.[0-9]+'' @ [CHR 92] @ ''.[0-9]+:[0-9]+)''"

definition indirect_ns_pattern :: string where
  "indirect_ns_pattern = ''([0-9a-zA-Z][a-zA-Z0-9.'' @ [CHR 92] @ ''-]+:[0-9]+:[0-9]+)''"

section \<open>State\<close>

text \<open>
  \<open>input\<close> holds all bytes of the buffer: what follows the terminating NUL byte matters. Of the
  three arrays of strings only \<open>namespace_array\<close> is used, with \<open>num_namespaces\<close> entries.
\<close>

record tcfilter =
  input :: "char list"
  namespace_array :: "string list"
  printed :: "string list"                \<comment> \<open>the lines written so far\<close>

type_synonym 'a outcome = "(int + 'a) option"

definition ARRAY_MAX :: nat where
  "ARRAY_MAX = 100"

definition input_size :: nat where
  "input_size = 1024"

definition NUL :: char where
  "NUL = CHR 0x00"

definition cstr :: "char list \<Rightarrow> string" where
  "cstr b = takeWhile (\<lambda>c. c \<noteq> NUL) b"

text \<open>Writing a string and its NUL byte at the start of a buffer.\<close>

definition put_cstr :: "string \<Rightarrow> char list \<Rightarrow> char list option" where
  "put_cstr s b = (if length s < length b then Some (s @ NUL # drop (length s + 1) b) else None)"

section \<open>Replacements\<close>

text \<open>The text and the replaced string of a match; the buffers have 512 and 1024 bytes.\<close>

definition match_text :: "nat \<times> nat \<Rightarrow> string \<Rightarrow> string" where
  "match_text m s = take (snd m - fst m) (drop (fst m) s)"

definition replaced :: "nat \<times> nat \<Rightarrow> string \<Rightarrow> string \<Rightarrow> string" where
  "replaced m r s = take (fst m) s @ r @ drop (snd m) s"

definition replace_with_fixed_id :: "nat \<times> nat \<Rightarrow> string \<Rightarrow> tcfilter \<Rightarrow> tcfilter outcome" where
  "replace_with_fixed_id m replacement st =
     (let s = cstr (input st)
      in if snd m - fst m \<ge> 512 \<or> length (replaced m replacement s) \<ge> input_size then None
         else do { b \<leftarrow> put_cstr (replaced m replacement s) (input st);
                   Some (Inr (st\<lparr>input := b\<rparr>)) })"

fun lookup_text :: "string \<Rightarrow> string list \<Rightarrow> nat" where
  "lookup_text s [] = 0"
| "lookup_text s (x # xs) = (if s = x then 0 else Suc (lookup_text s xs))"

definition tag :: "string \<Rightarrow> nat \<Rightarrow> string" where
  "tag kind i = CHR ''@'' # kind @ ''<'' @ decimal (int i) @ ''>''"

definition replace_text :: "nat \<times> nat \<Rightarrow> string \<Rightarrow> tcfilter \<Rightarrow> tcfilter outcome" where
  "replace_text m kind st =
     (if length (namespace_array st) = ARRAY_MAX then Some (Inl 1)
      else if snd m - fst m \<ge> 512 then None
      else
        (let s = cstr (input st);
             i = lookup_text (match_text m s) (namespace_array st);
             names = (if i \<ge> length (namespace_array st) then namespace_array st @ [match_text m s] else namespace_array st)
         in if length (replaced m (tag kind i) s) \<ge> input_size then None
            else do { b \<leftarrow> put_cstr (replaced m (tag kind i) s) (input st);
                      Some (Inr (st\<lparr>input := b, namespace_array := names\<rparr>)) }))"

section \<open>The scan of a line\<close>

text \<open>
  One branch of the scan loop: a pattern, and what is done with the groups of a match, in the order
  of the code. The groups are replaced from the last to the first, so that the offsets stay valid.
\<close>

datatype action = Fixed nat string | Name nat

definition rules :: "(string \<times> action list) list" where
  "rules =
     [(pid_pattern, [Fixed 1 ''PID<?>'']),
      (nspace_rank_pid_pattern, [Fixed 2 ''PID<?>'', Name 1]),
      (nspace_pid_pattern, [Fixed 2 ''PID<?>'', Name 1]),
      (namespace_pattern, [Name 1]),
      (namespace_pattern2, [Name 1]),
      (host_pattern, [Fixed 1 ''<host>'']),
      (host_pid_ns_rank_pid_pattern, [Fixed 4 ''PID<?>'', Name 3, Fixed 2 ''PID<?>'', Fixed 1 ''<host>'']),
      (host_pid_ns_pattern, [Name 3, Fixed 2 ''PID<?>'', Fixed 1 ''<host>'']),
      (unconnected_tool_ns_pattern, [Name 1]),
      (uri_pattern, [Name 1]),
      (release_ns_pattern, [Name 1]),
      (tcp4_connect_pattern, [Fixed 1 ''<host>'']),
      (indirect_ns_pattern, [Name 1])]"

fun run_actions :: "(nat \<times> nat) list \<Rightarrow> action list \<Rightarrow> tcfilter \<Rightarrow> tcfilter outcome" where
  "run_actions matches [] st = Some (Inr st)"
| "run_actions matches (a # as) st =
     (case (case a of Fixed g r \<Rightarrow> replace_with_fixed_id (matches ! g) r st | Name g \<Rightarrow> replace_text (matches ! g) ''NS'' st) of
        None \<Rightarrow> None
      | Some (Inl code) \<Rightarrow> Some (Inl code)
      | Some (Inr st) \<Rightarrow> run_actions matches as st)"

type_synonym matcher = "string \<Rightarrow> string \<Rightarrow> (nat \<times> nat) list option"

fun first_rule :: "matcher \<Rightarrow> (string \<times> action list) list \<Rightarrow> string \<Rightarrow> ((nat \<times> nat) list \<times> action list) option" where
  "first_rule regexec [] s = None"
| "first_rule regexec ((p, as) # rs) s =
     (case regexec p s of None \<Rightarrow> first_rule regexec rs s | Some matches \<Rightarrow> Some (matches, as))"

partial_function (option) rescan :: "matcher \<Rightarrow> tcfilter \<Rightarrow> tcfilter outcome" where
  "rescan regexec st =
     (case first_rule regexec rules (cstr (input st)) of
        None \<Rightarrow> Some (Inr st)
      | Some (matches, as) \<Rightarrow>
          do { r \<leftarrow> run_actions matches as st;
               case r of Inl code \<Rightarrow> Some (Inl code) | Inr st \<Rightarrow> rescan regexec st })"

section \<open>The main program\<close>

text \<open>\<open>fgets(input, sizeof input - 1, stdin)\<close> reads at most 1022 bytes, up to a newline.\<close>

fun read_line :: "nat \<Rightarrow> string \<Rightarrow> string \<times> string" where
  "read_line 0 s = ([], s)"
| "read_line (Suc n) [] = ([], [])"
| "read_line (Suc n) (c # s) =
     (if c = CHR 10 then ([c], s) else (case read_line n s of (l, rest) \<Rightarrow> (c # l, rest)))"

text \<open>\<open>memmove\<close> of the string at column 24 to column 20, without its NUL byte.\<close>

definition remove_sequence :: "char list \<Rightarrow> char list" where
  "remove_sequence b =
     (let moved = cstr (drop 24 b) in take 20 b @ moved @ drop (20 + length moved) b)"

definition cut_newline :: "char list \<Rightarrow> char list" where
  "cut_newline b =
     (let before = takeWhile (\<lambda>c. c \<noteq> CHR 10) (cstr b)
      in if CHR 10 \<in> set (cstr b) then b[length before := NUL] else b)"

definition load_line :: "string \<Rightarrow> tcfilter \<Rightarrow> tcfilter option" where
  "load_line l st = do { b \<leftarrow> put_cstr l (input st); Some (st\<lparr>input := cut_newline (remove_sequence b)\<rparr>) }"

lemma read_line_shrinks: "0 < n \<Longrightarrow> read_line n (c # s) = (l, rest) \<Longrightarrow> length rest \<le> length s"
proof -
  have shrink: "read_line n s = (l, rest) \<Longrightarrow> length rest \<le> length s" for n s l rest
  proof (induction n s arbitrary: l rest rule: read_line.induct)
    case (3 n c s)
    then show ?case by (cases "read_line n s") (fastforce split: if_splits)
  qed auto
  assume "0 < n" "read_line n (c # s) = (l, rest)"
  then show "length rest \<le> length s"
    using shrink [of "n - 1" s] by (cases n; cases "read_line (n - 1) s") (auto split: if_splits)
qed

lemma read_line_rest: "(l, rest) = read_line 1022 (c # s) \<Longrightarrow> length rest < Suc (length s)"
  using read_line_shrinks [of 1022 c s l rest] by simp

function filter_lines :: "matcher \<Rightarrow> string \<Rightarrow> tcfilter \<Rightarrow> tcfilter outcome" where
  "filter_lines regexec [] st = Some (Inr st)"
| "filter_lines regexec (c # file) st =
     (case read_line 1022 (c # file) of (l, rest) \<Rightarrow>
        do { st \<leftarrow> load_line l st;
             r \<leftarrow> rescan regexec st;
             case r of
               Inl code \<Rightarrow> Some (Inl code)
             | Inr st \<Rightarrow> filter_lines regexec rest (st\<lparr>printed := printed st @ [cstr (input st)]\<rparr>) })"
  by pat_completeness auto
termination
  by (relation "measure (\<lambda>(_, file, _). length file)")
    (auto dest: read_line_rest)

text \<open>The patterns are compiled in this order; the first failure ends the program.\<close>

definition compile_order :: "string list" where
  "compile_order =
     [pid_pattern, namespace_pattern, namespace_pattern2, nspace_rank_pid_pattern, nspace_pid_pattern, host_pattern,
      host_pid_ns_pattern, host_pid_ns_rank_pid_pattern, unconnected_tool_ns_pattern, uri_pattern, release_ns_pattern,
      tcp4_connect_pattern, indirect_ns_pattern]"

definition tcfilter_start :: tcfilter where
  "tcfilter_start = \<lparr>input = replicate input_size NUL, namespace_array = [], printed = []\<rparr>"

text \<open>An exit leaves only its code: the lines printed before it are not kept.\<close>

definition tcfilter_main :: "(string \<Rightarrow> bool) \<Rightarrow> matcher \<Rightarrow> string \<Rightarrow> tcfilter outcome" where
  "tcfilter_main regcomp regexec file =
     (if \<exists>p \<in> set compile_order. \<not> regcomp p then Some (Inl 1) else filter_lines regexec file tcfilter_start)"

section \<open>Runs\<close>

text \<open>The steps of a run: a replacement, a line that is read, a line that is printed.\<close>

inductive filter_step :: "tcfilter \<Rightarrow> tcfilter \<Rightarrow> bool" where
  fixed: "replace_with_fixed_id m r st = Some (Inr st') \<Longrightarrow> filter_step st st'"
| name: "replace_text m ''NS'' st = Some (Inr st') \<Longrightarrow> filter_step st st'"
| line: "load_line l st = Some st' \<Longrightarrow> filter_step st st'"
| print: "filter_step st (st\<lparr>printed := printed st @ [cstr (input st)]\<rparr>)"

lemma run_actions_steps: "run_actions matches as st = Some (Inr st') \<Longrightarrow> filter_step\<^sup>*\<^sup>* st st'"
proof (induction "as" arbitrary: st)
  case (Cons a "as")
  then obtain st1 where st1: "filter_step st st1" "run_actions matches as st1 = Some (Inr st')"
    by (auto intro: filter_step.intros split: action.splits option.splits sum.splits)
  then show ?case using Cons.IH by (meson converse_rtranclp_into_rtranclp)
qed simp

lemma rescan_steps:
  assumes "rescan regexec st = Some r"
  shows "\<forall>st'. r = Inr st' \<longrightarrow> filter_step\<^sup>*\<^sup>* st st'"
proof (rule rescan.raw_induct [where P = "\<lambda>regexec st r. \<forall>st'. r = Inr st' \<longrightarrow> filter_step\<^sup>*\<^sup>* st st'", OF _ assms], goal_cases)
  case (1 rescan regexec st r)
  show ?case
  proof (cases "first_rule regexec rules (cstr (input st))")
    case None
    with 1(2) show ?thesis by auto
  next
    case (Some p)
    with 1(2) consider code where "r = Inl code"
      | st1 where "filter_step\<^sup>*\<^sup>* st st1" "rescan regexec st1 = Some r"
      by (cases p) (auto dest: run_actions_steps split: Option.bind_splits sum.splits)
    then show ?thesis using 1(1) by cases (auto intro: rtranclp_trans)
  qed
qed

lemma filter_lines_steps: "filter_lines regexec f st = Some (Inr st') \<Longrightarrow> filter_step\<^sup>*\<^sup>* st st'"
proof (induction regexec f st arbitrary: st' rule: filter_lines.induct)
  case (2 regexec c f st)
  obtain l rest where l: "read_line 1022 (c # f) = (l, rest)" by fastforce
  with "2.prems" obtain st1 st2 where s: "load_line l st = Some st1" "rescan regexec st1 = Some (Inr st2)"
      "filter_lines regexec rest (st2\<lparr>printed := printed st2 @ [cstr (input st2)]\<rparr>) = Some (Inr st')"
    by (auto split: Option.bind_splits sum.splits)
  have "filter_step st st1" using s(1) by (rule filter_step.line)
  also have "filter_step\<^sup>*\<^sup>* st1 st2" using rescan_steps [OF s(2)] by simp
  also have "filter_step st2 (st2\<lparr>printed := printed st2 @ [cstr (input st2)]\<rparr>)" by (rule filter_step.print)
  also have "filter_step\<^sup>*\<^sup>* (st2\<lparr>printed := printed st2 @ [cstr (input st2)]\<rparr>) st'"
    using "2.IH" [OF l [symmetric] s(1) s(2) refl] s(3) by blast
  finally show ?case .
qed simp

section \<open>Lines\<close>

lemma cstr_no_NUL: "NUL \<notin> set (cstr b)"
  by (auto simp: cstr_def dest: set_takeWhileD)

lemma cstr_append: "NUL \<notin> set s \<Longrightarrow> cstr (s @ NUL # r) = s"
  by (auto simp: cstr_def takeWhile_append)

lemma cstr_take: "k \<le> length (cstr b) \<Longrightarrow> take k b = take k (cstr b)"
  by (metis cstr_def min.absorb1 take_take takeWhile_eq_take)

lemma cstr_cut_newline: "cstr (cut_newline b) = takeWhile (\<lambda>c. c \<noteq> CHR 10) (cstr b)"
proof (cases "CHR 10 \<in> set (cstr b)")
  case True
  let ?before = "takeWhile (\<lambda>c. c \<noteq> CHR 10) (cstr b)"
  have less: "length ?before < length (cstr b)" 
  proof (rule ccontr)
    assume "\<not> ?thesis"
    then have "?before = cstr b" using takeWhile_eq_take [of "\<lambda>c. c \<noteq> CHR 10" "cstr b"] by simp
    then show False using True unfolding takeWhile_eq_all_conv by blast
  qed
  have le: "length (cstr b) \<le> length b" unfolding cstr_def by (rule length_takeWhile_le)
  have take: "take (length ?before) b = ?before"
    using cstr_take [of "length ?before" b] less takeWhile_eq_take [of "\<lambda>c. c \<noteq> CHR 10" "cstr b"] by simp
  have "cut_newline b = ?before @ NUL # drop (Suc (length ?before)) b"
    using True less le take by (simp add: cut_newline_def Let_def upd_conv_take_nth_drop)
  moreover have "NUL \<notin> set ?before" using cstr_no_NUL by (metis in_set_takeD takeWhile_eq_take)
  ultimately show ?thesis by (simp add: cstr_append)
next
  case False
  then have "takeWhile (\<lambda>c. c \<noteq> CHR 10) (cstr b) = cstr b" by (subst takeWhile_eq_all_conv) blast
  with False show ?thesis by (simp only: cut_newline_def Let_def if_False)
qed

lemma cstr_remove_sequence:
  assumes "NUL \<notin> set s" "24 \<le> length s"
  shows "cstr (remove_sequence (s @ NUL # r)) = take 20 s @ drop 24 s @ drop (length s - 4) s"
proof -
  have "cstr (drop 24 (s @ NUL # r)) = drop 24 s" 
    using cstr_append [of "drop 24 s" r] assms by (auto dest: in_set_dropD)
  moreover have "20 + length (drop 24 s) = length s - 4" using assms(2) by simp
  ultimately have "remove_sequence (s @ NUL # r) = (take 20 s @ drop 24 s @ drop (length s - 4) s) @ NUL # r"
    using assms(2) by (simp add: remove_sequence_def)
  also have "cstr \<dots> = take 20 s @ drop 24 s @ drop (length s - 4) s"
    using assms(1) by (intro cstr_append) (auto dest: in_set_takeD in_set_dropD)
  finally show ?thesis .
qed

lemma length_loaded: "load_line s st = Some st' \<Longrightarrow> length (input st) \<ge> 24 \<Longrightarrow> length (input st') = length (input st)"
proof -
  have "length (remove_sequence b) = length b" if "length b \<ge> 24" for b
    using that length_takeWhile_le [of "\<lambda>c. c \<noteq> NUL" "drop 24 b"] by (simp add: remove_sequence_def cstr_def Let_def)
  then show "load_line s st = Some st' \<Longrightarrow> length (input st) \<ge> 24 \<Longrightarrow> length (input st') = length (input st)"
    by (auto simp: load_line_def put_cstr_def cut_newline_def Let_def split: if_splits)
qed

text \<open>
  A line loses the columns 20 to 23 when it ends with a newline; in a line without one, such as the
  last line of a file, the last four characters come twice.
\<close>

lemma loaded_line:
  assumes "load_line s st = Some st'" "NUL \<notin> set t" "CHR 10 \<notin> set t" "24 \<le> length t"
  shows "s = t @ [CHR 10] \<Longrightarrow> cstr (input st') = take 20 t @ drop 24 t"
    and "s = t \<Longrightarrow> cstr (input st') = take 20 t @ drop 24 t @ drop (length t - 4) t"
proof -
  have st': "cstr (input st') = takeWhile (\<lambda>c. c \<noteq> CHR 10) (cstr (remove_sequence (s @ NUL # drop (length s + 1) (input st))))"
    using assms(1) by (auto simp: load_line_def put_cstr_def cstr_cut_newline split: if_splits)
  {
    assume s: "s = t @ [CHR 10]"
    then have "cstr (input st') = takeWhile (\<lambda>c. c \<noteq> CHR 10) ((take 20 t @ drop 24 t) @ CHR 10 # drop (length s - 4) s)"
      using st' cstr_remove_sequence [of s] assms(2,4) by (simp add: NUL_def)
    also have "\<dots> = take 20 t @ drop 24 t"
      using assms(3) by (subst takeWhile_append2) (auto dest: in_set_takeD in_set_dropD)
    finally show "cstr (input st') = take 20 t @ drop 24 t" .
  next
    assume "s = t"
    then show "cstr (input st') = take 20 t @ drop 24 t @ drop (length t - 4) t"
      using st' cstr_remove_sequence [of s] assms(2,3,4)
      by (auto simp: takeWhile_eq_all_conv dest: in_set_takeD in_set_dropD)
  }
qed

section \<open>Names\<close>

lemma cstr_put: "put_cstr s b = Some b' \<Longrightarrow> NUL \<notin> set s \<Longrightarrow> cstr b' = s \<and> length b' = length b"
  by (auto simp: put_cstr_def cstr_def takeWhile_append split: if_splits)

lemma tag_no_NUL: "NUL \<notin> set (tag ''NS'' i)"
proof -
  have "NUL \<notin> set (decimal (int i))" by (rule decimal_free) (simp_all add: NUL_def is_digit_char_def)
  then show ?thesis by (simp add: tag_def NUL_def)
qed

lemma replaced_no_NUL: "NUL \<notin> set r \<Longrightarrow> NUL \<notin> set s \<Longrightarrow> NUL \<notin> set (replaced m r s)"
  by (auto simp: replaced_def dest: in_set_takeD in_set_dropD)

lemma lookup_text_length: "lookup_text s xs \<le> length xs"
  by (induction xs) auto

lemma lookup_text_found: "lookup_text s xs < length xs \<Longrightarrow> xs ! lookup_text s xs = s"
  by (induction xs) (auto split: if_splits)

lemma lookup_text_absent: "lookup_text s xs = length xs \<longleftrightarrow> s \<notin> set xs"
  by (induction xs) auto

lemma replace_text_names:
  assumes "replace_text m ''NS'' st = Some (Inr st')"
  shows "\<exists>i more. namespace_array st' = namespace_array st @ more \<and> i < length (namespace_array st')
           \<and> namespace_array st' ! i = match_text m (cstr (input st))
           \<and> cstr (input st') = replaced m (tag ''NS'' i) (cstr (input st))
           \<and> (distinct (namespace_array st) \<longrightarrow> distinct (namespace_array st'))
           \<and> (length (namespace_array st) \<le> ARRAY_MAX \<longrightarrow> length (namespace_array st') \<le> ARRAY_MAX)"
proof -
  let ?x = "match_text m (cstr (input st))" and ?names = "namespace_array st"
  let ?i = "lookup_text ?x ?names" and ?names' = "if lookup_text ?x ?names \<ge> length ?names then ?names @ [?x] else ?names"
  obtain b where b: "put_cstr (replaced m (tag ''NS'' ?i) (cstr (input st))) (input st) = Some b"
    and st': "st' = st\<lparr>input := b, namespace_array := ?names'\<rparr>" and room: "length ?names \<noteq> ARRAY_MAX"
    using assms by (auto simp: replace_text_def Let_def split: if_splits Option.bind_splits)
  have "cstr (input st') = replaced m (tag ''NS'' ?i) (cstr (input st))"
    using cstr_put [OF b replaced_no_NUL [OF tag_no_NUL cstr_no_NUL]] by (simp add: st')
  moreover have "?i < length ?names' \<and> ?names' ! ?i = ?x"
    using lookup_text_length [of ?x ?names] lookup_text_found [of ?x ?names] by (cases "?i < length ?names") auto
  moreover have "distinct ?names \<longrightarrow> distinct ?names'"
    using lookup_text_absent [of ?x ?names] lookup_text_length [of ?x ?names] by auto
  moreover have "length ?names \<le> ARRAY_MAX \<longrightarrow> length ?names' \<le> ARRAY_MAX" using room by auto
  ultimately show ?thesis by (intro exI [of _ ?i]) (auto simp: st')
qed

text \<open>The table of names only grows at its end, without repetitions and within its size.\<close>

definition names_grow :: "tcfilter \<Rightarrow> tcfilter \<Rightarrow> bool" where
  "names_grow st st' \<longleftrightarrow> (\<exists>more. namespace_array st' = namespace_array st @ more)"

definition names_ok :: "tcfilter \<Rightarrow> bool" where
  "names_ok st \<longleftrightarrow> distinct (namespace_array st) \<and> length (namespace_array st) \<le> ARRAY_MAX"

lemma step_names: "filter_step st st' \<Longrightarrow> names_ok st \<Longrightarrow> names_ok st' \<and> names_grow st st'"
proof (induction rule: filter_step.induct)
  case (name m st st')
  then show ?case using replace_text_names [OF name(1)] by (auto simp: names_ok_def names_grow_def)
qed (auto simp: replace_with_fixed_id_def load_line_def Let_def names_ok_def names_grow_def split: if_splits Option.bind_splits)

interpretation names: step_relation filter_step names_ok names_grow
  by unfold_locales (rule step_names, assumption+, auto simp: names_grow_def)

text \<open>
  C23: the names of a run are uniform. Whenever two namespaces are replaced in a run of the filter,
  in one line or in different ones, the first by \<open>@NS<i>\<close> and the second by \<open>@NS<j>\<close>, the numbers are
  the same exactly when the texts are; the numbers are below the size of the array.
\<close>

theorem names_uniform:
  assumes "filter_step\<^sup>*\<^sup>* tcfilter_start st" and first: "replace_text m ''NS'' st = Some (Inr st1)"
    and later: "filter_step\<^sup>*\<^sup>* st1 st2" and second: "replace_text m' ''NS'' st2 = Some (Inr st3)"
  shows "\<exists>i j. cstr (input st1) = replaced m (tag ''NS'' i) (cstr (input st))
           \<and> cstr (input st3) = replaced m' (tag ''NS'' j) (cstr (input st2))
           \<and> i < ARRAY_MAX \<and> j < ARRAY_MAX
           \<and> (i = j \<longleftrightarrow> match_text m (cstr (input st)) = match_text m' (cstr (input st2)))"
proof -
  have start: "names_ok tcfilter_start" by (simp add: names_ok_def tcfilter_start_def)
  have steps: "filter_step\<^sup>*\<^sup>* tcfilter_start st3" "filter_step\<^sup>*\<^sup>* st1 st3"
    using assms filter_step.name by (meson rtranclp.rtrancl_into_rtrancl rtranclp_trans)+
  obtain i where i: "i < length (namespace_array st1)" "namespace_array st1 ! i = match_text m (cstr (input st))"
      "cstr (input st1) = replaced m (tag ''NS'' i) (cstr (input st))"
    using replace_text_names [OF first] by blast
  obtain j where j: "j < length (namespace_array st3)" "namespace_array st3 ! j = match_text m' (cstr (input st2))"
      "cstr (input st3) = replaced m' (tag ''NS'' j) (cstr (input st2))"
    using replace_text_names [OF second] by blast
  obtain more where more: "namespace_array st3 = namespace_array st1 @ more"
    using names.steps_keep [OF steps(2)] names.steps_keep [OF _ start, of st1] assms(1) filter_step.name [OF first]
    by (auto simp: names_grow_def dest: rtranclp.rtrancl_into_rtrancl)
  have ok: "distinct (namespace_array st3)" "length (namespace_array st3) \<le> ARRAY_MAX"
    using names.steps_keep [OF steps(1) start] by (simp_all add: names_ok_def)
  have "namespace_array st3 ! i = match_text m (cstr (input st))" "i < length (namespace_array st3)"
    using i(1,2) by (simp_all add: more nth_append)
  then have "i = j \<longleftrightarrow> match_text m (cstr (input st)) = match_text m' (cstr (input st2))"
    using nth_eq_iff_index_eq [OF ok(1)] j(1,2) by metis
  moreover have "i < ARRAY_MAX" "j < ARRAY_MAX" using i(1) j(1) ok(2) more by auto
  ultimately show ?thesis using i(3) j(3) by blast
qed

definition first_line :: string where
  "first_line = ''[1,0]<stdout>: hello0001 rank 0 of prte.1 and prte.1''"

theorem names_uniform_witness:
  "\<exists>i j. ''[1,0]<stdout>: hello rank 0 of @NS<0> and prte.1'' = replaced (31, 37) (tag ''NS'' i) ''[1,0]<stdout>: hello rank 0 of prte.1 and prte.1''
     \<and> ''[1,0]<stdout>: hello rank 0 of @NS<0> and @NS<0>'' = replaced (42, 48) (tag ''NS'' j) ''[1,0]<stdout>: hello rank 0 of @NS<0> and prte.1'' \<and> i = j"
proof -
  let ?s = "''[1,0]<stdout>: hello rank 0 of prte.1 and prte.1''" and ?s1 = "''[1,0]<stdout>: hello rank 0 of @NS<0> and prte.1''"
  have put: "put_cstr (first_line @ [CHR 10]) (input tcfilter_start) \<noteq> None"
    by (simp add: put_cstr_def tcfilter_start_def input_size_def first_line_def)
  then obtain st where st: "load_line (first_line @ [CHR 10]) tcfilter_start = Some st" by (auto simp: load_line_def)
  have s: "cstr (input st) = ?s"
    using loaded_line(1) [OF st, of first_line] by (simp add: first_line_def NUL_def)
  have len: "length (input st) = 1024" "namespace_array st = []"
    using length_loaded [OF st] st by (auto simp: tcfilter_start_def input_size_def load_line_def split: Option.bind_splits)
  have tag: "tag ''NS'' 0 = ''@NS<0>''" by code_simp
  obtain st1 where st1: "replace_text (31, 37) ''NS'' st = Some (Inr st1)" "namespace_array st1 = [''prte.1'']"
      "length (input st1) = 1024" "cstr (input st1) = ?s1"
    using cstr_put [of ?s1 "input st"]
    by (auto simp: replace_text_def s len match_text_def replaced_def tag ARRAY_MAX_def input_size_def put_cstr_def NUL_def)
  obtain st3 where st3: "replace_text (42, 48) ''NS'' st1 = Some (Inr st3)"
      "cstr (input st3) = ''[1,0]<stdout>: hello rank 0 of @NS<0> and @NS<0>''"
    using cstr_put [of "''[1,0]<stdout>: hello rank 0 of @NS<0> and @NS<0>''" "input st1"]
    by (auto simp: replace_text_def st1 match_text_def replaced_def tag ARRAY_MAX_def input_size_def put_cstr_def NUL_def)
  have "filter_step\<^sup>*\<^sup>* tcfilter_start st" using filter_step.line [OF st] by (rule r_into_rtranclp)
  from names_uniform [OF this st1(1) _ st3(1)] st3(2)
  show ?thesis by (auto simp: s st1(4) match_text_def)
qed

end
