(* ===== verification/Finish.thy ===== *)
theory Finish
  imports CliStages
begin

text \<open>
  How a run of the test harness ends: the SIGCHLD handler \<open>wait_signal_callback\<close>, \<open>srv_wait_all\<close> and
  \<open>server_finalize\<close> (src/unit/test_server.c), and the main program of src/unit/pmix_test.c after the
  clients were launched. The handlers that run in the progress thread are events between the steps
  of the main thread. Times are microseconds since the start; what \<open>waitpid\<close> and the clock answer
  are scripts. The result \<open>None\<close> is a fault, or a wait that never ends.
\<close>

section \<open>The handler of SIGCHLD\<close>

datatype child_status = Has_exited int | Was_killed int

text \<open>\<open>WEXITSTATUS\<close> takes the second byte of the status: 0 for a process killed by a signal.\<close>

definition WEXITSTATUS :: "child_status \<Rightarrow> int" where
  "WEXITSTATUS st = (case st of Has_exited c \<Rightarrow> c mod 256 | Was_killed sig \<Rightarrow> 0)"

record test_run =
  table :: harness
  exit_codes :: "int list"                \<comment> \<open>\<open>cli_info[i].exit_code\<close>\<close>
  still_alive :: "bool list"              \<comment> \<open>\<open>cli_info[i].alive\<close>\<close>
  test_complete :: bool

fun index_of_pid :: "int \<Rightarrow> cli_info_t list \<Rightarrow> nat option" where
  "index_of_pid p [] = None"
| "index_of_pid p (c # cs) = (if pid c = p then Some 0 else map_option Suc (index_of_pid p cs))"

definition exit_code_of :: "child_status \<Rightarrow> int" where
  "exit_code_of st = (case st of Has_exited c \<Rightarrow> c mod 256 | Was_killed sig \<Rightarrow> sig + 128)"

definition handle_child :: "int \<times> child_status \<Rightarrow> test_run \<Rightarrow> test_run option" where
  "handle_child = (\<lambda>(p, st) r.
     (case index_of_pid p (cli_info (table r)) of
        None \<Rightarrow> Some r
      | Some i \<Rightarrow> do {
          h \<leftarrow> cli_cleanup i (table r);
          Some (r\<lparr>table := h, exit_codes := (exit_codes r)[i := exit_code_of st], still_alive := (still_alive r)[i := False]\<rparr>) }))"

fun handle_children :: "(int \<times> child_status) list \<Rightarrow> test_run \<Rightarrow> test_run option" where
  "handle_children [] r = Some r"
| "handle_children (c # cs) r = do { r \<leftarrow> handle_child c r; handle_children cs r }"

text \<open>The processes \<open>waitpid\<close> reports until it has none left (0 or an error).\<close>

definition wait_signal_callback :: "(int \<times> child_status) list \<Rightarrow> test_run \<Rightarrow> test_run option" where
  "wait_signal_callback cs r =
     do { r \<leftarrow> handle_children cs r;
          Some (if \<exists>b \<in> set (still_alive r). b then r else r\<lparr>test_complete := True\<rparr>) }"

section \<open>Waiting for the clients\<close>

text \<open>
  What happens in the progress thread: the SIGCHLD handler, the finalize message of client \<open>i\<close>
  (\<open>finalized\<close> of server_callbacks.c calls \<open>cli_finalize\<close> for a named client that has not ended), and
  the abort request of a client.
\<close>

datatype event = Children "(int \<times> child_status) list" | Client_finalizes nat | Client_aborts

definition named :: "cli_info_t \<Rightarrow> bool" where
  "named c = (case ns c of Ns s \<Rightarrow> True | _ \<Rightarrow> False)"

definition do_event :: "event \<Rightarrow> test_run \<Rightarrow> test_run option" where
  "do_event e r =
     (case e of
        Children cs \<Rightarrow> wait_signal_callback cs r
      | Client_finalizes i \<Rightarrow>
          (case cli i (table r) of
             None \<Rightarrow> Some r
           | Some c \<Rightarrow>
               if named c \<and> state c < CLI_TERM then do { h \<leftarrow> cli_finalize i (table r); Some (r\<lparr>table := h\<rparr>) } else Some r)
      | Client_aborts \<Rightarrow> Some (r\<lparr>table := (table r)\<lparr>test_abort := True\<rparr>\<rparr>))"

fun do_events :: "event list \<Rightarrow> test_run \<Rightarrow> test_run option" where
  "do_events [] r = Some r"
| "do_events (e # es) r = do { r \<leftarrow> do_event e r; do_events es r }"

text \<open>
  The loop of \<open>main\<close>: \<open>Left\<close> when the test is terminated or the time is over, \<open>Exited0\<close> when
  \<open>cli_wait_all\<close> calls \<open>exit(0)\<close>, \<open>Goes_on\<close> when the script is used up. An iteration is given by the
  events that happen meanwhile, the time the clock shows and the rounds of \<open>cli_wait_all(0)\<close>.
\<close>

datatype loop_end = Left_loop test_run | Exited0 test_run | Goes_on test_run

type_synonym iteration = "event list \<times> int \<times> round list"

fun main_loop :: "int \<Rightarrow> iteration list \<Rightarrow> test_run \<Rightarrow> loop_end option" where
  "main_loop timeout [] r = Some (if test_terminated (table r) then Left_loop r else Goes_on r)"
| "main_loop timeout ((es, now, rs) # script) r =
     (if test_terminated (table r) then Some (Left_loop r)
      else do {
        r \<leftarrow> do_events es r;
        if timeout < now then Some (Left_loop r)
        else do {
          w \<leftarrow> cli_wait_all 0 rs (table r);
          (case w of
             Done h \<Rightarrow> main_loop timeout script (r\<lparr>table := h\<rparr>)
           | Exited h \<Rightarrow> Some (Exited0 (r\<lparr>table := h\<rparr>))
           | Waiting h \<Rightarrow> Some (Goes_on (r\<lparr>table := h\<rparr>))) } })"

section \<open>Waiting for the other servers\<close>

text \<open>
  The entries of \<open>server_list\<close> by their process identifiers, and the answers of the blocking
  \<open>waitpid\<close> with the time after it. The result is the sum of the statuses and the servers left
  when the time is over.
\<close>

fun srv_wait_loop ::
  "int \<Rightarrow> int \<Rightarrow> (int \<times> child_status \<times> int) list \<Rightarrow> int list \<Rightarrow> int \<Rightarrow> (int \<times> int list) option" where
  "srv_wait_loop timeout elapsed [] servers ret =
     (if servers = [] \<or> timeout < elapsed then Some (ret, servers) else None)"
| "srv_wait_loop timeout elapsed ((p, st, now) # script) servers ret =
     (if servers = [] \<or> timeout < elapsed then Some (ret, servers)
      else if p \<ge> 0 then
        srv_wait_loop timeout now script (filter (\<lambda>s. s \<noteq> p) servers)
          (ret + WEXITSTATUS st * int (length (filter (\<lambda>s. s = p) servers)))
      else srv_wait_loop timeout now script servers ret)"

definition srv_wait_all :: "int \<Rightarrow> int \<Rightarrow> (int \<times> child_status \<times> int) list \<Rightarrow> int list \<Rightarrow> (int \<times> int list) option" where
  "srv_wait_all timeout own script servers = srv_wait_loop timeout 0 script (remove1 own servers) 0"

text \<open>What the system and the library answer at the end of a server.\<close>

record ending =
  barrier_rc :: int                       \<comment> \<open>\<open>server_barrier()\<close>\<close>
  fin_rc :: int                           \<comment> \<open>\<open>PMIx_server_finalize()\<close>\<close>
  own_id :: int                           \<comment> \<open>\<open>my_server_id\<close>\<close>
  own_process :: int                      \<comment> \<open>\<open>getpid()\<close>\<close>
  servers :: "int list"                   \<comment> \<open>the processes of \<open>server_list\<close>\<close>
  servers_end :: "(int \<times> child_status \<times> int) list"

definition server_finalize :: "ending \<Rightarrow> bool \<Rightarrow> int \<Rightarrow> (int \<times> int list) option" where
  "server_finalize e nservers local_fail =
     (if barrier_rc e \<noteq> 0 then Some (local_fail + 1, servers e)
      else do {
        (total, left) \<leftarrow>
          (if nservers \<and> own_id e = 0
           then do { (ret, left) \<leftarrow> srv_wait_all 10000000 (own_process e) (servers_end e) (servers e);
                     Some (local_fail + ret, left) }
           else Some (local_fail, tl (servers e)));
        Some (if fin_rc e \<noteq> 0 then total + fin_rc e else total, left) })"

section \<open>The end of the main program\<close>

datatype test_end = Returned int "int list" test_run | Exit_0 | Running

text \<open>
  After the launch with the result \<open>test_fail\<close>. \<open>spawned\<close> tells whether a requested spawn completes;
  \<open>rs\<close> are the rounds of the last \<open>cli_wait_all(1.0)\<close>.
\<close>

definition pmix_test_end ::
  "int \<Rightarrow> iteration list \<Rightarrow> round list \<Rightarrow> bool \<Rightarrow> ending \<Rightarrow> bool \<Rightarrow> int \<Rightarrow> test_run \<Rightarrow> test_end option" where
  "pmix_test_end timeout script rs spawned e nservers test_fail r =
     do { end \<leftarrow> main_loop timeout script r;
          (case end of
             Exited0 r \<Rightarrow> Some Exit_0
           | Goes_on r \<Rightarrow> Some Running
           | Left_loop r \<Rightarrow> do {
               (fail, h) \<leftarrow>
                 (if \<not> test_terminated (table r) then do { h \<leftarrow> cli_kill_all (table r); Some (1, h) }
                  else Some (test_fail, table r));
               let fail = (if test_abort h then 1 else fail);
               if \<not> spawned then None
               else do {
                 w \<leftarrow> cli_wait_all 1000000 rs h;
                 (case w of
                    Exited h \<Rightarrow> Some Exit_0
                  | Waiting h \<Rightarrow> Some Running
                  | Done h \<Rightarrow> do {
                      (total, left) \<leftarrow> server_finalize e nservers fail;
                      Some (Returned (fail + total) left (r\<lparr>table := h\<rparr>)) }) } }) }"

section \<open>Steps\<close>

lemma index_of_pid_Some:
  "index_of_pid p cs = Some i \<Longrightarrow> i < length cs \<and> pid (cs ! i) = p"
  by (induction cs arbitrary: i) (auto split: if_splits)

text \<open>Live process identifiers are different, so the handler does what \<open>cli_wait_all\<close> does.\<close>

lemma cleanup_is_reap:
  assumes ok: "table_ok h" and "0 < p" and i: "i < length (cli_info h)" "pid (cli_info h ! i) = p"
  shows "cli_cleanup i h = reap p True h"
proof -
  let ?cs = "cli_info h" and ?f = "\<lambda>c. if pid c = p then terminated c else c"
  let ?c = "?cs ! i"
  have run: "running c \<longleftrightarrow> 0 < pid c" if "c \<in> set ?cs" for c
    using ok that running_pid by (auto simp: table_ok_def list_all_iff)
  have c: "client_ok ?c" "running ?c" using ok i assms(2) run by (auto simp: table_ok_def list_all_length)
  have cs: "?cs = take i ?cs @ ?c # drop (Suc i) ?cs" using i(1) by (rule id_take_nth_drop)
  have dist: "distinct (map pid (filter running (take i ?cs @ ?c # drop (Suc i) ?cs)))"
    using ok by (simp add: table_ok_def flip: cs)
  have others: "pid x \<noteq> p" if "x \<in> set (take i ?cs) \<union> set (drop (Suc i) ?cs)" for x
  proof
    assume eq: "pid x = p"
    have "running x" using that run [of x] assms(2) eq by (auto dest: in_set_takeD in_set_dropD)
    then have "pid ?c \<in> pid ` {x \<in> set (take i ?cs). running x} \<union> pid ` {x \<in> set (drop (Suc i) ?cs). running x}"
      using that eq i(2) by (auto intro!: image_eqI [of _ pid x])
    then show False using dist c(2) by (auto simp: image_iff)
  qed
  have "map ?f ?cs = map ?f (take i ?cs) @ ?f ?c # map ?f (drop (Suc i) ?cs)" by (subst cs) simp
  also have "\<dots> = ?cs[i := terminated ?c]"
    using others i by (simp add: upd_conv_take_nth_drop map_idI)
  finally have "map ?f ?cs = ?cs[i := terminated ?c]" .
  moreover have "(\<exists>x \<in> set ?cs. pid x = p \<and> state x = CLI_FORKED) \<longleftrightarrow> state ?c = CLI_FORKED"
    using others i by (subst cs) auto
  ultimately show ?thesis
    using cleanup_running [of i h, OF _ c] reap_ok [OF ok assms(2), of True] i(1) by (simp add: cli_def)
qed

lemma handle_child_step:
  assumes "handle_child (p, st) r = Some r'" "table_ok (table r)" "0 < p"
  shows "cli_step\<^sup>*\<^sup>* (table r) (table r')"
proof (cases "index_of_pid p (cli_info (table r))")
  case None
  then show ?thesis using assms(1) by (simp add: handle_child_def)
next
  case (Some i)
  then obtain h where h: "cli_cleanup i (table r) = Some h" "table r' = h"
    using assms(1) by (auto simp: handle_child_def split: Option.bind_splits)
  then have "reap p True (table r) = Some h"
    using cleanup_is_reap [OF assms(2,3)] index_of_pid_Some [OF Some] by simp
  then show ?thesis using h(2) cli_step.reaped [OF assms(3)] by blast
qed

lemma steps_ok: "cli_step\<^sup>*\<^sup>* h h' \<Longrightarrow> table_ok h \<Longrightarrow> table_ok h'"
  using client_table.steps_keep by blast

lemma handle_children_steps:
  "handle_children cs r = Some r' \<Longrightarrow> table_ok (table r) \<Longrightarrow> \<forall>(p, st) \<in> set cs. 0 < p \<Longrightarrow> cli_step\<^sup>*\<^sup>* (table r) (table r')"
proof (induction cs arbitrary: r)
  case (Cons c cs)
  obtain p st where c: "c = (p, st)" by (cases c)
  with Cons.prems obtain r1 where r1: "handle_child (p, st) r = Some r1" "handle_children cs r1 = Some r'"
    by (auto split: Option.bind_splits)
  have "cli_step\<^sup>*\<^sup>* (table r) (table r1)" using handle_child_step [OF r1(1)] Cons.prems c by auto
  with Cons.IH [OF r1(2)] steps_ok Cons.prems show ?case by (meson list.set_intros(2) rtranclp_trans)
qed simp

definition event_ok :: "event \<Rightarrow> bool" where
  "event_ok e = (case e of Children cs \<Rightarrow> (\<forall>(p, st) \<in> set cs. 0 < p) | _ \<Rightarrow> True)"

lemma do_event_steps:
  assumes "do_event e r = Some r'" "table_ok (table r)" "event_ok e"
  shows "cli_step\<^sup>*\<^sup>* (table r) (table r')"
proof (cases e)
  case (Children cs)
  then obtain r1 where "handle_children cs r = Some r1" "table r' = table r1"
    using assms(1) by (auto simp: do_event_def wait_signal_callback_def split: Option.bind_splits if_splits)
  then show ?thesis using handle_children_steps assms(2,3) Children by (auto simp: event_ok_def)
next
  case (Client_finalizes i)
  show ?thesis
  proof (cases "\<exists>c. cli i (table r) = Some c \<and> named c \<and> state c < CLI_TERM")
    case True
    then obtain c where "cli i (table r) = Some c" "named c" "state c < CLI_TERM" by blast
    then obtain name where c: "cli i (table r) = Some c" "ns c = Ns name" "state c < CLI_TERM" "named c"
      by (cases "ns c") (auto simp: named_def)
    then have "cli_finalize i (table r) = Some (table r')"
      using assms(1) Client_finalizes by (auto simp: do_event_def split: Option.bind_splits)
    then show ?thesis using cli_step.finalize [OF c(1-3)] by blast
  next
    case False
    then have "r' = r" using assms(1) Client_finalizes by (auto simp: do_event_def split: option.splits if_splits)
    then show ?thesis by simp
  qed
next
  case Client_aborts
  then show ?thesis using assms(1) cli_step.abort [of "table r"] by (auto simp: do_event_def)
qed

lemma do_events_steps:
  "do_events es r = Some r' \<Longrightarrow> table_ok (table r) \<Longrightarrow> list_all event_ok es \<Longrightarrow> cli_step\<^sup>*\<^sup>* (table r) (table r')"
proof (induction es arbitrary: r)
  case (Cons e es)
  then obtain r1 where r1: "do_event e r = Some r1" "do_events es r1 = Some r'" by (auto split: Option.bind_splits)
  have "cli_step\<^sup>*\<^sup>* (table r) (table r1)" using do_event_steps [OF r1(1)] Cons.prems by simp
  with Cons.IH [OF r1(2)] steps_ok Cons.prems show ?case by (auto intro: rtranclp_trans)
qed simp

definition round_ok :: "round \<Rightarrow> bool" where
  "round_ok rd \<longleftrightarrow> (\<forall>(p, g) \<in> set (fst rd). 0 < p)"

lemma reap_all_steps:
  "reap_all ps h = Some h' \<Longrightarrow> \<forall>(p, g) \<in> set ps. 0 < p \<Longrightarrow> cli_step\<^sup>*\<^sup>* h h'"
proof (induction ps arbitrary: h)
  case (Cons x ps)
  obtain p g where x: "x = (p, g)" by (cases x)
  with Cons.prems obtain h1 where "reap p g h = Some h1" "reap_all ps h1 = Some h'" by (auto split: Option.bind_splits)
  then show ?case using cli_step.reaped [of p g h h1] Cons.IH Cons.prems(2) x
    by (auto intro: converse_rtranclp_into_rtranclp)
qed simp

definition table_of :: "wait_result \<Rightarrow> harness" where
  "table_of w = (case w of Done h \<Rightarrow> h | Exited h \<Rightarrow> h | Waiting h \<Rightarrow> h)"

lemma wait_rounds_steps:
  "wait_rounds timeout elapsed rs h = Some w \<Longrightarrow> list_all round_ok rs \<Longrightarrow> cli_step\<^sup>*\<^sup>* h (table_of w)"
proof (induction rs arbitrary: elapsed h)
  case Nil
  then show ?case by (subst (asm) wait_rounds.simps) (auto simp: table_of_def split: if_splits)
next
  case (Cons rd rs)
  obtain ps answer now where rd: "rd = (ps, answer, now)" by (cases rd) auto
  show ?case
  proof (cases "test_terminated h \<or> timeout < elapsed")
    case True
    then show ?thesis using Cons.prems(1) by (subst (asm) wait_rounds.simps) (auto simp: table_of_def)
  next
    case False
    with Cons.prems(1) obtain h1 where h1: "reap_all ps h = Some h1"
      "(case answer of No_child \<Rightarrow> Some (Done h1) | Wait_failed \<Rightarrow> Some (Exited h1)
        | Still_running \<Rightarrow> wait_rounds timeout now rs h1) = Some w"
      by (subst (asm) wait_rounds.simps) (auto simp: rd split: Option.bind_splits)
    have "cli_step\<^sup>*\<^sup>* h h1" using reap_all_steps [OF h1(1)] Cons.prems(2) by (simp add: round_ok_def rd)
    moreover have "cli_step\<^sup>*\<^sup>* h1 (table_of w)"
      using h1(2) Cons.IH Cons.prems(2) by (auto simp: table_of_def split: last_answer.splits)
    ultimately show ?thesis by simp
  qed
qed

section \<open>A client that ends without an abort has finalized\<close>

lemma table_states: "table_ok h \<Longrightarrow> i < length (cli_info h) \<Longrightarrow> state (cli_info h ! i) \<in> {CLI_UNINIT, CLI_FORKED, CLI_FIN, CLI_TERM}"
  by (auto simp: table_ok_def list_all_length client_ok_def idle_def running_def ended_def)

lemma map_ended_abort:
  assumes "cli_info h' = map f (cli_info h)" "i < length (cli_info h)" "state (cli_info h ! i) = CLI_FORKED"
    "state (cli_info h' ! i) = CLI_TERM" "\<And>c. c \<in> set (cli_info h) \<Longrightarrow> state (f c) = state c \<or> P c"
    "test_abort h' \<longleftrightarrow> test_abort h \<or> (\<exists>c \<in> set (cli_info h). P c \<and> state c = CLI_FORKED)"
  shows "test_abort h'"
proof -
  have "cli_info h ! i \<in> set (cli_info h)" "state (f (cli_info h ! i)) = CLI_TERM" using assms(1,2,4) by auto
  then have "P (cli_info h ! i)" using assms(3,5) by fastforce
  then show ?thesis using assms(2,3,6) by auto
qed

lemma step_ends_abort:
  assumes "cli_step h h'" "table_ok h" "i < length (cli_info h)" "state (cli_info h ! i) = CLI_FORKED"
    "state (cli_info h' ! i) = CLI_TERM"
  shows "test_abort h'"
  using assms(1)
proof (cases rule: cli_stepE)
  case (launch j c p r name)
  then show ?thesis using assms(3-5) by (cases "j = i") (auto simp: cli_launch_def set_cli_def)
next
  case (finalize j c name)
  then show ?thesis
    using assms(3-5)
    by (cases "j = i") (auto simp: cli_finalize_def set_cli_def Let_def split: if_splits Option.bind_splits)
next
  case (reaped p gone)
  from reap_ok [OF assms(2) reaped(1), of gone] reaped(2) have h': "h' = h\<lparr>
      cli_info := map (\<lambda>c. if gone \<and> pid c = p then terminated c else c) (cli_info h),
      test_abort := test_abort h \<or> (gone \<and> (\<exists>c \<in> set (cli_info h). pid c = p \<and> state c = CLI_FORKED))\<rparr>" by simp
  show ?thesis
    by (rule map_ended_abort [where P = "\<lambda>c. gone \<and> pid c = p" and f = "\<lambda>c. if gone \<and> pid c = p then terminated c else c", OF _ assms(3-5)]) (auto simp: h')
next
  case kill
  from kill_all_ok [OF assms(2)] kill have h': "h' = h\<lparr>
      cli_info := map (\<lambda>c. if running c then terminated c else c) (cli_info h),
      test_abort := test_abort h \<or> (\<exists>c \<in> set (cli_info h). running c \<and> state c = CLI_FORKED),
      killed := killed h @ map pid (filter running (cli_info h))\<rparr>" by simp
  show ?thesis
    by (rule map_ended_abort [where P = running and f = "\<lambda>c. if running c then terminated c else c", OF _ assms(3-5)]) (auto simp: h')
next
  case abort
  then show ?thesis by simp
qed

lemma ends_after_finalize:
  assumes "cli_step\<^sup>*\<^sup>* h h'" "table_ok h" "i < length (cli_info h)" "state (cli_info h ! i) \<in> {CLI_FORKED, CLI_FIN}"
    "state (cli_info h' ! i) = CLI_TERM" "\<not> test_abort h'"
  shows "\<exists>g. cli_step\<^sup>*\<^sup>* h g \<and> cli_step\<^sup>*\<^sup>* g h' \<and> state (cli_info g ! i) = CLI_FIN"
  using assms(1,5,6)
proof (induction rule: rtranclp_induct)
  case base
  then show ?case using assms(4) by auto
next
  case (step y z)
  have y: "table_ok y" "forward h y" using client_table.steps_keep [OF step.hyps(1) assms(2)] by auto
  then have i: "i < length (cli_info y)" and mono: "state (cli_info h ! i) \<le> state (cli_info y ! i)"
    using assms(3) by (auto simp: forward_def)
  have "\<not> test_abort y" using step_forward [OF step.hyps(2) y(1)] step.prems(2) by (auto simp: forward_def)
  consider "state (cli_info y ! i) = CLI_TERM" | "state (cli_info y ! i) = CLI_FIN" | "state (cli_info y ! i) = CLI_FORKED"
    using table_states [OF y(1) i] mono assms(4) by (auto simp: less_eq_cli_state_def)
  then show ?case
  proof cases
    case 1
    then show ?thesis using step.IH \<open>\<not> test_abort y\<close> step.hyps(2) by (meson rtranclp.rtrancl_into_rtrancl)
  next
    case 2
    then show ?thesis using step.hyps by blast
  next
    case 3
    then show ?thesis using step_ends_abort [OF step.hyps(2) y(1) i _ step.prems(1)] step.prems(2) by blast
  qed
qed

section \<open>The verdict\<close>

definition iteration_ok :: "iteration \<Rightarrow> bool" where
  "iteration_ok it \<longleftrightarrow> list_all event_ok (fst it) \<and> list_all round_ok (snd (snd it))"

lemma main_loop_steps:
  "main_loop timeout script r = Some (Left_loop r') \<Longrightarrow> table_ok (table r) \<Longrightarrow> list_all iteration_ok script
     \<Longrightarrow> cli_step\<^sup>*\<^sup>* (table r) (table r')"
proof (induction script arbitrary: r)
  case Nil
  then show ?case by (auto split: if_splits)
next
  case (Cons it script)
  obtain es now rs where it: "it = (es, now, rs)" by (cases it) auto
  show ?case
  proof (cases "test_terminated (table r)")
    case True
    then show ?thesis using Cons.prems(1) by (simp add: it)
  next
    case False
    then obtain r1 where r1: "do_events es r = Some r1" using Cons.prems(1) by (auto simp: it split: Option.bind_splits)
    have ok: "list_all event_ok es" "list_all round_ok rs" using Cons.prems(3) by (auto simp: iteration_ok_def it)
    have s1: "cli_step\<^sup>*\<^sup>* (table r) (table r1)" by (rule do_events_steps [OF r1 Cons.prems(2) ok(1)])
    show ?thesis
    proof (cases "timeout < now")
      case True
      then show ?thesis using Cons.prems(1) False r1 s1 by (simp add: it)
    next
      case False
      with Cons.prems(1) \<open>\<not> test_terminated (table r)\<close> r1 obtain h where
        h: "cli_wait_all 0 rs (table r1) = Some (Done h)" "main_loop timeout script (r1\<lparr>table := h\<rparr>) = Some (Left_loop r')"
        by (auto simp: it split: Option.bind_splits wait_result.splits)
      have s2: "cli_step\<^sup>*\<^sup>* (table r1) h"
        using wait_rounds_steps [OF h(1) [unfolded cli_wait_all_def] ok(2)] by (simp add: table_of_def)
      have "cli_step\<^sup>*\<^sup>* h (table r')"
        using Cons.IH [OF h(2)] steps_ok [OF s2 steps_ok [OF s1 Cons.prems(2)]] Cons.prems(3) by simp
      with s1 s2 show ?thesis by (meson rtranclp_trans)
    qed
  qed
qed

lemma WEXITSTATUS_nonneg [simp]: "0 \<le> WEXITSTATUS st"
  by (simp add: WEXITSTATUS_def split: child_status.split)

lemma srv_wait_loop_result:
  "srv_wait_loop timeout elapsed script srvs ret = Some (ret', left) \<Longrightarrow>
     ret \<le> ret' \<and> (ret' = ret \<longrightarrow> (\<forall>p \<in> set srvs - set left. \<exists>st now. (p, st, now) \<in> set script \<and> WEXITSTATUS st = 0))"
proof (induction timeout elapsed script srvs ret rule: srv_wait_loop.induct)
  case (1 timeout elapsed srvs ret)
  then show ?case by (auto split: if_splits)
next
  case (2 timeout elapsed p st now script srvs ret)
  show ?case
  proof (cases "srvs = [] \<or> timeout < elapsed \<or> p < 0")
    case True
    then show ?thesis using 2 by (cases "srvs = [] \<or> timeout < elapsed") (auto, blast+)
  next
    case False
    let ?n = "length (filter (\<lambda>s. s = p) srvs)"
    have loop: "srv_wait_loop timeout now script (filter (\<lambda>s. s \<noteq> p) srvs) (ret + WEXITSTATUS st * int ?n) = Some (ret', left)"
      using 2(3) False by simp
    have IH: "ret + WEXITSTATUS st * int ?n \<le> ret' \<and> (ret' = ret + WEXITSTATUS st * int ?n \<longrightarrow>
        (\<forall>q \<in> set (filter (\<lambda>s. s \<noteq> p) srvs) - set left. \<exists>st now. (q, st, now) \<in> set script \<and> WEXITSTATUS st = 0))"
      by (rule "2.IH"(1)) (use False loop in auto)
    have more: "0 \<le> WEXITSTATUS st * int ?n" by simp
    have zero: "WEXITSTATUS st = 0" if "ret' = ret" "p \<in> set srvs"
    proof -
      have "?n \<noteq> 0" using that(2) by (auto simp: filter_empty_conv)
      moreover have "WEXITSTATUS st * int ?n = 0" using IH more that(1) by linarith
      ultimately show ?thesis by simp
    qed
    have "\<exists>sta nowa. (q, sta, nowa) \<in> set ((p, st, now) # script) \<and> WEXITSTATUS sta = 0"
      if "ret' = ret" "q \<in> set srvs - set left" for q
    proof (cases "q = p")
      case True
      then show ?thesis using zero that by auto
    next
      case False
      have "WEXITSTATUS st * int ?n = 0" using IH more that(1) by linarith
      then show ?thesis using IH that False by fastforce
    qed
    moreover have "ret \<le> ret'" using IH more by linarith
    ultimately show ?thesis by blast
  qed
qed

text \<open>What a failure of this server adds, and the statuses of the others.\<close>

lemma server_finalize_result:
  assumes "server_finalize e nservers f = Some (tot, left)" "fin_rc e = 0"
  shows "f \<le> tot \<and> (tot = f \<longrightarrow> barrier_rc e = 0 \<and>
    (nservers \<and> own_id e = 0 \<longrightarrow> (\<forall>p \<in> set (remove1 (own_process e) (servers e)) - set left.
       \<exists>st now. (p, st, now) \<in> set (servers_end e) \<and> WEXITSTATUS st = 0)))"
proof (cases "barrier_rc e = 0 \<and> nservers \<and> own_id e = 0")
  case True
  then obtain ret where "srv_wait_loop 10000000 0 (servers_end e) (remove1 (own_process e) (servers e)) 0 = Some (ret, left)"
      "tot = f + ret"
    using assms by (auto simp: server_finalize_def srv_wait_all_def split: Option.bind_splits)
  then show ?thesis using srv_wait_loop_result [of 10000000 0 "servers_end e" _ 0 ret left] True by auto
next
  case False
  then show ?thesis using assms by (auto simp: server_finalize_def split: if_splits)
qed


text \<open>One client that finalizes and exits; server 0 with one other server.\<close>

definition sample_run :: test_run where
  "sample_run =
     \<lparr>table = sample_clients\<lparr>cli_info := [hd (cli_info sample_clients)\<lparr>state := CLI_FORKED\<rparr>]\<rparr>,
      exit_codes = [0], still_alive = [True], test_complete = False\<rparr>"

definition sample_ending :: ending where
  "sample_ending =
     \<lparr>barrier_rc = 0, fin_rc = 0, own_id = 0, own_process = 7, servers = [8, 7], servers_end = [(8, Has_exited 0, 5)]\<rparr>"

definition sample_script :: "iteration list" where
  "sample_script = [([Client_finalizes 0, Children [(101, Has_exited 0)]], 1, [])]"


end
