(* ===== verification/Clients.thy ===== *)
theory Clients
  imports ClientArgv
begin

text \<open>
  Programs that call the PMIx client library. The library is not under src/: a program is a tree
  of the calls it makes, each with what it does on every answer, and a library is what answers
  them. A program is run alone against a library with a state of its own, or all the processes of a
  job are run together, in every interleaving, against the answers a library may give. The macros
  of test_common.h the tests are made of (\<open>SET_KEY\<close>, \<open>PUT\<close>, \<open>GET\<close>, \<open>FENCE\<close>, \<open>PMIX_VAL_CMP\<close>) follow.
  Messages are not modelled where the programs only print them.
\<close>

section \<open>Values\<close>

text \<open>
  The types of \<open>pmix_value_t\<close> the clients name; a float or double is an integer number of units of
  \<open>2 ^ (- 149)\<close> (every finite float is one, and every double the clients compute with), a string may be
  NULL, \<open>V_undef\<close> is a value without data and \<open>V_other\<close> any other type.
\<close>

datatype pvalue =
    V_undef
  | V_int int
  | V_i8 "8 word"
  | V_u8 "8 word"
  | V_u16 "16 word"
  | V_u32 u32
  | V_u64 u64
  | V_size u64
  | V_float int
  | V_double int
  | V_bool bool
  | V_string "string option"
  | V_bytes "string"
  | V_array "nat"                      \<comment> \<open>\<open>PMIX_DATA_ARRAY\<close> of \<open>PMIX_INFO\<close>, with its size\<close>
  | V_other

text \<open>A key the PMIx headers define, by the name of its macro, or a text of the program.\<close>

datatype pkey = Attribute string | Key string

datatype scope = PMIX_LOCAL | PMIX_REMOTE | PMIX_GLOBAL

type_synonym infos = "(pkey \<times> pvalue) list"

text \<open>\<open>pmix_app_t\<close>; \<open>PMIX_APP_CREATE\<close> clears it.\<close>

record app =
  app_cmd :: "string option"
  app_argv :: "string list"
  app_env :: "string list"
  app_maxprocs :: int
  app_info :: infos

definition empty_app :: app where
  "empty_app = \<lparr>app_cmd = None, app_argv = [], app_env = [], app_maxprocs = 0, app_info = []\<rparr>"

section \<open>Calls and answers\<close>

text \<open>
  A call with a callback (\<open>_nb\<close>) stands for the request and the wait for the callback: there is no
  answer when it never comes. The \<open>Request\<close>s are calls whose callback the program waits for later.
  \<open>Wait\<close> is a loop that waits for a variable a callback or an event handler sets,
  \<open>Report\<close> a message of the program that says a check failed or passed.
\<close>

datatype pmix_call =
    C_Init infos
  | C_Finalize
  | C_Put scope string pvalue
  | C_Commit
  | C_Fence "proc list" infos
  | C_Fence_nb "proc list" infos
  | C_Get proc "pkey option" infos
  | C_Get_nb proc pkey infos
  | C_Store_internal proc string pvalue
  | C_Publish infos
  | C_Publish_nb infos
  | C_Lookup "string list"
  | C_Lookup_nb "string list"
  | C_Unpublish "string list"
  | C_Unpublish_nb "string list"
  | C_Spawn infos "app list"
  | C_Spawn_nb infos "app list"
  | C_Connect "proc list" infos
  | C_Connect_nb "proc list"
  | C_Disconnect "proc list"
  | C_Disconnect_nb "proc list"
  | C_Resolve_peers string "string option"
  | C_Resolve_nodes string
  | C_Register_event_handler "pmix_status list" infos
  | C_Deregister_event_handler nat
  | C_Notify_event pmix_status proc
  | C_Log_nb infos
  | C_Query_nb "string list list"
  | C_Tool_init
  | C_Abort pmix_status string "proc list"
  | C_Request_fence "proc list"
  | C_Request_get proc string
  | C_Wait string
  | C_Report string

text \<open>
  What a call returns: its status, the status its callback got, and what it wrote: a value (NULL is
  \<open>None\<close>), the process that published each of the keys looked up with the value, processes, the
  answers to a query, or a text (the name of a namespace, a list of nodes).
\<close>

record answer =
  status :: pmix_status
  reported :: pmix_status
  found :: "pvalue option"
  pdata :: "(string \<times> proc \<times> pvalue) list"
  procs :: "proc list option"
  given :: "(string \<times> pvalue) list"
  new_name :: string

section \<open>Programs\<close>

text \<open>\<open>Fault\<close> is undefined behaviour.\<close>

datatype 'a prog = Return 'a | Fault | Call pmix_call "answer \<Rightarrow> 'a prog"

text \<open>A call of a test as a function: its result goes to the rest of the caller.\<close>

primrec and_then :: "'a prog \<Rightarrow> ('a \<Rightarrow> 'b prog) \<Rightarrow> 'b prog" where
  "and_then (Return x) f = f x"
| "and_then Fault f = Fault"
| "and_then (Call c k) f = Call c (\<lambda>a. and_then (k a) f)"

text \<open>
  A run against a library with a state: \<open>None\<close> when the program faults or a call is not answered.
\<close>

primrec run_prog :: "('l \<Rightarrow> pmix_call \<Rightarrow> (answer \<times> 'l) option) \<Rightarrow> 'a prog \<Rightarrow> 'l \<Rightarrow> ('a \<times> 'l) option" where
  "run_prog lib (Return x) l = Some (x, l)"
| "run_prog lib Fault l = None"
| "run_prog lib (Call c k) l =
     (case lib l c of None \<Rightarrow> None | Some (a, l') \<Rightarrow> run_prog lib (k a) l')"

lemma run_and_then:
  "run_prog lib (and_then p f) l =
     (case run_prog lib p l of None \<Rightarrow> None | Some (x, l') \<Rightarrow> run_prog lib (f x) l')"
  by (induction p arbitrary: l) (auto split: option.split)

text \<open>\<open>if (PMIX_SUCCESS != rc) return e;\<close> then the rest.\<close>

definition on_ok :: "pmix_status \<Rightarrow> 'a \<Rightarrow> 'a prog \<Rightarrow> 'a prog" where
  "on_ok rc e rest = (if rc \<noteq> PMIX_SUCCESS then Return e else rest)"

lemma on_ok_simps [simp]: "on_ok PMIX_SUCCESS e rest = rest" "rc \<noteq> PMIX_SUCCESS \<Longrightarrow> on_ok rc e rest = Return e"
  by (simp_all add: on_ok_def)

section \<open>Floating-point numbers\<close>

function bit_len :: "int \<Rightarrow> nat" where
  "bit_len n = (if n \<le> 0 then 0 else Suc (bit_len (n div 2)))"
  by auto
termination by (relation "measure nat") auto

declare bit_len.simps [simp del]

text \<open>
  The fraction \<open>a / b\<close> of units, rounded to \<open>p\<close> significant bits, ties to even (24 bits for a
  float, 53 for a double; the numbers here are far from the ends of the ranges).
\<close>

definition round_sig :: "nat \<Rightarrow> int \<Rightarrow> int \<Rightarrow> int" where
  "round_sig p a b =
     (let s = 2 ^ (bit_len (a div b) - p); d = b * s; q = a div d; r = a mod d
      in (if 2 * r > d \<or> (2 * r = d \<and> odd q) then q + 1 else q) * s)"

definition float_unit :: int where
  "float_unit = 2 ^ 149"

text \<open>The double of a decimal constant \<open>n / d\<close>, and the float a double is converted to.\<close>

definition dbl :: "int \<Rightarrow> int \<Rightarrow> int" where
  "dbl n d = round_sig 53 (n * float_unit) d"

definition to_float :: "int \<Rightarrow> int" where
  "to_float x = round_sig 24 x 1"

text \<open>\<open>PMIX_VAL_cmp_float\<close>; the subtraction is one of floats (24 bits) or of doubles (53).\<close>

definition cmp_float :: "nat \<Rightarrow> int \<Rightarrow> int \<Rightarrow> bool" where
  "cmp_float p x y =
     (if x > y then round_sig p (x - y) 1 > dbl 1 1000000 else round_sig p (y - x) 1 > dbl 1 1000000)"

section \<open>The macros of the tests\<close>

text \<open>The texts are far shorter than the buffers of 50 bytes.\<close>

definition SET_KEY :: "int \<Rightarrow> int \<Rightarrow> bool \<Rightarrow> string" where
  "SET_KEY fence_num ind same_keys =
     (if same_keys then ''key-'' @ decimal ind else ''key-f'' @ decimal fence_num @ '':'' @ decimal ind)"

definition PUT :: "scope \<Rightarrow> string \<Rightarrow> pvalue \<Rightarrow> (pmix_status \<Rightarrow> 'a prog) \<Rightarrow> 'a prog" where
  "PUT sc key v rest =
     Call (C_Put sc key v) (\<lambda>a. rest (if status a \<noteq> PMIX_SUCCESS then PMIX_ERROR else PMIX_SUCCESS))"

text \<open>
  The comparison of \<open>GET\<close>: whether the type or the value is another one; \<open>None\<close> for a fault.
\<close>

type_synonym mismatch = "pvalue \<Rightarrow> bool option"

definition differs_string :: "string \<Rightarrow> mismatch" where
  "differs_string s v = (case v of V_string (Some t) \<Rightarrow> Some (t \<noteq> s) | V_string None \<Rightarrow> None | _ \<Rightarrow> Some True)"

definition differs_int :: "int \<Rightarrow> mismatch" where
  "differs_int x v = (case v of V_int y \<Rightarrow> Some (y \<noteq> x) | _ \<Rightarrow> Some True)"

definition differs_u32 :: "u32 \<Rightarrow> mismatch" where
  "differs_u32 x v = (case v of V_u32 y \<Rightarrow> Some (y \<noteq> x) | _ \<Rightarrow> Some True)"

text \<open>A \<open>uint16_t\<close> is compared with an \<open>int\<close>.\<close>

definition differs_u16 :: "int \<Rightarrow> mismatch" where
  "differs_u16 x v = (case v of V_u16 y \<Rightarrow> Some (uint y \<noteq> x) | _ \<Rightarrow> Some True)"

definition differs_float :: "nat \<Rightarrow> int \<Rightarrow> mismatch" where
  "differs_float p x v = (case v of V_float y \<Rightarrow> Some (cmp_float p y x) | _ \<Rightarrow> Some True)"

text \<open>The checks on the value, after the call and (when it does not block) its callback \<open>get_cb\<close>.\<close>

definition check_value :: "mismatch \<Rightarrow> pvalue option \<Rightarrow> pmix_status option" where
  "check_value differs v =
     (case v of None \<Rightarrow> Some PMIX_ERROR
      | Some v \<Rightarrow> map_option (\<lambda>b. if b then PMIX_ERROR else PMIX_SUCCESS) (differs v))"

definition get_cb :: "answer \<Rightarrow> mismatch \<Rightarrow> pmix_status option" where
  "get_cb a differs =
     (if reported a \<noteq> PMIX_SUCCESS then Some PMIX_ERROR
      else case found a of None \<Rightarrow> None | Some v \<Rightarrow> check_value differs (Some v))"

definition continue_with :: "pmix_status option \<Rightarrow> (pmix_status \<Rightarrow> 'a prog) \<Rightarrow> 'a prog" where
  "continue_with rc rest = (case rc of None \<Rightarrow> Fault | Some rc \<Rightarrow> rest rc)"

text \<open>\<open>ok_notfnd\<close> only suppresses a message.\<close>

definition GET :: "mismatch \<Rightarrow> proc \<Rightarrow> string \<Rightarrow> bool \<Rightarrow> (pmix_status \<Rightarrow> 'a prog) \<Rightarrow> 'a prog" where
  "GET differs p key blk rest =
     (if blk
      then Call (C_Get p (Some (Key key)) []) (\<lambda>a.
             if status a \<noteq> PMIX_SUCCESS then rest PMIX_ERROR
             else continue_with (check_value differs (found a)) rest)
      else Call (C_Get_nb p (Key key) []) (\<lambda>a.
             if status a \<noteq> PMIX_SUCCESS then rest PMIX_ERROR
             else continue_with (get_cb a differs) rest))"

text \<open>The callback of a fence that does not block, \<open>release_cb\<close>, ignores its status.\<close>

definition FENCE :: "bool \<Rightarrow> bool \<Rightarrow> proc list \<Rightarrow> (pmix_status \<Rightarrow> 'a prog) \<Rightarrow> 'a prog" where
  "FENCE blk data_ex pcs rest =
     (if blk
      then Call (C_Fence pcs (if data_ex then [(Attribute ''PMIX_COLLECT_DATA'', V_bool True)] else [])) (\<lambda>a. rest (status a))
      else Call (C_Fence_nb pcs []) (\<lambda>a. rest (status a)))"

section \<open>Jobs\<close>

text \<open>
  All processes of a job, in every interleaving. What the library does is not modelled: it is a
  relation \<open>L w i c a\<close>, whether process \<open>i\<close> may get the answer \<open>a\<close> to its call \<open>c\<close> after the history
  recorded in \<open>w\<close>: the values each process has put, the ones it has committed, and the values
  a process has had under a key since the last fence it shared with another one. A fence ends for all its
  participants together (one that returns later than another has just not moved yet).
\<close>

record history =
  pend :: "proc \<Rightarrow> string \<Rightarrow> pvalue option"
  comm :: "proc \<Rightarrow> string \<Rightarrow> pvalue option"
  since :: "proc \<Rightarrow> proc \<Rightarrow> string \<Rightarrow> pvalue option set" \<comment> \<open>\<open>since w i j\<close>: values of \<open>j\<close>, since a fence with \<open>i\<close>\<close>

definition record_call :: "proc \<Rightarrow> pmix_call \<Rightarrow> history \<Rightarrow> history" where
  "record_call i c w =
     (case c of
        C_Put sc key v \<Rightarrow> w\<lparr>pend := (pend w)(i := (pend w i)(key \<mapsto> v))\<rparr>
      | C_Commit \<Rightarrow>
          (let new = comm w i ++ pend w i
           in w\<lparr>comm := (comm w)(i := new),
                since := \<lambda>j q key. if q = i then insert (new key) (since w j q key) else since w j q key\<rparr>)
      | _ \<Rightarrow> w)"

definition record_fence :: "proc set \<Rightarrow> history \<Rightarrow> history" where
  "record_fence M w =
     w\<lparr>since := \<lambda>i j key. if i \<in> M \<and> j \<in> M then {comm w j key} else since w i j key\<rparr>"

definition fence_of_call :: "'a prog \<Rightarrow> proc list option" where
  "fence_of_call p = (case p of Call (C_Fence ps _) _ \<Rightarrow> Some ps | Call (C_Fence_nb ps _) _ \<Rightarrow> Some ps | _ \<Rightarrow> None)"

definition answered :: "'a prog \<Rightarrow> answer \<Rightarrow> 'a prog" where
  "answered p a = (case p of Call _ k \<Rightarrow> k a | _ \<Rightarrow> p)"

definition next_call :: "'a prog \<Rightarrow> pmix_call option" where
  "next_call p = (case p of Call c _ \<Rightarrow> Some c | _ \<Rightarrow> None)"

text \<open>The processes of the job a list of participants names.\<close>

definition in_fence :: "pmix_consts \<Rightarrow> proc list \<Rightarrow> proc \<Rightarrow> bool" where
  "in_fence K ps i \<longleftrightarrow> (\<exists>p \<in> set ps. nspace p = nspace i \<and> (prank p = prank i \<or> prank p = rank_wildcard K))"

definition members :: "pmix_consts \<Rightarrow> proc list \<Rightarrow> proc set \<Rightarrow> proc set" where
  "members K ps P = {i \<in> P. in_fence K ps i}"

type_synonym pmix_library = "history \<Rightarrow> proc \<Rightarrow> pmix_call \<Rightarrow> answer \<Rightarrow> bool"

type_synonym 'a job = "(proc \<Rightarrow> 'a prog) \<times> history"

inductive job_step :: "pmix_consts \<Rightarrow> proc set \<Rightarrow> pmix_library \<Rightarrow> 'a job \<Rightarrow> 'a job \<Rightarrow> bool" for K P L where
  own: "i \<in> P \<Longrightarrow> next_call (pr i) = Some c \<Longrightarrow> fence_of_call (pr i) = None \<Longrightarrow> L w i c a \<Longrightarrow>
    job_step K P L (pr, w) (pr(i := answered (pr i) a), record_call i c w)"
| all: "M = members K ps P \<Longrightarrow> M \<noteq> {} \<Longrightarrow>
    \<forall>i \<in> M. fence_of_call (pr i) = Some ps \<and> L w i (the (next_call (pr i))) (as i) \<Longrightarrow>
    job_step K P L (pr, w) (\<lambda>i. if i \<in> M then answered (pr i) (as i) else pr i, record_fence M w)"

inductive_cases job_stepE [consumes 1, case_names own all]: "job_step K P L s t"

text \<open>
  What PMIx documents of the key-value exchange: puts, commits and fences work, and a process finds
  under a key of another one what that one had committed when both left their last common fence, or
  something it has committed since.
\<close>

definition exchange_laws :: "pmix_library \<Rightarrow> bool" where
  "exchange_laws L \<longleftrightarrow>
     (\<forall>w i sc key v a. L w i (C_Put sc key v) a \<longrightarrow> status a = PMIX_SUCCESS)
   \<and> (\<forall>w i a. L w i C_Commit a \<longrightarrow> status a = PMIX_SUCCESS)
   \<and> (\<forall>w i ps xs a. L w i (C_Fence ps xs) a \<longrightarrow> status a = PMIX_SUCCESS)
   \<and> (\<forall>w i ps xs a. L w i (C_Fence_nb ps xs) a \<longrightarrow> status a = PMIX_SUCCESS)
   \<and> (\<forall>w i q key xs v a. L w i (C_Get q (Some (Key key)) xs) a \<longrightarrow> since w i q key = {Some v}
        \<longrightarrow> status a = PMIX_SUCCESS \<and> found a = Some v)
   \<and> (\<forall>w i q key xs v a. L w i (C_Get_nb q (Key key) xs) a \<longrightarrow> since w i q key = {Some v}
        \<longrightarrow> status a = PMIX_SUCCESS \<and> reported a = PMIX_SUCCESS \<and> found a = Some v)"

text \<open>Every call is answered.\<close>

definition responsive :: "pmix_library \<Rightarrow> bool" where
  "responsive L \<longleftrightarrow> (\<forall>w i c. \<exists>a. L w i c a)"

lemma next_call_Call [simp]: "next_call (Call c k) = Some c"
  by (simp add: next_call_def)

lemma answered_Call [simp]: "answered (Call c k) a = k a"
  by (simp add: answered_def)

lemma fence_of_call_simps [simp]:
  "fence_of_call (Return x) = None" "fence_of_call Fault = None"
  "fence_of_call (Call (C_Put sc key v) k) = None"
  "fence_of_call (Call C_Commit k) = None"
  "fence_of_call (Call (C_Get q kk xs) k) = None"
  "fence_of_call (Call (C_Get_nb q kk2 xs) k) = None"
  "fence_of_call (Call (C_Fence ps xs) k) = Some ps"
  "fence_of_call (Call (C_Fence_nb ps xs) k) = Some ps"
  by (simp_all add: fence_of_call_def)

lemma record_call_simps [simp]:
  "record_call i (C_Get q kk xs) w = w" "record_call i (C_Get_nb q kk2 xs) w = w"
  "pend (record_call i (C_Put sc key v) w) = (pend w)(i := (pend w i)(key \<mapsto> v))"
  "comm (record_call i (C_Put sc key v) w) = comm w"
  "since (record_call i (C_Put sc key v) w) = since w"
  by (simp_all add: record_call_def)

lemma record_commit_simps [simp]:
  "pend (record_call i C_Commit w) = pend w"
  "comm (record_call i C_Commit w) = (comm w)(i := comm w i ++ pend w i)"
  "q \<noteq> i \<Longrightarrow> since (record_call i C_Commit w) j q = since w j q"
  by (auto simp: record_call_def Let_def fun_eq_iff)

lemma record_fence_simps [simp]:
  "pend (record_fence M w) = pend w" "comm (record_fence M w) = comm w"
  "i \<in> M \<Longrightarrow> j \<in> M \<Longrightarrow> since (record_fence M w) i j = (\<lambda>key. {comm w j key})"
  "i \<notin> M \<or> j \<notin> M \<Longrightarrow> since (record_fence M w) i j = since w i j"
  by (auto simp: record_fence_def fun_eq_iff)

text \<open>The laws as rules.\<close>

lemma exchange_status:
  assumes "exchange_laws L" "L w i c a"
    "case c of C_Put _ _ _ \<Rightarrow> True | C_Commit \<Rightarrow> True | C_Fence _ _ \<Rightarrow> True | C_Fence_nb _ _ \<Rightarrow> True | _ \<Rightarrow> False"
  shows "status a = PMIX_SUCCESS"
  using assms unfolding exchange_laws_def by (cases c) auto

lemma exchange_get:
  assumes "exchange_laws L" "L w i (C_Get q (Some (Key key)) xs) a" "since w i q key = {Some v}"
  shows "status a = PMIX_SUCCESS \<and> found a = Some v"
  using assms unfolding exchange_laws_def by blast

lemma exchange_get_nb:
  assumes "exchange_laws L" "L w i (C_Get_nb q (Key key) xs) a" "since w i q key = {Some v}"
  shows "status a = PMIX_SUCCESS \<and> reported a = PMIX_SUCCESS \<and> found a = Some v"
  using assms unfolding exchange_laws_def by blast

section \<open>Every job ends\<close>

text \<open>A program makes finitely many calls, whatever the answers.\<close>

definition rest_of :: "('a prog \<times> 'a prog) set" where
  "rest_of = {(q, p). \<exists>c k a. p = Call c k \<and> q = k a}"

lemma wf_rest_of: "wf rest_of"
proof (rule wfUNIVI)
  fix P :: "'a prog \<Rightarrow> bool" and p
  assume ind: "\<forall>p. (\<forall>q. (q, p) \<in> rest_of \<longrightarrow> P q) \<longrightarrow> P p"
  show "P p"
  proof (induction p)
    case (Call c k)
    then have "\<forall>q. (q, Call c k) \<in> rest_of \<longrightarrow> P q" by (auto simp: rest_of_def)
    then show ?case using ind by blast
  qed (use ind in \<open>auto simp: rest_of_def\<close>)
qed

lemma job_step_moves:
  assumes "job_step K P L s t"
  shows "(\<forall>i. fst t i = fst s i \<or> (fst t i, fst s i) \<in> rest_of) \<and> (\<exists>i \<in> P. (fst t i, fst s i) \<in> rest_of)"
proof -
  have moves: "(answered p a, p) \<in> rest_of" if "next_call p \<noteq> None" for p :: "'a prog" and a
    using that by (cases p) (auto simp: rest_of_def next_call_def)
  have fence: "next_call p \<noteq> None" if "fence_of_call p \<noteq> None" for p :: "'a prog"
    using that by (cases p) (simp_all add: fence_of_call_def)
  show ?thesis
    using assms
  proof (cases rule: job_stepE)
    case (own i pr c w a)
    then show ?thesis using moves [of "pr i" a] by auto
  next
    case (all ps pr w as)
    have "(answered (pr i) (as i), pr i) \<in> rest_of" if "i \<in> members K ps P" for i
      using all that by (intro moves fence) auto
    then show ?thesis using all by (fastforce simp: members_def)
  qed
qed

lemma chain_stops:
  assumes "wf r" "\<And>n. f (Suc n) = f n \<or> (f (Suc n), f n) \<in> r"
  shows "\<exists>N. \<forall>n \<ge> N. f (Suc n) = f n"
proof -
  obtain x where x: "x \<in> range f" "\<And>y. (y, x) \<in> r \<Longrightarrow> y \<notin> range f" using wfE_min [OF assms(1), of "f 0" "range f"] by blast
  then obtain N where N: "f N = x" by blast
  have "f n = x" if "N \<le> n" for n
    using that
  proof (induction n rule: dec_induct)
    case (step n)
    then show ?case using assms(2) [of n] x(2) by auto
  qed (rule N)
  then show ?thesis by (intro exI [of _ N]) simp
qed

lemma no_endless_job:
  assumes "finite P"
  shows "\<not> (\<forall>n :: nat. job_step K P L (f n) (f (Suc n)))"
proof
  assume run: "\<forall>n. job_step K P L (f n) (f (Suc n))"
  have "\<exists>N. \<forall>n \<ge> N. fst (f (Suc n)) i = fst (f n) i" for i
    using chain_stops [OF wf_rest_of, of "\<lambda>n. fst (f n) i"] job_step_moves [OF run [rule_format]] by blast
  then obtain N where N: "\<And>i n. N i \<le> n \<Longrightarrow> fst (f (Suc n)) i = fst (f n) i" by metis
  let ?n = "Max (insert 0 (N ` P))"
  obtain i where i: "i \<in> P" "(fst (f (Suc ?n)) i, fst (f ?n) i) \<in> rest_of"
    using job_step_moves [OF run [rule_format]] by blast
  have "N i \<le> ?n" using assms i(1) by simp
  then show False using N i(2) wf_not_refl [OF wf_rest_of] by metis
qed

lemma wf_job: "finite P \<Longrightarrow> wf {(t, s). job_step K P L s t}"
  using no_endless_job [of P K L] by (auto simp: wf_iff_no_infinite_down_chain)

lemma job_settles:
  assumes "finite P"
  shows "\<exists>t. (job_step K P L)\<^sup>*\<^sup>* s t \<and> \<not> (\<exists>u. job_step K P L t u)"
proof (induction s rule: wf_induct_rule [OF wf_job [OF assms, of K L]])
  case (1 s)
  show ?case
  proof (cases "\<exists>u. job_step K P L s u")
    case True
    then obtain u where u: "job_step K P L s u" by blast
    with 1 [of u] show ?thesis by (auto intro: converse_rtranclp_into_rtranclp)
  qed blast
qed

end
