(* ===== verification/FenceTest.thy ===== *)
theory FenceTest
  imports Clients
begin

text \<open>
  The fence tests of a client, src/unit/test_fence.c: \<open>test_fence\<close>, which takes part in the fences of
  a description and exchanges values in each, \<open>get_local_peers\<close> and \<open>test_job_fence\<close>. Run by all the
  processes of a job, \<open>test_fence\<close> passes on each of them, whatever the order in which they
  move, and never blocks.
\<close>

section \<open>The values of a fence\<close>

text \<open>\<open>fence_num + 1.1\<close>, a double.\<close>

definition fence_double :: "int \<Rightarrow> int" where
  "fence_double n = round_sig 53 (n * float_unit + dbl 11 10) 1"

definition fence_text :: "int \<Rightarrow> proc \<Rightarrow> string" where
  "fence_text n p = take 499 (decimal n @ '':'' @ nspace p @ '':'' @ decimal (sint (prank p)))"

text \<open>\<open>(int)(fence_num + rank)\<close>, with an unsigned addition.\<close>

definition fence_int :: "int \<Rightarrow> proc \<Rightarrow> int" where
  "fence_int n p = sint (word_of_int n + prank p :: u32)"

definition put_values :: "int \<Rightarrow> proc \<Rightarrow> pvalue list" where
  "put_values n p =
     [V_string (Some (fence_text n p)), V_int (fence_int n p), V_float (to_float (fence_double n)),
      V_u32 (word_of_int (n + 14)), V_u16 (word_of_int (n + 15))]"

text \<open>What is read of a process: whether the call blocks, and the comparison with the value expected.\<close>

definition get_checks :: "int \<Rightarrow> proc \<Rightarrow> (bool \<times> mismatch) list" where
  "get_checks n p =
     [(True, differs_string (fence_text n p)), (False, differs_int (fence_int n p)),
      (True, differs_float 53 (fence_double n)), (False, differs_u32 (word_of_int (n + 14))),
      (True, differs_u16 (n + 15))]"

definition fence_keys :: "int \<Rightarrow> bool \<Rightarrow> string list" where
  "fence_keys n same = map (\<lambda>put_ind. SET_KEY n put_ind same) [0, 1, 2, 3, 4]"

section \<open>One fence\<close>

text \<open>
  The line about the fence that is printed in verbose mode is always written to a buffer of 256 bytes.
\<close>

definition fence_line :: "pmix_consts \<Rightarrow> int \<Rightarrow> fence_desc \<Rightarrow> string" where
  "fence_line K n d =
     ''fence '' @ decimal n @ '': block = '' @ (if blocking d then ''1'' else ''0'') @ '' de = ''
       @ (if data_exchange d then ''1'' else ''0'') @ '' ''
       @ concat (map (\<lambda>p. if prank p = rank_wildcard K then ''all; '' else decimal (sint (prank p)) @ '','')
           (fence_participants d))"

text \<open>\<open>strncmp\<close> with the length of the own name compares a prefix of the other one.\<close>

definition takes_part :: "pmix_consts \<Rightarrow> proc \<Rightarrow> proc list \<Rightarrow> bool" where
  "takes_part K me ps \<longleftrightarrow>
     (\<exists>p \<in> set ps. take (length (nspace me)) (nspace p) = nspace me
        \<and> (prank me = prank p \<or> prank p = rank_wildcard K))"

fun put_all :: "(string \<times> pvalue) list \<Rightarrow> pmix_status prog \<Rightarrow> pmix_status prog" where
  "put_all [] rest = rest"
| "put_all ((key, v) # kvs) rest = PUT PMIX_GLOBAL key v (\<lambda>rc. on_ok rc rc (put_all kvs rest))"

fun get_all :: "(proc \<times> string \<times> bool \<times> mismatch) list \<Rightarrow> pmix_status prog \<Rightarrow> pmix_status prog" where
  "get_all [] rest = rest"
| "get_all ((p, key, blk, differs) # gs) rest = GET differs p key blk (\<lambda>rc. on_ok rc rc (get_all gs rest))"

text \<open>
  The loop that replaces the wildcard ranks by the ranks of the namespace: these go to the end of the
  list. The result is the status and the list; the real ranks, which the loop visits too, are not
  the wildcard.
\<close>

fun real_ranks ::
  "pmix_consts \<Rightarrow> test_params \<Rightarrow> proc list \<Rightarrow> proc list \<Rightarrow> proc list \<Rightarrow> (pmix_status \<times> proc list) option" where
  "real_ranks K q [] kept added = Some (PMIX_SUCCESS, kept @ added)"
| "real_ranks K q (p # ps) kept added =
     (if prank p = rank_wildcard K
      then (case get_all_ranks_from_namespace K (ns_dist q) (ns_size q) (nspace p) of
              None \<Rightarrow> None
            | Some (rc, rs) \<Rightarrow>
                if rc \<noteq> PMIX_SUCCESS then Some (PMIX_ERROR, [])
                else real_ranks K q ps kept (added @ rs))
      else real_ranks K q ps (kept @ [p]) added)"

definition peer_gets :: "int \<Rightarrow> bool \<Rightarrow> proc \<Rightarrow> (proc \<times> string \<times> bool \<times> mismatch) list" where
  "peer_gets n same p = map (\<lambda>(key, blk, differs). (p, key, blk, differs)) (zip (fence_keys n same) (get_checks n p))"

definition fence_procs :: "pmix_consts \<Rightarrow> fence_desc \<Rightarrow> proc list" where
  "fence_procs K d = map (\<lambda>p. p\<lparr>nspace := take (max_nslen K) (nspace p)\<rparr>) (fence_participants d)"

text \<open>After the fence: the gets, then the barrier, whose status is ignored.\<close>

definition read_back ::
  "pmix_consts \<Rightarrow> test_params \<Rightarrow> int \<Rightarrow> fence_desc \<Rightarrow> pmix_status prog \<Rightarrow> pmix_status prog" where
  "read_back K q n d rest =
     (case real_ranks K q (fence_participants d) [] [] of
        None \<Rightarrow> Fault
      | Some (rc, ps) \<Rightarrow>
          on_ok rc PMIX_ERROR
            (get_all (concat (map (peer_gets n (use_same_keys q \<noteq> 0)) ps))
              (FENCE True False (fence_procs K d) (\<lambda>_. rest))))"

definition commit_and_fence ::
  "pmix_consts \<Rightarrow> test_params \<Rightarrow> int \<Rightarrow> fence_desc \<Rightarrow> pmix_status prog \<Rightarrow> pmix_status prog" where
  "commit_and_fence K q n d rest =
     Call C_Commit (\<lambda>a. on_ok (status a) (status a)
       (FENCE (blocking d) (data_exchange d) (fence_procs K d) (\<lambda>rc. on_ok rc rc (read_back K q n d rest))))"

definition own_puts :: "int \<Rightarrow> bool \<Rightarrow> proc \<Rightarrow> (string \<times> pvalue) list" where
  "own_puts n same p = zip (fence_keys n same) (put_values n p)"

section \<open>The test\<close>

fun fence_rounds :: "pmix_consts \<Rightarrow> test_params \<Rightarrow> proc \<Rightarrow> int \<Rightarrow> fence_desc list \<Rightarrow> pmix_status prog" where
  "fence_rounds K q me n [] = Return PMIX_SUCCESS"
| "fence_rounds K q me n (d # ds) =
     (if length (fence_line K n d) \<ge> 256 then Fault
      else if takes_part K me (fence_participants d)
      then put_all (own_puts n (use_same_keys q \<noteq> 0) me) (commit_and_fence K q n d (fence_rounds K q me (n + 1) ds))
      else fence_rounds K q me (n + 1) ds)"

text \<open>\<open>add_noise\<close>: whether the process sleeps, and the state of the parser it leaves.\<close>

definition add_noise :: "pmix_consts \<Rightarrow> string \<Rightarrow> proc \<Rightarrow> parser \<Rightarrow> bool \<times> parser" where
  "add_noise K noise_param me st =
     (let st = snd (parse_noise K noise_param True st)
      in case noise_range st of
           None \<Rightarrow> (False, st)
         | Some ps \<Rightarrow> (takes_part K me ps, st\<lparr>noise_range := None\<rparr>))"

text \<open>The client runs the test when there is a description of fences.\<close>

definition test_fence :: "pmix_consts \<Rightarrow> test_params \<Rightarrow> string \<Rightarrow> proc \<Rightarrow> parser \<Rightarrow> pmix_status prog" where
  "test_fence K q fence_param me st =
     (let st = (case noise q of None \<Rightarrow> st | Some s \<Rightarrow> snd (add_noise K s me st));
          st = snd (parse_fence K fence_param True (st\<lparr>test_fences := []\<rparr>))
      in fence_rounds K q me 0 (test_fences st))"

section \<open>The values agree\<close>

lemma bit_len_le: "a < 2 ^ k \<Longrightarrow> bit_len a \<le> k"
proof (induction k arbitrary: a)
  case (Suc k)
  then have "bit_len (a div 2) \<le> k" by (intro Suc.IH) simp
  then show ?case by (subst bit_len.simps) simp
qed (simp add: bit_len.simps)

text \<open>Rounding to \<open>p\<close> bits moves a number below \<open>2 ^ k\<close> by at most half a unit in the last place.\<close>

lemma round_error:
  assumes "a < 2 ^ k" "p \<le> k"
  shows "2 * \<bar>round_sig p a 1 - a\<bar> \<le> 2 ^ (k - p)"
proof -
  define s :: int where "s = 2 ^ (bit_len a - p)"
  define q r where "q = a div s" and "r = a mod s"
  have s: "0 < s" "s \<le> 2 ^ (k - p)" using bit_len_le [OF assms(1)] by (simp_all add: s_def power_increasing)
  have a: "a = q * s + r" "0 \<le> r" "r < s" using s(1) by (simp_all add: q_def r_def)
  have "round_sig p a 1 = (if 2 * r > s \<or> (2 * r = s \<and> odd q) then q + 1 else q) * s"
    by (simp add: round_sig_def Let_def s_def q_def r_def)
  then have "round_sig p a 1 - a = (if 2 * r > s \<or> (2 * r = s \<and> odd q) then s - r else - r)"
    using a(1) by (simp add: algebra_simps)
  then show ?thesis using s a by auto
qed

lemma dbl_values:
  "dbl 11 10 = 784986230988277997964587294608692399845670912" "dbl 1 1000000 = 713623846352979908236316491178773053440"
  by code_simp+

lemma cmp_float_refl: "\<not> cmp_float k x x"
  by (simp add: cmp_float_def round_sig_def bit_len.simps Let_def dbl_values)

lemma float_close:
  assumes "0 \<le> n" "n < 31"
  shows "\<not> cmp_float 53 (to_float (fence_double n)) (fence_double n)"
proof -
  let ?x = "n * float_unit + dbl 11 10" and ?y = "fence_double n"
  have unit: "float_unit = 713623846352979940529142984724747568191373312" by (simp add: float_unit_def)
  have "2 * \<bar>?y - ?x\<bar> \<le> 2 ^ (154 - 53)"
    unfolding fence_double_def using assms by (intro round_error) (simp_all add: unit dbl_values)
  then have y: "?y < 2 ^ 154" using assms by (simp add: unit dbl_values)
  define e where "e = \<bar>to_float ?y - ?y\<bar>"
  have e: "2 * e \<le> 2 ^ (154 - 24)" unfolding e_def to_float_def using y by (intro round_error) simp_all
  then have "2 * \<bar>round_sig 53 e 1 - e\<bar> \<le> 2 ^ (130 - 53)" by (intro round_error) simp_all
  then have "round_sig 53 e 1 \<le> dbl 1 1000000" using e by (simp add: dbl_values)
  then show ?thesis by (cases "to_float ?y" ?y rule: linorder_cases) (simp_all add: cmp_float_def e_def)
qed

lemma float_far: "cmp_float 53 (to_float (fence_double 31)) (fence_double 31)"
  by code_simp

lemma fence_keys_distinct: "distinct (fence_keys n same)"
proof -
  have "decimal 0 = ''0''" "decimal 1 = ''1''" "decimal 2 = ''2''" "decimal 3 = ''3''" "decimal 4 = ''4''" by code_simp+
  then show ?thesis by (simp add: fence_keys_def SET_KEY_def)
qed

lemma own_puts_distinct: "distinct (map fst (own_puts n same p))"
  using fence_keys_distinct [of n same] by (simp add: own_puts_def fence_keys_def put_values_def)

lemma check_passes:
  assumes "0 \<le> n" "n < 31" "x \<in> set (peer_gets n same p)"
  shows "\<exists>key blk dif v. x = (p, key, blk, dif) \<and> (key, v) \<in> set (own_puts n same p) \<and> dif v = Some False"
proof -
  have "\<not> cmp_float 53 (to_float (fence_double n)) (fence_double n)"
    by (rule float_close [OF assms(1,2)])
  moreover have "uint (word_of_int (n + 15) :: 16 word) = n + 15"
    using assms(1,2) by (subst uint_word_of_int) simp
  ultimately have all: "list_all2 (\<lambda>(blk, dif) v. dif v = Some False) (get_checks n p) (put_values n p)"
    by (simp add: get_checks_def put_values_def differs_string_def differs_int_def differs_float_def differs_u32_def differs_u16_def)
  obtain i key blk dif where x: "i < length (get_checks n p)" "i < length (fence_keys n same)"
      "key = fence_keys n same ! i" "(blk, dif) = get_checks n p ! i" "x = (p, key, blk, dif)"
    using assms(3) by (auto simp: peer_gets_def set_zip)
  have "i < length (put_values n p)" using x(1) by (simp add: get_checks_def put_values_def)
  then have "(key, put_values n p ! i) \<in> set (own_puts n same p)"
    using x(2,3) by (auto simp: own_puts_def in_set_zip)
  moreover have "dif (put_values n p ! i) = Some False"
    using list_all2_nthD [OF all x(1)] unfolding x(4) [symmetric] by simp
  ultimately show ?thesis using x(5) by (intro exI conjI)
qed

section \<open>Where a process is\<close>

text \<open>
  The job: the processes \<open>P\<close> run the test with parameters \<open>Q\<close> on the fences \<open>ds\<close>; \<open>same\<close> is their common
  flag for the keys. \<open>part\<close> are the members of a fence, \<open>rounds\<close> what is left from a fence on.
\<close>

definition part :: "pmix_consts \<Rightarrow> proc set \<Rightarrow> fence_desc list \<Rightarrow> nat \<Rightarrow> proc set" where
  "part K P ds n = members K (fence_procs K (ds ! n)) P"

definition rounds :: "pmix_consts \<Rightarrow> (proc \<Rightarrow> test_params) \<Rightarrow> fence_desc list \<Rightarrow> proc \<Rightarrow> nat \<Rightarrow> pmix_status prog" where
  "rounds K Q ds i n = fence_rounds K (Q i) i (int n) (drop n ds)"

definition barrier_of ::
  "pmix_consts \<Rightarrow> (proc \<Rightarrow> test_params) \<Rightarrow> fence_desc list \<Rightarrow> proc \<Rightarrow> nat \<Rightarrow> pmix_status prog" where
  "barrier_of K Q ds i n = FENCE True False (fence_procs K (ds ! n)) (\<lambda>_. rounds K Q ds i (Suc n))"

definition fence_part ::
  "pmix_consts \<Rightarrow> (proc \<Rightarrow> test_params) \<Rightarrow> fence_desc list \<Rightarrow> proc \<Rightarrow> nat \<Rightarrow> pmix_status prog" where
  "fence_part K Q ds i n =
     FENCE (blocking (ds ! n)) (data_exchange (ds ! n)) (fence_procs K (ds ! n))
       (\<lambda>rc. on_ok rc rc (read_back K (Q i) (int n) (ds ! n) (rounds K Q ds i (Suc n))))"

definition commit_part ::
  "pmix_consts \<Rightarrow> (proc \<Rightarrow> test_params) \<Rightarrow> fence_desc list \<Rightarrow> proc \<Rightarrow> nat \<Rightarrow> pmix_status prog" where
  "commit_part K Q ds i n = Call C_Commit (\<lambda>a. on_ok (status a) (status a) (fence_part K Q ds i n))"

definition sound_fences ::
  "pmix_consts \<Rightarrow> (proc \<Rightarrow> test_params) \<Rightarrow> proc set \<Rightarrow> bool \<Rightarrow> fence_desc list \<Rightarrow> bool" where
  "sound_fences K Q P same ds \<longleftrightarrow>
     length ds \<le> 31 \<and> (\<forall>i \<in> P. (use_same_keys (Q i) \<noteq> 0) = same)
   \<and> (\<forall>n < length ds. length (fence_line K (int n) (ds ! n)) < 256
        \<and> (\<forall>i \<in> P. takes_part K i (fence_participants (ds ! n)) \<longleftrightarrow> i \<in> part K P ds n)
        \<and> (\<forall>i \<in> P. \<exists>ps. real_ranks K (Q i) (fence_participants (ds ! n)) [] [] = Some (PMIX_SUCCESS, ps)
             \<and> set ps \<subseteq> part K P ds n))"

text \<open>What a process has put or committed in a fence, and what may be read of another one.\<close>

definition holds_puts :: "(string \<Rightarrow> pvalue option) \<Rightarrow> (string \<times> pvalue) list \<Rightarrow> bool" where
  "holds_puts m kvs \<longleftrightarrow> (\<forall>(key, v) \<in> set kvs. m key = Some v)"

definition readable :: "history \<Rightarrow> proc \<Rightarrow> proc \<Rightarrow> (string \<times> pvalue) list \<Rightarrow> bool" where
  "readable w i p kvs \<longleftrightarrow> (\<forall>(key, v) \<in> set kvs. since w i p key = {Some v})"

lemma readableD: "readable w i p kvs \<Longrightarrow> (key, v) \<in> set kvs \<Longrightarrow> since w i p key = {Some v}"
  unfolding readable_def by blast

text \<open>
  \<open>located w i n r pr\<close>: process \<open>i\<close> with the program \<open>pr\<close> left is in its part of fence \<open>n\<close>, past its first
  fence when \<open>r\<close>, or it has finished and \<open>n\<close> is the number of fences.
\<close>

inductive located ::
  "pmix_consts \<Rightarrow> (proc \<Rightarrow> test_params) \<Rightarrow> proc set \<Rightarrow> bool \<Rightarrow> fence_desc list \<Rightarrow> history \<Rightarrow> proc \<Rightarrow> nat \<Rightarrow> bool
     \<Rightarrow> pmix_status prog \<Rightarrow> bool" for K Q P same ds w i where
  finished: "located K Q P same ds w i (length ds) False (Return PMIX_SUCCESS)"
| putting: "n < length ds \<Longrightarrow> i \<in> part K P ds n \<Longrightarrow> own_puts (int n) same i = ys @ xs \<Longrightarrow> holds_puts (pend w i) ys \<Longrightarrow>
    located K Q P same ds w i n False (put_all xs (commit_part K Q ds i n))"
| fencing: "n < length ds \<Longrightarrow> i \<in> part K P ds n \<Longrightarrow> holds_puts (comm w i) (own_puts (int n) same i) \<Longrightarrow>
    located K Q P same ds w i n False (fence_part K Q ds i n)"
| reading: "n < length ds \<Longrightarrow> i \<in> part K P ds n \<Longrightarrow> holds_puts (comm w i) (own_puts (int n) same i) \<Longrightarrow>
    \<forall>p \<in> part K P ds n. readable w i p (own_puts (int n) same p) \<Longrightarrow>
    set gs \<subseteq> (\<Union>p \<in> part K P ds n. set (peer_gets (int n) same p)) \<Longrightarrow>
    located K Q P same ds w i n True (get_all gs (barrier_of K Q ds i n))"

inductive_cases locatedE [consumes 1, case_names finished putting fencing reading]:
  "located K Q P same ds w i n r pr"

lemma located_n: "located K Q P same ds w i n r pr \<Longrightarrow> n < length ds \<and> i \<in> part K P ds n \<or> n = length ds \<and> \<not> r \<and> pr = Return PMIX_SUCCESS"
  by (auto elim: locatedE)

text \<open>The next fence a process takes part in.\<close>

lemma located_start:
  assumes "sound_fences K Q P same ds" "i \<in> P" "n \<le> length ds"
  shows "\<exists>m. n \<le> m \<and> located K Q P same ds w i m False (rounds K Q ds i n) \<and> (\<forall>k. n \<le> k \<longrightarrow> k < m \<longrightarrow> i \<notin> part K P ds k)"
  using assms(3)
proof (induction "length ds - n" arbitrary: n)
  case 0
  then have "rounds K Q ds i n = Return PMIX_SUCCESS" "n = length ds" by (simp_all add: rounds_def)
  then show ?case by (intro exI [of _ n]) (auto intro: located.finished)
next
  case (Suc k)
  then have n: "n < length ds" by simp
  then have drop: "drop n ds = ds ! n # drop (Suc n) ds" by (simp add: Cons_nth_drop_Suc)
  have sound: "length (fence_line K (int n) (ds ! n)) < 256"
    "takes_part K i (fence_participants (ds ! n)) \<longleftrightarrow> i \<in> part K P ds n" "(use_same_keys (Q i) \<noteq> 0) = same"
    using assms(1,2) n by (auto simp: sound_fences_def)
  have rest: "int n + 1 = int (Suc n)" by simp
  show ?case
  proof (cases "i \<in> part K P ds n")
    case True
    have "rounds K Q ds i n = put_all (own_puts (int n) same i) (commit_part K Q ds i n)"
      unfolding rounds_def drop fence_rounds.simps rest using sound True
      by (simp add: commit_and_fence_def commit_part_def fence_part_def rounds_def)
    moreover have "located K Q P same ds w i n False (put_all (own_puts (int n) same i) (commit_part K Q ds i n))"
      using n True by (intro located.putting [where ys = "[]"]) (simp_all add: holds_puts_def)
    ultimately show ?thesis by (intro exI [of _ n]) auto
  next
    case False
    have "rounds K Q ds i n = rounds K Q ds i (Suc n)"
      unfolding rounds_def drop fence_rounds.simps rest using sound False by simp
    moreover have k: "k = length ds - Suc n" using Suc.hyps(2) by simp
    obtain m where "Suc n \<le> m" "located K Q P same ds w i m False (rounds K Q ds i (Suc n))"
        "\<forall>k. Suc n \<le> k \<longrightarrow> k < m \<longrightarrow> i \<notin> part K P ds k"
      using Suc.hyps(1) [OF k] n by (auto simp: Suc_le_eq)
    ultimately show ?thesis using False by (intro exI [of _ m]) (auto simp: Suc_le_eq dest: le_neq_implies_less)
  qed
qed

text \<open>What others do elsewhere leaves the place of a process alone.\<close>

lemma located_frame:
  assumes "located K Q P same ds w i n r pr" "pend w' i = pend w i" "comm w' i = comm w i"
    "r \<Longrightarrow> \<forall>p \<in> part K P ds n. since w' i p = since w i p"
  shows "located K Q P same ds w' i n r pr"
  using assms by (cases rule: locatedE) (auto intro!: located.intros simp: readable_def)

section \<open>Steps\<close>

lemma fence_of_FENCE [simp]: "fence_of_call (FENCE blk dx ps rest) = Some ps"
  by (simp add: FENCE_def)

lemma has_put_update:
  assumes "holds_puts m ys" "distinct (map fst (ys @ (key, v) # xs))"
  shows "holds_puts (m(key \<mapsto> v)) (ys @ [(key, v)])"
  using assms by (force simp: holds_puts_def)

lemma has_put_commit: "holds_puts p kvs \<Longrightarrow> holds_puts (c ++ p) kvs"
  by (force simp: holds_puts_def map_add_def split: option.splits)

lemma get_step:
  assumes laws: "exchange_laws L" and since: "since w i p key = {Some v}" and dif: "dif v = Some False"
    and c: "next_call (GET dif p key blk rest) = Some c" and a: "L w i c a"
  shows "answered (GET dif p key blk rest) a = rest PMIX_SUCCESS \<and> record_call i c w = w"
proof (cases blk)
  case True
  then have c: "c = C_Get p (Some (Key key)) []" using c by (simp add: GET_def)
  then have "status a = PMIX_SUCCESS \<and> found a = Some v" using exchange_get [OF laws] since a by simp
  then show ?thesis using True dif by (simp add: GET_def c check_value_def continue_with_def)
next
  case False
  then have c: "c = C_Get_nb p (Key key) []" using c by (simp add: GET_def)
  then have "status a = PMIX_SUCCESS \<and> reported a = PMIX_SUCCESS \<and> found a = Some v"
    using exchange_get_nb [OF laws] since a by simp
  then show ?thesis using False dif by (simp add: GET_def c check_value_def continue_with_def get_cb_def)
qed

lemma own_step:
  assumes laws: "exchange_laws L" and small: "length ds \<le> 31" and loc: "located K Q P same ds w i n r pr"
    and c: "next_call pr = Some c" "fence_of_call pr = None" and a: "L w i c a"
  shows "located K Q P same ds (record_call i c w) i n r (answered pr a) \<and> (r \<longrightarrow> record_call i c w = w)"
  using loc
proof (cases rule: locatedE)
  case (putting ys xs)
  show ?thesis
  proof (cases xs)
    case Nil
    then have "c = C_Commit" using c(1) putting(2) by (simp add: commit_part_def)
    moreover from this have "status a = PMIX_SUCCESS" using exchange_status [OF laws a] by simp
    moreover have "holds_puts (comm w i ++ pend w i) (own_puts (int n) same i)"
      using putting Nil by (simp add: has_put_commit)
    ultimately show ?thesis
      using putting Nil by (auto simp: commit_part_def intro!: located.fencing)
  next
    case (Cons x xs')
    obtain key v where x: "x = (key, v)" by force
    then have c': "c = C_Put PMIX_GLOBAL key v" using c(1) putting(2) Cons by (simp add: PUT_def)
    then have "status a = PMIX_SUCCESS" using exchange_status [OF laws a] by simp
    moreover have "holds_puts ((pend w i)(key \<mapsto> v)) (ys @ [(key, v)])"
      using putting own_puts_distinct [of "int n" same i] Cons x by (intro has_put_update [where xs = xs']) simp_all
    moreover have "own_puts (int n) same i = (ys @ [(key, v)]) @ xs'" using putting Cons x by simp
    ultimately show ?thesis
      using putting Cons x c' by (auto simp: PUT_def intro!: located.putting)
  qed
next
  case (reading gs)
  show ?thesis
  proof (cases gs)
    case Nil
    then show ?thesis using c(2) reading(2) by (simp add: barrier_of_def)
  next
    case (Cons g gs')
    then obtain p where p: "p \<in> part K P ds n" "g \<in> set (peer_gets (int n) same p)" using reading by auto
    then obtain key blk dif v where g: "g = (p, key, blk, dif)" "(key, v) \<in> set (own_puts (int n) same p)" "dif v = Some False"
      using check_passes [of "int n" g same p] small reading by auto
    then have "since w i p key = {Some v}" using readableD reading p(1) by blast
    note step = get_step [OF laws this g(3) c(1) [unfolded reading(2) Cons g(1) get_all.simps] a]
    show ?thesis
      using step reading Cons g(1) by (auto intro: located.reading)
  qed
qed (use c in \<open>simp_all add: fence_part_def next_call_def\<close>)

lemma at_fence:
  assumes "located K Q P same ds w i n r pr" "fence_of_call pr = Some ps"
  shows "n < length ds \<and> i \<in> part K P ds n \<and> ps = fence_procs K (ds ! n) \<and>
    holds_puts (comm w i) (own_puts (int n) same i) \<and> pr = (if r then barrier_of K Q ds i n else fence_part K Q ds i n)"
  using assms(1)
proof (cases rule: locatedE)
  case (putting ys xs)
  then show ?thesis using assms(2) by (cases xs) (auto simp: commit_part_def PUT_def)
next
  case (reading gs)
  then show ?thesis using assms(2) by (cases gs) (auto simp: barrier_of_def GET_def split: if_splits)
qed (use assms(2) in \<open>auto simp: fence_part_def\<close>)

lemma enter_reading:
  assumes laws: "exchange_laws L" and sound: "sound_fences K Q P same ds" and n: "n < length ds" "i \<in> part K P ds n"
    and put: "\<forall>p \<in> part K P ds n. holds_puts (comm w p) (own_puts (int n) same p)"
    and a: "L w i (the (next_call (fence_part K Q ds i n))) a"
  shows "located K Q P same ds (record_fence (part K P ds n) w) i n True (answered (fence_part K Q ds i n) a)"
proof -
  have i: "i \<in> P" using n(2) by (simp add: part_def members_def)
  then obtain ps where ps: "real_ranks K (Q i) (fence_participants (ds ! n)) [] [] = Some (PMIX_SUCCESS, ps)"
      "set ps \<subseteq> part K P ds n" and same: "(use_same_keys (Q i) \<noteq> 0) = same"
    using sound n(1) unfolding sound_fences_def by blast
  have "status a = PMIX_SUCCESS"
    using exchange_status [OF laws a] by (simp add: fence_part_def FENCE_def)
  then have "answered (fence_part K Q ds i n) a = read_back K (Q i) (int n) (ds ! n) (rounds K Q ds i (Suc n))"
    by (simp add: fence_part_def FENCE_def)
  also have "\<dots> = get_all (concat (map (peer_gets (int n) same) ps)) (barrier_of K Q ds i n)"
    by (simp add: read_back_def ps(1) same barrier_of_def)
  finally have eq: "answered (fence_part K Q ds i n) a = \<dots>" .
  show ?thesis
    unfolding eq using n put ps(2) by (intro located.reading) (auto simp: readable_def holds_puts_def)
qed

section \<open>All the processes\<close>

text \<open>How far a place is with respect to fence \<open>k\<close>: before it, between its two fences, or past both.\<close>

definition reached :: "nat \<times> bool \<Rightarrow> nat \<Rightarrow> nat" where
  "reached pl k = (if k < fst pl then 2 else if k = fst pl \<and> snd pl then 1 else 0)"

text \<open>Every process is somewhere, and the members of a fence are equally far with it.\<close>

definition job_inv ::
  "pmix_consts \<Rightarrow> (proc \<Rightarrow> test_params) \<Rightarrow> proc set \<Rightarrow> bool \<Rightarrow> fence_desc list \<Rightarrow> pmix_status job \<Rightarrow> bool" where
  "job_inv K Q P same ds s \<longleftrightarrow>
     (\<exists>pl. (\<forall>i \<in> P. located K Q P same ds (snd s) i (fst (pl i)) (snd (pl i)) (fst s i))
        \<and> (\<forall>k < length ds. \<forall>i \<in> part K P ds k. \<forall>j \<in> part K P ds k. reached (pl i) k = reached (pl j) k))"

lemma job_invI:
  assumes "\<And>j. j \<in> P \<Longrightarrow> located K Q P same ds w j (fst (pl j)) (snd (pl j)) (pr j)"
    "\<And>k i j. k < length ds \<Longrightarrow> i \<in> part K P ds k \<Longrightarrow> j \<in> part K P ds k \<Longrightarrow> reached (pl i) k = reached (pl j) k"
  shows "job_inv K Q P same ds (pr, w)"
  using assms unfolding job_inv_def fst_conv snd_conv by blast

lemma record_call_others:
  "j \<noteq> i \<Longrightarrow> pend (record_call i c w) j = pend w j" "j \<noteq> i \<Longrightarrow> comm (record_call i c w) j = comm w j"
  "p \<noteq> i \<Longrightarrow> since (record_call i c w) j p = since w j p"
  by (auto simp: record_call_def Let_def fun_eq_iff split: pmix_call.split)

lemma part_P: "i \<in> part K P ds n \<Longrightarrow> i \<in> P"
  by (simp add: part_def members_def)

lemma own_keeps:
  assumes laws: "exchange_laws L" and sound: "sound_fences K Q P same ds" and inv: "job_inv K Q P same ds (pr, w)"
    and i: "i \<in> P" "next_call (pr i) = Some c" "fence_of_call (pr i) = None" "L w i c a"
  shows "job_inv K Q P same ds (pr(i := answered (pr i) a), record_call i c w)"
proof -
  obtain pl where loc: "\<forall>j \<in> P. located K Q P same ds w j (fst (pl j)) (snd (pl j)) (pr j)"
    and eq: "\<forall>k < length ds. \<forall>j \<in> part K P ds k. \<forall>l \<in> part K P ds k. reached (pl j) k = reached (pl l) k"
    using inv unfolding job_inv_def by auto
  have small: "length ds \<le> 31" using sound by (simp add: sound_fences_def)
  have own: "located K Q P same ds (record_call i c w) i (fst (pl i)) (snd (pl i)) (answered (pr i) a)"
    "snd (pl i) \<Longrightarrow> record_call i c w = w"
    using own_step [OF laws small loc [rule_format, OF i(1)] i(2-4)] by auto
  have others: "located K Q P same ds (record_call i c w) j (fst (pl j)) (snd (pl j)) (pr j)" if "j \<in> P" "j \<noteq> i" for j
  proof (rule located_frame [OF loc [rule_format, OF that(1)]])
    assume r: "snd (pl j)"
    have j: "fst (pl j) < length ds" "j \<in> part K P ds (fst (pl j))"
      using located_n [OF loc [rule_format, OF that(1)]] r by auto
    have "record_call i c w = w" if "i \<in> part K P ds (fst (pl j))"
    proof -
      have "reached (pl i) (fst (pl j)) = 1" using eq j that r by (metis reached_def less_irrefl)
      then show ?thesis using own(2) by (auto simp: reached_def split: if_splits)
    qed
    then show "\<forall>p \<in> part K P ds (fst (pl j)). since (record_call i c w) j p = since w j p"
      by (metis record_call_others(3))
  qed (use that in \<open>simp_all add: record_call_others\<close>)
  show ?thesis
  proof (rule job_invI [of P K Q same ds _ pl])
    show "located K Q P same ds (record_call i c w) j (fst (pl j)) (snd (pl j)) ((pr(i := answered (pr i) a)) j)" if "j \<in> P" for j
      using own(1) others that by (cases "j = i") simp_all
  qed (use eq in blast)
qed

text \<open>The processes at one fence are all at the same place.\<close>

lemma same_place:
  assumes loc: "\<forall>j \<in> P. located K Q P same ds w j (fst (pl j)) (snd (pl j)) (pr j)"
    and eq: "\<forall>k < length ds. \<forall>j \<in> part K P ds k. \<forall>l \<in> part K P ds k. reached (pl j) k = reached (pl l) k"
    and M: "M = members K ps P" "\<forall>i \<in> M. fence_of_call (pr i) = Some ps" and ij: "i \<in> M" "j \<in> M"
  shows "pl i = pl j \<and> M = part K P ds (fst (pl i))"
proof -
  have here: "fst (pl l) < length ds \<and> M = part K P ds (fst (pl l))" if "l \<in> M" for l
  proof -
    have "l \<in> P" using that M(1) by (simp add: members_def)
    then show ?thesis using at_fence [OF loc [rule_format]] M that by (auto simp: part_def)
  qed
  have "reached (pl i) (fst (pl i)) = reached (pl j) (fst (pl i))" "reached (pl i) (fst (pl j)) = reached (pl j) (fst (pl j))"
    using eq here ij by blast+
  then show ?thesis
    using here [OF ij(1)] by (cases "pl i"; cases "pl j") (auto simp: reached_def split: if_splits)
qed

lemma all_keeps:
  assumes laws: "exchange_laws L" and sound: "sound_fences K Q P same ds" and inv: "job_inv K Q P same ds (pr, w)"
    and M: "M = members K ps P" "M \<noteq> {}"
    and ans: "\<forall>i \<in> M. fence_of_call (pr i) = Some ps \<and> L w i (the (next_call (pr i))) (as i)"
  shows "job_inv K Q P same ds (\<lambda>i. if i \<in> M then answered (pr i) (as i) else pr i, record_fence M w)"
proof -
  obtain pl where loc: "\<forall>j \<in> P. located K Q P same ds w j (fst (pl j)) (snd (pl j)) (pr j)"
    and eq: "\<forall>k < length ds. \<forall>j \<in> part K P ds k. \<forall>l \<in> part K P ds k. reached (pl j) k = reached (pl l) k"
    using inv unfolding job_inv_def by auto
  obtain i0 n r where i0: "i0 \<in> M" "pl i0 = (n, r)" using M(2) by (metis all_not_in_conv surj_pair)
  have fences: "\<forall>i \<in> M. fence_of_call (pr i) = Some ps" using ans by blast
  have place: "pl i = (n, r)" if "i \<in> M" for i
    using same_place [OF loc eq M(1) fences that i0(1)] i0(2) by simp
  have Mn: "M = part K P ds n" using same_place [OF loc eq M(1) fences i0(1) i0(1)] i0(2) by simp
  have in_P: "i \<in> P" if "i \<in> M" for i using that M(1) by (simp add: members_def)
  have at: "n < length ds \<and> holds_puts (comm w i) (own_puts (int n) same i)
      \<and> pr i = (if r then barrier_of K Q ds i n else fence_part K Q ds i n)" if "i \<in> M" for i
    using at_fence [OF loc [rule_format, OF in_P [OF that]]] fences that place [OF that] by auto
  have n: "n < length ds" using at i0(1) by blast
  have others: "located K Q P same ds (record_fence M w) j (fst (pl j)) (snd (pl j)) (pr j)" if "j \<in> P" "j \<notin> M" for j
    using that(2) by (intro located_frame [OF loc [rule_format, OF that(1)]]) simp_all
  show ?thesis
  proof (cases r)
    case False
    have new: "located K Q P same ds (record_fence M w) i n True (answered (pr i) (as i))" if "i \<in> M" for i
      using enter_reading [OF laws sound n, of i w "as i"] at ans that False unfolding Mn by auto
    define pl' where "pl' i = (if i \<in> M then (n, True) else pl i)" for i
    have "reached (pl' i) k = (if k = n then 1 else reached (pl i) k)" if "i \<in> part K P ds k" for i k
      using that Mn place [of i] False by (cases "i \<in> M") (auto simp: pl'_def reached_def)
    then have "reached (pl' i) k = reached (pl' j) k" if "k < length ds" "i \<in> part K P ds k" "j \<in> part K P ds k" for k i j
      using eq that by metis
    then show ?thesis
      by (rule job_invI [of P K Q same ds _ pl', rotated]) (use new others in \<open>simp_all add: pl'_def\<close>)
  next
    case True
    have "\<exists>m. Suc n \<le> m \<and> located K Q P same ds (record_fence M w) i m False (rounds K Q ds i (Suc n))
        \<and> (\<forall>k. Suc n \<le> k \<longrightarrow> k < m \<longrightarrow> i \<notin> part K P ds k)" if "i \<in> M" for i
      using located_start [OF sound in_P [OF that], of "Suc n"] n by simp
    then obtain m where m: "\<And>i. i \<in> M \<Longrightarrow> Suc n \<le> m i"
        "\<And>i. i \<in> M \<Longrightarrow> located K Q P same ds (record_fence M w) i (m i) False (rounds K Q ds i (Suc n))"
        "\<And>i k. i \<in> M \<Longrightarrow> Suc n \<le> k \<Longrightarrow> k < m i \<Longrightarrow> i \<notin> part K P ds k" by metis
    have new: "answered (pr i) (as i) = rounds K Q ds i (Suc n)" if "i \<in> M" for i
      using at [OF that] True by (simp add: barrier_of_def FENCE_def)
    define pl' where "pl' i = (if i \<in> M then (m i, False) else pl i)" for i
    have "reached (pl' i) k = (if k = n then 2 else reached (pl i) k)" if "i \<in> part K P ds k" for i k
    proof (cases "i \<in> M")
      case in_M: True
      then have "k < m i \<Longrightarrow> k \<le> n" using m(3) [OF in_M, of k] that by force
      then show ?thesis using in_M m(1) [OF in_M] place [OF in_M] True by (auto simp: pl'_def reached_def)
    next
      case False
      then have "k \<noteq> n" using that Mn by blast
      then show ?thesis using False by (simp add: pl'_def)
    qed
    then have "reached (pl' i) k = reached (pl' j) k" if "k < length ds" "i \<in> part K P ds k" "j \<in> part K P ds k" for k i j
      using eq that by metis
    then show ?thesis
      by (rule job_invI [of P K Q same ds _ pl', rotated]) (use new m(2) others in \<open>simp_all add: pl'_def\<close>)
  qed
qed

interpretation exchange: step_relation "job_step K P L"
    "\<lambda>s. exchange_laws L \<and> sound_fences K Q P same ds \<and> job_inv K Q P same ds s" "\<lambda>_ _. True" for K P L Q same ds
proof unfold_locales
  fix s t
  assume step: "job_step K P L s t" and inv: "exchange_laws L \<and> sound_fences K Q P same ds \<and> job_inv K Q P same ds s"
  show "(exchange_laws L \<and> sound_fences K Q P same ds \<and> job_inv K Q P same ds t) \<and> True"
    using step inv by (cases rule: job_stepE) (auto intro!: own_keeps all_keeps)
qed simp_all

lemma job_start:
  assumes "sound_fences K Q P same ds" "\<forall>i \<in> P. pr i = rounds K Q ds i 0"
  shows "job_inv K Q P same ds (pr, w)"
proof -
  have "\<exists>m. located K Q P same ds w i m False (rounds K Q ds i 0) \<and> (\<forall>k < m. i \<notin> part K P ds k)" if "i \<in> P" for i
    using located_start [OF assms(1) that, of 0] by auto
  then obtain m where m: "\<And>i. i \<in> P \<Longrightarrow> located K Q P same ds w i (m i) False (rounds K Q ds i 0)"
      "\<And>i k. i \<in> P \<Longrightarrow> k < m i \<Longrightarrow> i \<notin> part K P ds k" by metis
  have "reached (m i, False) k = 0" if "i \<in> part K P ds k" for i k
    using m(2) [OF part_P [OF that]] that by (auto simp: reached_def)
  then show ?thesis
    by (intro job_invI [of P K Q same ds w "\<lambda>i. (m i, False)"]) (simp_all add: m(1) assms(2))
qed

lemma located_prog:
  assumes "located K Q P same ds w i n r pr"
  shows "pr = Return PMIX_SUCCESS \<and> n = length ds \<or> (\<exists>c k. pr = Call c k)"
  using assms
proof (cases rule: locatedE)
  case (putting ys xs)
  then show ?thesis by (cases xs) (auto simp: commit_part_def PUT_def)
next
  case (reading gs)
  then show ?thesis by (cases gs) (auto simp: barrier_of_def FENCE_def GET_def)
qed (auto simp: fence_part_def FENCE_def)

section \<open>No process waits for ever\<close>

lemma fence_enabled:
  assumes inv: "job_inv K Q P same ds (pr, w)" and stuck: "\<forall>i \<in> P. pr i = Return PMIX_SUCCESS \<or> fence_of_call (pr i) \<noteq> None"
    and i: "i \<in> P" "pr i \<noteq> Return PMIX_SUCCESS"
  shows "\<exists>ps. members K ps P \<noteq> {} \<and> (\<forall>j \<in> members K ps P. fence_of_call (pr j) = Some ps)"
proof -
  obtain pl where loc: "\<forall>j \<in> P. located K Q P same ds w j (fst (pl j)) (snd (pl j)) (pr j)"
    and eq: "\<forall>k < length ds. \<forall>j \<in> part K P ds k. \<forall>l \<in> part K P ds k. reached (pl j) k = reached (pl l) k"
    using inv unfolding job_inv_def by auto
  define waiting where "waiting j \<longleftrightarrow> j \<in> P \<and> pr j \<noteq> Return PMIX_SUCCESS" for j
  obtain j where j: "waiting j" and least: "\<And>l. waiting l \<Longrightarrow> fst (pl j) \<le> fst (pl l)"
    using ex_has_least_nat [of waiting i "\<lambda>l. fst (pl l)"] i unfolding waiting_def by blast
  let ?n = "fst (pl j)"
  have jP: "j \<in> P" using j by (simp add: waiting_def)
  have at: "fst (pl l) < length ds \<and> l \<in> part K P ds (fst (pl l)) \<and> fence_of_call (pr l) = Some (fence_procs K (ds ! fst (pl l)))"
    if "waiting l" for l
    using at_fence [OF loc [rule_format]] stuck that unfolding waiting_def by (metis option.exhaust)
  have "fence_of_call (pr l) = Some (fence_procs K (ds ! ?n))" if l: "l \<in> part K P ds ?n" for l
  proof -
    have lP: "l \<in> P" using part_P [OF l] .
    have same: "reached (pl j) ?n = reached (pl l) ?n" using eq at [OF j] l by blast
    then have le: "fst (pl l) \<le> ?n" by (auto simp: reached_def split: if_splits)
    then have "pr l \<noteq> Return PMIX_SUCCESS"
      using located_prog [OF loc [rule_format, OF lP]] at [OF j] by auto
    then have "waiting l" using lP by (simp add: waiting_def)
    then show ?thesis using at least le by (metis le_antisym)
  qed
  then show ?thesis using at [OF j] by (intro exI [of _ "fence_procs K (ds ! ?n)"]) (auto simp: part_def)
qed

lemma job_progress:
  assumes inv: "job_inv K Q P same ds (pr, w)" and resp: "responsive L" and i: "i \<in> P" "pr i \<noteq> Return PMIX_SUCCESS"
  shows "\<exists>t. job_step K P L (pr, w) t"
proof (cases "\<forall>j \<in> P. pr j = Return PMIX_SUCCESS \<or> fence_of_call (pr j) \<noteq> None")
  case True
  then obtain ps where ps: "members K ps P \<noteq> {}" "\<forall>j \<in> members K ps P. fence_of_call (pr j) = Some ps"
    using fence_enabled [OF inv _ i] by blast
  have "\<forall>j. \<exists>a. L w j (the (next_call (pr j))) a" using resp by (simp add: responsive_def)
  then obtain as where "\<And>j. L w j (the (next_call (pr j))) (as j)" by metis
  then show ?thesis using job_step.all [OF refl ps(1), of pr L w as] ps(2) by blast
next
  case False
  then obtain j where j: "j \<in> P" "pr j \<noteq> Return PMIX_SUCCESS" "fence_of_call (pr j) = None" by blast
  then obtain c k where c: "pr j = Call c k"
    using inv located_prog unfolding job_inv_def fst_conv snd_conv by metis
  obtain a where "L w j c a" using resp unfolding responsive_def by blast
  then show ?thesis using job_step.own [where pr = pr and i = j and c = c and a = a] j c by fastforce
qed

section \<open>The job of a description\<close>

text \<open>
  The processes of a job whose namespaces have the given sizes, and the fences that only name
  processes of the job.
\<close>

definition job_procs :: "pmix_consts \<Rightarrow> nat list \<Rightarrow> proc list" where
  "job_procs K sizes = concat (map (\<lambda>j. all_procs (ns_name K (int j)) (sizes ! j)) [0..<length sizes])"

definition described :: "nat list \<Rightarrow> fence_item \<Rightarrow> bool" where
  "described sizes f \<longleftrightarrow>
     (\<forall>(j, xs) \<in> set (f_nss f). j < length sizes \<and> (\<forall>x \<in> set xs. \<forall>r \<in> set (ranks_of x). r < int (sizes ! j)))"

definition job_ok :: "pmix_consts \<Rightarrow> nat list \<Rightarrow> fence_item list \<Rightarrow> bool" where
  "job_ok K sizes fs \<longleftrightarrow>
     length sizes \<le> 10 \<and> (\<forall>n \<in> set sizes. 0 < n \<and> int n \<le> int_max \<and> n \<le> unat (rank_wildcard K)) \<and> 15 \<le> max_nslen K
   \<and> length fs \<le> 31 \<and> list_all (described sizes) fs
   \<and> (\<forall>n < length fs. length (fence_line K (int n) (fence_of K (fs ! n))) < 256)"

text \<open>The parameters the clients of a run share.\<close>

definition run_params :: "nat list \<Rightarrow> bool \<Rightarrow> test_params \<Rightarrow> bool" where
  "run_params sizes same q \<longleftrightarrow>
     noise q = None \<and> ns_dist q = Some (join_with CHR '':'' (map decimal_nat sizes)) \<and> (use_same_keys q \<noteq> 0) = same"

lemma name_eq:
  assumes "j < 10" "15 \<le> max_nslen K"
  shows "ns_name K (int j) = TEST_NAMESPACE @ CHR ''-'' # decimal (int j)" "length (ns_name K (int j)) = 14"
proof -
  have "length (decimal (int j)) \<le> 1" using assms(1) decimal_length_le [of "int j" 1] by simp
  moreover have "decimal (int j) \<noteq> []" by (simp add: decimal_def decimal_nat_digits)
  ultimately have len: "length (decimal (int j)) = 1" by (cases "decimal (int j)") auto
  show "ns_name K (int j) = TEST_NAMESPACE @ CHR ''-'' # decimal (int j)"
    using len assms(2) by (simp add: ns_name_def TEST_NAMESPACE_def)
  then show "length (ns_name K (int j)) = 14" using len by (simp add: TEST_NAMESPACE_def)
qed

lemma job_proc_iff:
  "p \<in> set (job_procs K sizes) \<longleftrightarrow> (\<exists>j < length sizes. nspace p = ns_name K (int j) \<and> (\<exists>r < sizes ! j. prank p = of_nat r))"
proof -
  have "p \<in> set (job_procs K sizes) \<longleftrightarrow>
      (\<exists>j < length sizes. \<exists>r < sizes ! j. p = \<lparr>nspace = ns_name K (int j), prank = of_nat r\<rparr>)"
    unfolding job_procs_def all_procs_def set_concat set_map image_image UN_iff image_iff set_upt
    by (simp add: Bex_def)
  then show ?thesis by (cases p) auto
qed

lemma described_proc:
  assumes ok: "described sizes f" and p: "p \<in> set (fence_participants (fence_of K f))"
  shows "\<exists>j < length sizes. nspace p = ns_name K (int j) \<and> (prank p = rank_wildcard K \<or> p \<in> set (job_procs K sizes))"
proof -
  obtain j xs where j: "(j, xs) \<in> set (f_nss f)" "p \<in> set (procs_of K (j, xs))"
    using p by (auto simp: fence_of_def)
  have bound: "j < length sizes" "\<And>x r. x \<in> set xs \<Longrightarrow> r \<in> set (ranks_of x) \<Longrightarrow> r < int (sizes ! j)"
    using ok j(1) by (auto simp: described_def)
  have pos: "0 \<le> r" if "r \<in> set (ranks_of x)" for r x using that by (cases x) auto
  show ?thesis
  proof (cases "xs = []")
    case True
    then show ?thesis using j(2) bound(1) by (auto simp: procs_of_def participant_def)
  next
    case False
    then obtain x r where r: "x \<in> set xs" "r \<in> set (ranks_of x)" "p = participant K (int j) (word_of_int r)"
      using j(2) by (auto simp: procs_of_def)
    then have "word_of_int r = (of_nat (nat r) :: u32)" "nat r < sizes ! j" using pos bound(2) by force+
    then show ?thesis using r(3) bound(1) by (auto simp: job_proc_iff participant_def)
  qed
qed

lemma fence_procs_same:
  assumes "\<forall>p \<in> set (fence_participants d). length (nspace p) \<le> max_nslen K"
  shows "fence_procs K d = fence_participants d"
  unfolding fence_procs_def using assms by (intro map_idI) simp

lemma takes_part_iff:
  assumes "\<forall>p \<in> set ps. length (nspace p) = length (nspace i)"
  shows "takes_part K i ps \<longleftrightarrow> in_fence K ps i"
proof -
  have "take (length (nspace i)) (nspace p) = nspace p" if "p \<in> set ps" for p using assms that by simp
  then show ?thesis unfolding takes_part_def in_fence_def by (metis (no_types, lifting))
qed

lemma real_ranks_in:
  assumes "\<forall>p \<in> set ps. prank p \<noteq> rank_wildcard K \<longrightarrow> p \<in> S"
    "\<forall>p \<in> set ps. prank p = rank_wildcard K \<longrightarrow>
       (\<exists>rs. get_all_ranks_from_namespace K (ns_dist q) (ns_size q) (nspace p) = Some (PMIX_SUCCESS, rs) \<and> set rs \<subseteq> S)"
    "set kept \<subseteq> S" "set added \<subseteq> S"
  shows "\<exists>rs. real_ranks K q ps kept added = Some (PMIX_SUCCESS, rs) \<and> set rs \<subseteq> S"
  using assms
proof (induction ps arbitrary: kept added)
  case (Cons p ps)
  show ?case
  proof (cases "prank p = rank_wildcard K")
    case True
    then obtain rs where rs: "get_all_ranks_from_namespace K (ns_dist q) (ns_size q) (nspace p) = Some (PMIX_SUCCESS, rs)"
        "set rs \<subseteq> S" using Cons.prems(2) by auto
    then show ?thesis using Cons.IH [of kept "added @ rs"] Cons.prems True by simp
  next
    case False
    then show ?thesis using Cons.IH [of "kept @ [p]" added] Cons.prems by simp
  qed
qed simp

lemma job_sound:
  assumes ok: "job_ok K sizes fs" and Q: "\<forall>i \<in> set (job_procs K sizes). run_params sizes same (Q i)"
  shows "sound_fences K Q (set (job_procs K sizes)) same (map (fence_of K) fs)"
proof -
  let ?P = "set (job_procs K sizes)" and ?ds = "map (fence_of K) fs"
  have few: "length sizes \<le> 10" and room: "15 \<le> max_nslen K" using ok by (simp_all add: job_ok_def)
  have size: "0 < n \<and> int n \<le> int_max \<and> n \<le> unat (rank_wildcard K)" if "n \<in> set sizes" for n
    using ok that by (auto simp: job_ok_def)
  have name: "length (ns_name K (int j)) = 14" "ns_name K (int j) = TEST_NAMESPACE @ CHR ''-'' # decimal (int j)"
    if "j < length sizes" for j using name_eq [of j K] few room that by auto
  have "(\<forall>i \<in> ?P. takes_part K i (fence_participants (?ds ! n)) \<longleftrightarrow> i \<in> part K ?P ?ds n)
      \<and> (\<forall>i \<in> ?P. \<exists>ps. real_ranks K (Q i) (fence_participants (?ds ! n)) [] [] = Some (PMIX_SUCCESS, ps)
          \<and> set ps \<subseteq> part K ?P ?ds n)" if n: "n < length fs" for n
  proof -
    let ?ps = "fence_participants (fence_of K (fs ! n))"
    have d: "described sizes (fs ! n)" using ok n by (simp add: job_ok_def list_all_length)
    have named: "\<exists>j < length sizes. nspace p = ns_name K (int j) \<and> (prank p = rank_wildcard K \<or> p \<in> ?P)" if "p \<in> set ?ps" for p
      using described_proc [OF d that] .
    then have len: "length (nspace p) = 14" if "p \<in> set ?ps" for p using that name(1) by metis
    have len_P: "length (nspace i) = 14" if "i \<in> ?P" for i using that name(1) by (auto simp: job_proc_iff)
    have procs: "fence_procs K (fence_of K (fs ! n)) = ?ps"
      using len room by (intro fence_procs_same) simp
    have part: "part K ?P ?ds n = {i \<in> ?P. in_fence K ?ps i}" using n by (simp add: part_def members_def procs)
    have "takes_part K i ?ps \<longleftrightarrow> in_fence K ?ps i" if "i \<in> ?P" for i
      using len len_P [OF that] by (intro takes_part_iff) simp
    moreover have "\<exists>rs. real_ranks K (Q i) ?ps [] [] = Some (PMIX_SUCCESS, rs) \<and> set rs \<subseteq> part K ?P ?ds n" if "i \<in> ?P" for i
    proof (rule real_ranks_in)
      show "\<forall>p \<in> set ?ps. prank p \<noteq> rank_wildcard K \<longrightarrow> p \<in> part K ?P ?ds n"
        using named unfolding part in_fence_def by blast
      show "\<forall>p \<in> set ?ps. prank p = rank_wildcard K \<longrightarrow> (\<exists>rs. get_all_ranks_from_namespace K (ns_dist (Q i)) (ns_size (Q i)) (nspace p)
          = Some (PMIX_SUCCESS, rs) \<and> set rs \<subseteq> part K ?P ?ds n)"
      proof (intro ballI impI)
        fix p
        assume p: "p \<in> set ?ps" "prank p = rank_wildcard K"
        obtain j where j: "j < length sizes" "nspace p = ns_name K (int j)" using named [OF p(1)] by blast
        have "sizes ! j \<noteq> 0" using size [OF nth_mem [OF j(1)]] by simp
        moreover have "int j \<le> int_max" using j(1) few by (simp add: int_max_def)
        ultimately have "get_all_ranks_from_namespace K (ns_dist (Q i)) (ns_size (Q i)) (nspace p)
            = Some (PMIX_SUCCESS, all_procs (nspace p) (sizes ! j))"
          using ranks_of_namespace [of sizes j K "ns_size (Q i)"] size j name [OF j(1)] room Q that
          by (simp add: run_params_def)
        moreover have "set (all_procs (nspace p) (sizes ! j)) \<subseteq> part K ?P ?ds n"
          unfolding part in_fence_def using p j by (force simp: all_procs_def job_proc_iff)
        ultimately show "\<exists>rs. get_all_ranks_from_namespace K (ns_dist (Q i)) (ns_size (Q i)) (nspace p)
            = Some (PMIX_SUCCESS, rs) \<and> set rs \<subseteq> part K ?P ?ds n" by blast
      qed
    qed simp_all
    ultimately show ?thesis using n part by auto
  qed
  then show ?thesis
    unfolding sound_fences_def using ok Q by (auto simp: job_ok_def run_params_def)
qed

lemma test_fence_rounds:
  assumes "list_all (\<lambda>f. list_all ns_ok (f_nss f)) fs" "noise q = None"
  shows "test_fence K q (show_fences fs) me start_parser = fence_rounds K q me 0 (map (fence_of K) fs)"
proof -
  have "test_fences (snd (parse_fence K (show_fences fs) True start_parser)) = map (fence_of K) fs"
    using fences_read [OF assms(1), of start_parser K True 0]
    by (auto simp: parse_fence_def start_parser_def parser_ok_def)
  then show ?thesis
    using assms(2) by (simp add: test_fence_def start_parser_def)
qed

text \<open>The start of a job in which every process runs the test on the same description.\<close>

definition fence_job :: "pmix_consts \<Rightarrow> (proc \<Rightarrow> test_params) \<Rightarrow> string \<Rightarrow> history \<Rightarrow> pmix_status job" where
  "fence_job K Q text w = (\<lambda>i. test_fence K (Q i) text i start_parser, w)"

lemma fence_job_inv:
  assumes "job_ok K sizes fs" "list_all (\<lambda>f. list_all ns_ok (f_nss f)) fs" "exchange_laws L"
    "\<forall>i \<in> set (job_procs K sizes). run_params sizes same (Q i)"
    "(job_step K (set (job_procs K sizes)) L)\<^sup>*\<^sup>* (fence_job K Q (show_fences fs) w) s"
  shows "job_inv K Q (set (job_procs K sizes)) same (map (fence_of K) fs) s"
proof -
  have sound: "sound_fences K Q (set (job_procs K sizes)) same (map (fence_of K) fs)" using job_sound assms(1,4) by blast
  have "\<forall>i \<in> set (job_procs K sizes). test_fence K (Q i) (show_fences fs) i start_parser = rounds K Q (map (fence_of K) fs) i 0"
    using test_fence_rounds [OF assms(2)] assms(4) by (auto simp: rounds_def run_params_def)
  then have "job_inv K Q (set (job_procs K sizes)) same (map (fence_of K) fs) (fence_job K Q (show_fences fs) w)"
    unfolding fence_job_def by (rule job_start [OF sound])
  then show ?thesis using exchange.steps_keep [OF assms(5)] sound assms(3) by blast
qed

section \<open>Properties\<close>

text \<open>
  A library that answers every call, with what the last fence made visible.
\<close>

definition memory_library :: pmix_library where
  "memory_library w i c a \<longleftrightarrow>
     status a = PMIX_SUCCESS \<and> reported a = PMIX_SUCCESS \<and>
     (case c of
        C_Get q (Some (Key key)) _ \<Rightarrow> (\<forall>v. since w i q key = {Some v} \<longrightarrow> found a = Some v)
      | C_Get_nb q (Key key) _ \<Rightarrow> (\<forall>v. since w i q key = {Some v} \<longrightarrow> found a = Some v)
      | _ \<Rightarrow> True)"

lemma memory_library_laws: "exchange_laws memory_library"
  by (auto simp: exchange_laws_def memory_library_def)

lemma memory_library_responsive: "responsive memory_library"
  unfolding responsive_def
proof (intro allI)
  fix w :: history and i c
  define v where "v = (case c of C_Get q (Some (Key key)) _ \<Rightarrow> the_elem (since w i q key)
    | C_Get_nb q (Key key) _ \<Rightarrow> the_elem (since w i q key) | _ \<Rightarrow> None)"
  have "memory_library w i c \<lparr>status = PMIX_SUCCESS, reported = PMIX_SUCCESS, found = v, pdata = [], procs = None, given = [], new_name = []\<rparr>"
    by (auto simp: memory_library_def v_def split: pmix_call.split option.split pkey.split)
  then show "\<exists>a. memory_library w i c a" by blast
qed

definition two_fences :: "fence_item list" where
  "two_fences = [\<lparr>f_data = True, f_block = False, f_nss = [(0, []), (1, [One 0])]\<rparr>, \<lparr>f_data = False, f_block = True, f_nss = [(0, [Range 0 1])]\<rparr>]"

definition two_params :: "proc \<Rightarrow> test_params" where
  "two_params i = (INIT_TEST_PARAMS sample_consts)\<lparr>ns_dist := Some ''2:1'', use_same_keys := 1\<rparr>"

definition empty_history :: history where
  "empty_history = \<lparr>pend = \<lambda>_. Map.empty, comm = \<lambda>_. Map.empty, since = \<lambda>_ _ _. {}\<rparr>"

lemma two_fences_ok:
  "job_ok sample_consts [2, 1] two_fences" "list_all (\<lambda>f. list_all ns_ok (f_nss f)) two_fences"
  "run_params [2, 1] True (two_params i)"
proof -
  have "join_with CHR '':'' (map decimal_nat [2, 1]) = ''2:1''" by code_simp
  then show "run_params [2, 1] True (two_params i)" by (simp add: run_params_def two_params_def INIT_TEST_PARAMS_def)
  have "length (fence_line sample_consts 0 (fence_of sample_consts (two_fences ! 0))) < 256"
    "length (fence_line sample_consts 1 (fence_of sample_consts (two_fences ! 1))) < 256" by code_simp+
  then show "job_ok sample_consts [2, 1] two_fences"
    by (simp add: job_ok_def two_fences_def described_def sample_consts_def int_max_def less_Suc_eq All_less_Suc)
qed (simp add: two_fences_def ns_ok_def int_max_def)

text \<open>
  C7: the fence test passes on every process. All processes of a job run \<open>test_fence\<close> on the same
  description, which names processes of the job only; the library keeps the laws of the key-value
  exchange and may otherwise answer as it likes. Then in every interleaving no process runs into
  undefined behaviour and every one that returns has returned success, with and without different keys
  for every fence: the barrier at the end of each fence keeps a fast process from overwriting values the
  others still read.
\<close>

theorem test_fence_passes:
  assumes "job_ok K sizes fs" "list_all (\<lambda>f. list_all ns_ok (f_nss f)) fs" "exchange_laws L"
    "\<forall>i \<in> set (job_procs K sizes). run_params sizes same (Q i)"
    "(job_step K (set (job_procs K sizes)) L)\<^sup>*\<^sup>* (fence_job K Q (show_fences fs) w) (pr, w')"
    "i \<in> set (job_procs K sizes)"
  shows "pr i \<noteq> Fault \<and> (\<forall>rc. pr i = Return rc \<longrightarrow> rc = PMIX_SUCCESS)"
proof -
  obtain n r where "located K Q (set (job_procs K sizes)) same (map (fence_of K) fs) w' i n r (pr i)"
    using fence_job_inv [OF assms(1-5)] assms(6) unfolding job_inv_def by auto
  then show ?thesis using located_prog by fastforce
qed

lemma fence_job_settles:
  assumes "job_ok K sizes fs" "list_all (\<lambda>f. list_all ns_ok (f_nss f)) fs" "exchange_laws L" "responsive L"
    "\<forall>i \<in> set (job_procs K sizes). run_params sizes same (Q i)"
    "(job_step K (set (job_procs K sizes)) L)\<^sup>*\<^sup>* (fence_job K Q (show_fences fs) w) s"
  shows "(\<exists>t. job_step K (set (job_procs K sizes)) L s t) \<longleftrightarrow> (\<exists>i \<in> set (job_procs K sizes). fst s i \<noteq> Return PMIX_SUCCESS)"
proof
  assume "\<exists>t. job_step K (set (job_procs K sizes)) L s t"
  then obtain i where "i \<in> set (job_procs K sizes)" "\<exists>q. (q, fst s i) \<in> rest_of" using job_step_moves by blast
  then show "\<exists>i \<in> set (job_procs K sizes). fst s i \<noteq> Return PMIX_SUCCESS"
    by (intro bexI [of _ i]) (auto simp: rest_of_def)
next
  assume "\<exists>i \<in> set (job_procs K sizes). fst s i \<noteq> Return PMIX_SUCCESS"
  then show "\<exists>t. job_step K (set (job_procs K sizes)) L s t"
    using job_progress [of K Q _ same _ "fst s" "snd s"] fence_job_inv [OF assms(1-3,5,6)] assms(4) by auto
qed

theorem test_fence_passes_witness:
  "\<exists>pr w. (job_step sample_consts (set (job_procs sample_consts [2, 1])) memory_library)\<^sup>*\<^sup>*
      (fence_job sample_consts two_params (show_fences two_fences) empty_history) (pr, w)
    \<and> pr \<lparr>nspace = ''smoky_nspace-0'', prank = 1\<rparr> = Return PMIX_SUCCESS"
proof -
  let ?P = "set (job_procs sample_consts [2, 1])" and ?s = "fence_job sample_consts two_params (show_fences two_fences) empty_history"
  obtain t where t: "(job_step sample_consts ?P memory_library)\<^sup>*\<^sup>* ?s t" "\<not> (\<exists>u. job_step sample_consts ?P memory_library t u)"
    using job_settles [of ?P] by blast
  obtain pr w where prw: "t = (pr, w)" by (cases t)
  let ?i = "\<lparr>nspace = ''smoky_nspace-0'', prank = 1\<rparr> :: proc"
  have i: "?i \<in> ?P" by code_simp
  have "\<forall>i \<in> ?P. pr i = Return PMIX_SUCCESS"
    using fence_job_settles [OF two_fences_ok(1,2) memory_library_laws memory_library_responsive _ t(1)] t(2) prw two_fences_ok(3)
    by auto
  then obtain rc where "pr ?i = Return rc" using i by blast
  moreover from this have "rc = PMIX_SUCCESS"
    using test_fence_passes [OF two_fences_ok(1,2) memory_library_laws _ t(1) [unfolded prw] i] two_fences_ok(3) by blast
  ultimately show ?thesis using t(1) prw by blast
qed

text \<open>
  C8: the fence test always ends. If the library answers every call, a job of the fence test has no
  endless run, and a state it can get to has no next step exactly when all processes have returned
  success: no process waits for ever at a fence.
\<close>

theorem test_fence_ends:
  assumes "job_ok K sizes fs" "list_all (\<lambda>f. list_all ns_ok (f_nss f)) fs" "exchange_laws L" "responsive L"
    "\<forall>i \<in> set (job_procs K sizes). run_params sizes same (Q i)"
    "(job_step K (set (job_procs K sizes)) L)\<^sup>*\<^sup>* (fence_job K Q (show_fences fs) w) (pr, w')"
  shows "((\<exists>t. job_step K (set (job_procs K sizes)) L (pr, w') t) \<longleftrightarrow> (\<exists>i \<in> set (job_procs K sizes). pr i \<noteq> Return PMIX_SUCCESS))
    \<and> \<not> (\<exists>f. f 0 = (pr, w') \<and> (\<forall>n. job_step K (set (job_procs K sizes)) L (f n) (f (Suc n))))"
  using fence_job_settles [OF assms] no_endless_job [of "set (job_procs K sizes)" K L] by auto

theorem test_fence_ends_witness:
  "\<exists>pr w. (job_step sample_consts (set (job_procs sample_consts [2, 1])) memory_library)\<^sup>*\<^sup>*
      (fence_job sample_consts two_params (show_fences two_fences) empty_history) (pr, w)
    \<and> map pr (job_procs sample_consts [2, 1]) = replicate 3 (Return PMIX_SUCCESS)"
proof -
  let ?P = "set (job_procs sample_consts [2, 1])" and ?s = "fence_job sample_consts two_params (show_fences two_fences) empty_history"
  obtain t where t: "(job_step sample_consts ?P memory_library)\<^sup>*\<^sup>* ?s t" "\<not> (\<exists>u. job_step sample_consts ?P memory_library t u)"
    using job_settles [of ?P] by blast
  obtain pr w where prw: "t = (pr, w)" by (cases t)
  have "\<forall>i \<in> ?P. pr i = Return PMIX_SUCCESS"
    using test_fence_ends [OF two_fences_ok(1,2) memory_library_laws memory_library_responsive _ t(1) [unfolded prw]]
      t(2) prw two_fences_ok(3) by blast
  then have "map pr (job_procs sample_consts [2, 1]) = map (\<lambda>_. Return PMIX_SUCCESS) (job_procs sample_consts [2, 1])"
    by (intro map_cong refl) blast
  also have "\<dots> = replicate 3 (Return PMIX_SUCCESS)"
    by (simp add: map_replicate_const job_procs_def all_procs_def)
  finally show ?thesis using t(1) prw by blast
qed

text \<open>
  C39: how many fences the test can check. The float of the fences is read back within the tolerance
  of 0.000001 in the first 31 fences; the float put for fence 31 (the 32nd) differs by more from the
  double it is compared with, so the test fails there on a value that was exchanged correctly.
\<close>

theorem fence_float_limit:
  "list_all (\<lambda>n. answered (get_all [peer_gets n same p ! 2] rest) (a\<lparr>status := PMIX_SUCCESS, found := Some (put_values n p ! 2)\<rparr>) = rest)
     [0..30]
   \<and> answered (get_all [peer_gets 31 same p ! 2] rest) (a\<lparr>status := PMIX_SUCCESS, found := Some (put_values 31 p ! 2)\<rparr>) = Return PMIX_ERROR"
  using float_close float_far
  by (simp add: list_all_iff peer_gets_def get_checks_def fence_keys_def put_values_def GET_def check_value_def
      continue_with_def differs_float_def)

end
