(* ===== verification/JobFence.thy ===== *)
theory JobFence
  imports FenceTest Launch
begin

text \<open>
  The job fence of src/unit/test_fence.c: \<open>get_local_peers\<close>, which reads the ranks the server
  registered for the own node, and \<open>test_job_fence\<close>, which checks what processes of the
  own node and of other nodes see of values put with the three scopes.
\<close>

section \<open>The local peers\<close>

text \<open>Where \<open>strtol\<close> stops: \<open>*eptr\<close> on.\<close>

definition strtol_rest :: "string \<Rightarrow> string" where
  "strtol_rest s =
     (let t = dropWhile is_space_char s;
          u = (if t \<noteq> [] \<and> (hd t = CHR ''-'' \<or> hd t = CHR ''+'') then tl t else t)
      in if takeWhile is_digit_char u = [] then s else dropWhile is_digit_char u)"

text \<open>
  The loop over the tokens; \<open>None\<close> when it writes past the array of \<open>npeers\<close> ranks: it only stops when
  there already are more than \<open>npeers\<close>.
\<close>

fun read_peers :: "nat \<Rightarrow> string list \<Rightarrow> pmix_rank_t list \<Rightarrow> (pmix_status \<times> pmix_rank_t list) option" where
  "read_peers npeers [] peers =
     Some (if length peers \<noteq> npeers then (PMIX_ERROR, []) else (PMIX_SUCCESS, peers))"
| "read_peers npeers (token # ts) peers =
     (if length peers > npeers then Some (PMIX_ERROR, [])
      else if length peers = npeers then None
      else if strtol_rest token \<noteq> [] then Some (PMIX_ERROR, [])
      else read_peers npeers ts (peers @ [word_of_int (strtol token)]))"

definition get_local_peers :: "pmix_consts \<Rightarrow> string \<Rightarrow> (pmix_status \<times> pmix_rank_t list) prog" where
  "get_local_peers K my_nspace =
     (let p = \<lparr>nspace = take (max_nslen K) my_nspace, prank = rank_wildcard K\<rparr>
      in Call (C_Get p (Some (Attribute ''PMIX_LOCAL_SIZE'')) []) (\<lambda>a.
           on_ok (status a) (status a, [])
             (case found a of
                Some (V_u32 npeers) \<Rightarrow>
                  Call (C_Get p (Some (Attribute ''PMIX_LOCAL_PEERS'')) []) (\<lambda>a.
                    on_ok (status a) (status a, [])
                      (case found a of
                         Some (V_string None) \<Rightarrow> Fault
                       | Some (V_string (Some s)) \<Rightarrow>
                           (case read_peers (unat npeers) (tokens CHR '','' s) [] of
                              None \<Rightarrow> Fault | Some r \<Rightarrow> Return r)
                       | _ \<Rightarrow> Return (PMIX_ERROR, [])))
              | _ \<Rightarrow> Return (PMIX_ERROR, []))))"

section \<open>The test\<close>

text \<open>\<open>(float)12.15 + j\<close>, an addition of floats.\<close>

definition job_float :: "int \<Rightarrow> int" where
  "job_float j = round_sig 24 (to_float (dbl 1215 100) + j * float_unit) 1"

definition peer_text :: "proc \<Rightarrow> string" where
  "peer_text p = take 49 (nspace p @ '':'' @ decimal (sint (prank p)))"

definition job_puts :: "proc \<Rightarrow> (scope \<times> string \<times> pvalue) list" where
  "job_puts me = concat (map (\<lambda>i.
     [(PMIX_LOCAL, SET_KEY 100 i False, V_int (12340 + i)),
      (PMIX_REMOTE, SET_KEY 101 i False, V_string (Some (peer_text me))),
      (PMIX_GLOBAL, SET_KEY 102 i False, V_float (job_float i))]) [0, 1, 2])"

fun put_scoped :: "(scope \<times> string \<times> pvalue) list \<Rightarrow> pmix_status prog \<Rightarrow> pmix_status prog" where
  "put_scoped [] rest = rest"
| "put_scoped ((sc, key, v) # kvs) rest = PUT sc key v (\<lambda>rc. on_ok rc PMIX_ERROR (put_scoped kvs rest))"

text \<open>The checks on the keys of one index: on the own node, and on another one.\<close>

definition check_keys :: "proc \<Rightarrow> proc \<Rightarrow> bool \<Rightarrow> pmix_status prog \<Rightarrow> int \<Rightarrow> pmix_status prog" where
  "check_keys me p is_local rest j =
     (let last_get = GET (differs_float 24 (job_float j)) p (SET_KEY 102 j False) False (\<lambda>rc. on_ok rc PMIX_ERROR rest)
      in if is_local
         then GET (differs_int (12340 + j)) p (SET_KEY 100 j False) False (\<lambda>rc. on_ok rc PMIX_ERROR
                (GET (differs_string (peer_text p)) p (SET_KEY 101 j False) True (\<lambda>rc.
                   if rc = PMIX_SUCCESS \<and> prank p \<noteq> prank me then Return PMIX_ERROR else last_get)))
         else GET (differs_int (12340 + j)) p (SET_KEY 100 j False) False (\<lambda>rc.
                if rc = PMIX_SUCCESS \<and> prank p \<noteq> prank me then Return PMIX_ERROR
                else GET (differs_string (peer_text p)) p (SET_KEY 101 j False) True (\<lambda>rc. on_ok rc PMIX_ERROR last_get)))"

text \<open>The key nobody has put; \<open>found\<close> is the variable \<open>val\<close> after the call.\<close>

definition check_absent :: "proc \<Rightarrow> pmix_status prog \<Rightarrow> pmix_status prog" where
  "check_absent p rest =
     Call (C_Get p (Some (Key ''foobar'')) []) (\<lambda>a.
       if status a = PMIX_SUCCESS then Return PMIX_ERROR
       else if status a \<noteq> PMIX_ERR_NOT_FOUND \<and> status a \<noteq> PMIX_ERR_PROC_ENTRY_NOT_FOUND then Return PMIX_ERROR
       else if found a \<noteq> None then Return PMIX_ERROR else rest)"

fun check_ranks :: "pmix_consts \<Rightarrow> proc \<Rightarrow> pmix_rank_t list \<Rightarrow> pmix_rank_t list \<Rightarrow> pmix_status prog" where
  "check_ranks K me peers [] = Return PMIX_SUCCESS"
| "check_ranks K me peers (r # rs) =
     (let p = \<lparr>nspace = take (max_nslen K) (nspace me), prank = r\<rparr>
      in foldr (\<lambda>j rest. check_keys me p (r \<in> set peers) rest j) [0, 1, 2]
           (check_absent p (check_ranks K me peers rs)))"

text \<open>No processes (\<open>NULL\<close>) stand for all those of the own namespace.\<close>

definition test_job_fence :: "pmix_consts \<Rightarrow> test_params \<Rightarrow> proc \<Rightarrow> pmix_status prog" where
  "test_job_fence K q me =
     put_scoped (job_puts me)
       (Call C_Commit (\<lambda>a. on_ok (status a) PMIX_ERROR
          (FENCE (nonblocking q = 0) (collect q \<noteq> 0) [] (\<lambda>rc. on_ok rc rc
             (and_then (get_local_peers K (nspace me)) (\<lambda>(rc, peers).
                on_ok rc PMIX_ERROR
                  (check_ranks K me peers (map (\<lambda>i. word_of_int i + base_rank q) [0..ns_size q - 1]))))))))"

section \<open>What the server registered\<close>

text \<open>The value of a key in the information \<open>set_namespace\<close> registers.\<close>

definition job_info :: "(job_key \<times> job_value) option list \<Rightarrow> job_key \<Rightarrow> pvalue option" where
  "job_info info k =
     (case map_of (List.map_filter id info) k of
        Some (Uint32 w) \<Rightarrow> Some (V_u32 w) | Some (Text s) \<Rightarrow> Some (V_string (Some s)) | _ \<Rightarrow> None)"

lemma strtol_rest_decimal: "strtol_rest (decimal_nat n) = []"
proof -
  have ds: "list_all is_digit_char (decimal_nat n)" "decimal_nat n \<noteq> []" by (rule decimal_nat_digits)+
  obtain c cs where c: "decimal_nat n = c # cs" using ds(2) by (cases "decimal_nat n") auto
  have "is_digit_char c" using ds(1) c by simp
  then have "\<not> is_space_char c" "c \<noteq> CHR ''-''" "c \<noteq> CHR ''+''"
    by (auto simp: is_digit_char_def is_space_char_def)
  moreover have "dropWhile is_digit_char (c # cs) = []" "takeWhile is_digit_char (c # cs) = c # cs"
    using ds(1) c by (auto simp: list_all_iff dropWhile_eq_Nil_conv takeWhile_eq_all_conv)
  ultimately show ?thesis by (simp add: strtol_rest_def c)
qed

lemma read_peers_decimals:
  "list_all (\<lambda>n. int n \<le> int_max) xs \<Longrightarrow> length peers + length xs = npeers \<Longrightarrow>
    read_peers npeers (map decimal_nat xs) peers = Some (PMIX_SUCCESS, peers @ map of_nat xs)"
proof (induction xs arbitrary: peers)
  case (Cons n xs)
  moreover have "strtol (decimal_nat n) = int n"
    using Cons.prems(1) strtol_decimal_nat [of n "[]"] by (simp add: int_max_def long_max_def)
  ultimately show ?case by (simp add: strtol_rest_decimal)
qed simp

section \<open>Properties\<close>

lemma namespace_info:
  assumes "set_namespace E sid servers (int n) usize base = Some (Some info)" "0 < n" "0 \<le> base"
    "base + int n \<le> int_max + 1" "11 * int n \<le> int_max"
  shows "job_info info PMIX_LOCAL_SIZE = Some (V_u32 (of_nat n))
    \<and> job_info info PMIX_LOCAL_PEERS =
        Some (V_string (Some (join_with CHR '','' (map decimal_nat (map (\<lambda>k. nat base + k) [0..<n])))))"
proof -
  have small: "base < 1000000000"
    using assms(1) fill_seq_ranks [OF assms(2-5)] by (auto simp: set_namespace_def split: if_splits)
  have eq: "map (\<lambda>k. decimal (base + int k)) [0..<n] = map decimal_nat (map (\<lambda>k. nat base + k) [0..<n])"
    using assms(3) by (simp add: decimal_def nat_add_distrib)
  have "fill_seq_ranks_array n base =
      Some (Some (join_with CHR '','' (map decimal_nat (map (\<lambda>k. nat base + k) [0..<n]))))"
    using fill_seq_ranks [OF assms(2-5)] small unfolding eq by simp
  then show ?thesis
    using assms(1)
    by (auto simp: set_namespace_def Let_def job_info_def List.map_filter_def split: if_splits bind_splits)
qed

text \<open>
  C12: a client finds its peers. What \<open>set_namespace\<close> registers for the processes of a server as
  their number and the text of their ranks, \<open>get_local_peers\<close> of the clients reads back as
  exactly these ranks, in order.
\<close>

theorem local_peers_read_back:
  assumes info: "set_namespace E sid servers (int n) usize base = Some (Some info)" "0 < n" "0 \<le> base"
      "base + int n \<le> int_max + 1" "11 * int n \<le> int_max"
    and me: "p = \<lparr>nspace = take (max_nslen K) ns_text, prank = rank_wildcard K\<rparr>"
    and get1: "lib l (C_Get p (Some (Attribute ''PMIX_LOCAL_SIZE'')) []) = Some (a1, l1)"
      "status a1 = PMIX_SUCCESS" "found a1 = job_info info PMIX_LOCAL_SIZE"
    and get2: "lib l1 (C_Get p (Some (Attribute ''PMIX_LOCAL_PEERS'')) []) = Some (a2, l2)"
      "status a2 = PMIX_SUCCESS" "found a2 = job_info info PMIX_LOCAL_PEERS"
  shows "run_prog lib (get_local_peers K ns_text) l = Some ((PMIX_SUCCESS, map (\<lambda>k. of_nat (nat base + k)) [0..<n]), l2)"
proof -
  let ?rs = "map (\<lambda>k. nat base + k) [0..<n]"
  have "unat (of_nat n :: u32) = n" using info(5) by (intro unat_u32) (simp add: int_max_def)
  moreover have "tokens CHR '','' (join_with CHR '','' (map decimal_nat ?rs)) = map decimal_nat ?rs"
    by (rule tokens_join) (auto simp: decimal_nat_digits decimal_nat_free is_digit_char_def)
  moreover have "list_all (\<lambda>m. int m \<le> int_max) ?rs" using info(3,4) by (auto simp: list_all_iff)
  then have "read_peers n (map decimal_nat ?rs) [] = Some (PMIX_SUCCESS, map of_nat ?rs)"
    using read_peers_decimals [of ?rs "[]" n] by simp
  ultimately show ?thesis
    using namespace_info [OF info] get1 get2 me by (simp add: get_local_peers_def Let_def comp_def)
qed

definition job_library :: "(job_key \<times> job_value) option list \<Rightarrow> nat \<Rightarrow> pmix_call \<Rightarrow> (answer \<times> nat) option" where
  "job_library info l c =
     (let a = \<lparr>status = PMIX_SUCCESS, reported = PMIX_SUCCESS, found = None, pdata = [], procs = None, given = [], new_name = []\<rparr>
      in case c of
           C_Get p (Some (Attribute k)) xs \<Rightarrow>
             Some (a\<lparr>found := job_info info (if k = ''PMIX_LOCAL_SIZE'' then PMIX_LOCAL_SIZE else PMIX_LOCAL_PEERS)\<rparr>, l + 1)
         | _ \<Rightarrow> None)"

definition sample_info :: "(job_key \<times> job_value) option list" where
  "sample_info = the (the (set_namespace plain_env 0 1 3 5 2))"

theorem local_peers_read_back_witness:
  "run_prog (job_library sample_info) (get_local_peers sample_consts ''smoky_nspace-0'') 0 = Some ((PMIX_SUCCESS, [2, 3, 4]), 2)"
proof -
  have "set_namespace plain_env 0 1 3 5 2 = Some (Some sample_info)" by code_simp
  then have "run_prog (job_library sample_info) (get_local_peers sample_consts ''smoky_nspace-0'') 0
      = Some ((PMIX_SUCCESS, map (\<lambda>k. of_nat (nat 2 + k)) [0..<3]), 2)"
    by (intro local_peers_read_back [where E = plain_env and sid = 0 and servers = 1 and usize = 5 and base = 2 and info = sample_info])
       (simp_all add: job_library_def int_max_def, simp_all)
  then show ?thesis by (simp add: upt_rec)
qed

section \<open>What the job fence test accepts\<close>

text \<open>A \<open>GET\<close> that succeeds, and answers that make none fault.\<close>

definition good :: "bool \<Rightarrow> mismatch \<Rightarrow> answer \<Rightarrow> bool" where
  "good blk dif a \<longleftrightarrow> status a = PMIX_SUCCESS \<and> (blk \<or> reported a = PMIX_SUCCESS)
     \<and> (case found a of None \<Rightarrow> False | Some v \<Rightarrow> dif v = Some False)"

definition sane :: "answer \<Rightarrow> bool" where
  "sane a \<longleftrightarrow> found a \<noteq> Some (V_string None) \<and> (reported a = PMIX_SUCCESS \<longrightarrow> found a \<noteq> None)"

definition strict :: "mismatch \<Rightarrow> bool" where
  "strict dif \<longleftrightarrow> (\<forall>v. v \<noteq> V_string None \<longrightarrow> dif v \<noteq> None)"

lemma strict_checks [simp]: "strict (differs_int x)" "strict (differs_string s)" "strict (differs_float k x)"
  by (auto simp: strict_def differs_int_def differs_string_def differs_float_def split: pvalue.split option.split)

text \<open>A library that only reads: the answers are a function of the process and the key.\<close>

definition reads :: "('l \<Rightarrow> pmix_call \<Rightarrow> (answer \<times> 'l) option) \<Rightarrow> (proc \<Rightarrow> string \<Rightarrow> answer) \<Rightarrow> 'l \<Rightarrow> bool" where
  "reads lib g l \<longleftrightarrow> (\<forall>p key. lib l (C_Get p (Some (Key key)) []) = Some (g p key, l)
     \<and> lib l (C_Get_nb p (Key key) []) = Some (g p key, l))"

lemma run_GET:
  assumes "reads lib g l" "sane (g p key)" "strict dif"
  shows "run_prog lib (GET dif p key blk rest) l =
    run_prog lib (rest (if good blk dif (g p key) then PMIX_SUCCESS else PMIX_ERROR)) l"
proof -
  have "dif v \<noteq> None" if "found (g p key) = Some v" for v using assms(2,3) that by (auto simp: sane_def strict_def)
  then show ?thesis
    using assms(1,2)
    by (cases "found (g p key)") (auto simp: GET_def reads_def check_value_def get_cb_def continue_with_def good_def sane_def)
qed

text \<open>What the test wants of the keys of index \<open>j\<close> of a process, and of the key nobody has put.\<close>

definition scopes_ok :: "(proc \<Rightarrow> string \<Rightarrow> answer) \<Rightarrow> proc \<Rightarrow> bool \<Rightarrow> proc \<Rightarrow> int \<Rightarrow> bool" where
  "scopes_ok g me is_local p j \<longleftrightarrow>
     (let own = good False (differs_int (12340 + j)) (g p (SET_KEY 100 j False));
          remote = good True (differs_string (peer_text p)) (g p (SET_KEY 101 j False))
      in (if is_local then own \<and> (remote \<longrightarrow> prank p = prank me) else remote \<and> (own \<longrightarrow> prank p = prank me))
         \<and> good False (differs_float 24 (job_float j)) (g p (SET_KEY 102 j False)))"

definition absent_ok :: "(proc \<Rightarrow> string \<Rightarrow> answer) \<Rightarrow> proc \<Rightarrow> bool" where
  "absent_ok g p \<longleftrightarrow> status (g p ''foobar'') \<in> {PMIX_ERR_NOT_FOUND, PMIX_ERR_PROC_ENTRY_NOT_FOUND} \<and> found (g p ''foobar'') = None"

lemma run_check_keys:
  assumes "reads lib g l" "\<forall>key. sane (g p key)"
  shows "run_prog lib (check_keys me p is_local rest j) l =
    (if scopes_ok g me is_local p j then run_prog lib rest l else Some (PMIX_ERROR, l))"
  using assms by (auto simp: check_keys_def Let_def run_GET scopes_ok_def)

lemma run_check_ranks:
  assumes "reads lib g l" "\<forall>p key. sane (g p key)"
  shows "run_prog lib (check_ranks K me peers rs) l =
    Some (if \<forall>r \<in> set rs. (\<forall>j \<in> {0, 1, 2}. scopes_ok g me (r \<in> set peers) \<lparr>nspace = take (max_nslen K) (nspace me), prank = r\<rparr> j)
              \<and> absent_ok g \<lparr>nspace = take (max_nslen K) (nspace me), prank = r\<rparr>
          then PMIX_SUCCESS else PMIX_ERROR, l)"
proof (induction rs)
  case (Cons r rs)
  let ?p = "\<lparr>nspace = take (max_nslen K) (nspace me), prank = r\<rparr>"
  have "run_prog lib (check_absent ?p rest) l = (if absent_ok g ?p then run_prog lib rest l else Some (PMIX_ERROR, l))" for rest
    using assms(1) by (auto simp: check_absent_def reads_def absent_ok_def)
  then show ?case
    using assms Cons by (auto simp: Let_def run_check_keys)
qed simp

text \<open>A library on which the writing part of the test works and leaves a state in \<open>J\<close>.\<close>

definition writes :: "('l \<Rightarrow> pmix_call \<Rightarrow> (answer \<times> 'l) option) \<Rightarrow> ('l \<Rightarrow> bool) \<Rightarrow> bool" where
  "writes lib J \<longleftrightarrow>
     (\<forall>l sc key v. \<exists>a l'. lib l (C_Put sc key v) = Some (a, l') \<and> status a = PMIX_SUCCESS)
   \<and> (\<forall>l. \<exists>a l'. lib l C_Commit = Some (a, l') \<and> status a = PMIX_SUCCESS)
   \<and> (\<forall>l ps xs. \<exists>a l'. lib l (C_Fence ps xs) = Some (a, l') \<and> status a = PMIX_SUCCESS \<and> J l')
   \<and> (\<forall>l ps xs. \<exists>a l'. lib l (C_Fence_nb ps xs) = Some (a, l') \<and> status a = PMIX_SUCCESS \<and> J l')"

lemma run_put_scoped:
  assumes "writes lib J"
  shows "\<exists>l'. run_prog lib (put_scoped kvs rest) l = run_prog lib rest l'"
proof (induction kvs arbitrary: l)
  case (Cons x kvs)
  obtain sc key v where x: "x = (sc, key, v)" by (cases x)
  obtain a l' where "lib l (C_Put sc key v) = Some (a, l')" "status a = PMIX_SUCCESS" using assms unfolding writes_def by meson
  then show ?case using Cons.IH [of l'] x by (simp add: PUT_def)
qed auto

lemma run_FENCE:
  assumes "writes lib J"
  shows "\<exists>l'. run_prog lib (FENCE blk dx ps rest) l = run_prog lib (rest PMIX_SUCCESS) l' \<and> J l'"
proof (cases blk)
  case True
  obtain a l' where "lib l (C_Fence ps (if dx then [(Attribute ''PMIX_COLLECT_DATA'', V_bool True)] else [])) = Some (a, l')"
    "status a = PMIX_SUCCESS" "J l'" using assms unfolding writes_def by meson
  then show ?thesis using True by (intro exI [of _ l']) (simp add: FENCE_def)
next
  case False
  obtain a l' where "lib l (C_Fence_nb ps []) = Some (a, l')" "status a = PMIX_SUCCESS" "J l'"
    using assms unfolding writes_def by meson
  then show ?thesis using False by (intro exI [of _ l']) (simp add: FENCE_def)
qed

text \<open>
  C10: the verdict of the job fence. Once the values are put and exchanged, the test returns success
  exactly when, for every rank of the namespace, a process of the own node shows its local value and
  not its remote one, a process of another node the remote one and not the local one (the own process may
  show both), every one its global value, and the key nobody has put is reported as not found without a value.
\<close>

theorem job_fence_verdict:
  assumes writes: "writes lib J" and reads: "\<And>l. J l \<Longrightarrow> reads lib g l" and sane: "\<forall>p key. sane (g p key)"
    and peers: "\<And>l. J l \<Longrightarrow> run_prog lib (get_local_peers K (nspace me)) l = Some ((PMIX_SUCCESS, peers), l)"
    and name: "length (nspace me) \<le> max_nslen K"
  shows "\<exists>l'. run_prog lib (test_job_fence K q me) l =
    Some (if \<forall>i \<in> {0..<ns_size q}. let r = word_of_int i + base_rank q; p = me\<lparr>prank := r\<rparr> in
               (\<forall>j \<in> {0, 1, 2}. scopes_ok g me (r \<in> set peers) p j) \<and> absent_ok g p
          then PMIX_SUCCESS else PMIX_ERROR, l')"
proof -
  have p: "me\<lparr>prank := r\<rparr> = \<lparr>nspace = take (max_nslen K) (nspace me), prank = r\<rparr>" for r
    using name by (cases me) simp
  let ?checks = "check_ranks K me peers (map (\<lambda>i. word_of_int i + base_rank q) [0..ns_size q - 1])"
  let ?read = "and_then (get_local_peers K (nspace me)) (\<lambda>(rc, peers). on_ok rc PMIX_ERROR
      (check_ranks K me peers (map (\<lambda>i. word_of_int i + base_rank q) [0..ns_size q - 1])))"
  let ?fence = "FENCE (nonblocking q = 0) (collect q \<noteq> 0) [] (\<lambda>rc. on_ok rc rc ?read)"
  obtain l1 where l1: "run_prog lib (test_job_fence K q me) l =
      run_prog lib (Call C_Commit (\<lambda>a. on_ok (status a) PMIX_ERROR ?fence)) l1"
    using run_put_scoped [OF writes] unfolding test_job_fence_def by blast
  obtain a l2 where l2: "lib l1 C_Commit = Some (a, l2)" "status a = PMIX_SUCCESS" using writes unfolding writes_def by meson
  obtain l3 where l3: "run_prog lib ?fence l2 = run_prog lib ?read l3" "J l3"
    using run_FENCE [OF writes, of "nonblocking q = 0" "collect q \<noteq> 0" "[]" "\<lambda>rc. on_ok rc rc ?read" l2] by auto
  have "run_prog lib (test_job_fence K q me) l = run_prog lib ?checks l3"
    using l1 l2 l3 by (simp add: run_and_then peers)
  also have "\<dots> = Some (if \<forall>i \<in> {0..<ns_size q}. let r = word_of_int i + base_rank q; p = me\<lparr>prank := r\<rparr> in
               (\<forall>j \<in> {0, 1, 2}. scopes_ok g me (r \<in> set peers) p j) \<and> absent_ok g p
          then PMIX_SUCCESS else PMIX_ERROR, l3)"
    unfolding run_check_ranks [OF reads [OF l3(2)] sane] p Let_def by (auto simp: Ball_def)
  finally show ?thesis by blast
qed

text \<open>A library that shows the values of the other processes as their scopes say.\<close>

definition scope_answer :: "proc \<Rightarrow> pmix_rank_t list \<Rightarrow> proc \<Rightarrow> string \<Rightarrow> answer" where
  "scope_answer me peers p key =
     (let yes = (\<lambda>v. \<lparr>status = PMIX_SUCCESS, reported = PMIX_SUCCESS, found = Some v, pdata = [], procs = None, given = [], new_name = []\<rparr>);
          no = \<lparr>status = PMIX_ERR_NOT_FOUND, reported = PMIX_ERR_NOT_FOUND, found = None, pdata = [], procs = None, given = [], new_name = []\<rparr>
      in case find (\<lambda>(sc, k, v). k = key) (job_puts p) of
           None \<Rightarrow> no
         | Some (sc, k, v) \<Rightarrow>
             (case sc of
                PMIX_GLOBAL \<Rightarrow> yes v
              | PMIX_LOCAL \<Rightarrow> if prank p \<in> set peers \<or> prank p = prank me then yes v else no
              | PMIX_REMOTE \<Rightarrow> if prank p \<notin> set peers \<or> prank p = prank me then yes v else no))"

definition scope_library :: "proc \<Rightarrow> pmix_rank_t list \<Rightarrow> string \<Rightarrow> unit \<Rightarrow> pmix_call \<Rightarrow> (answer \<times> unit) option" where
  "scope_library me peers text l c =
     (let a = \<lparr>status = PMIX_SUCCESS, reported = PMIX_SUCCESS, found = None, pdata = [], procs = None, given = [], new_name = []\<rparr>
      in case c of
           C_Get p (Some (Key key)) _ \<Rightarrow> Some (scope_answer me peers p key, l)
         | C_Get_nb p (Key key) _ \<Rightarrow> Some (scope_answer me peers p key, l)
         | C_Get p (Some (Attribute k)) _ \<Rightarrow>
             Some (a\<lparr>found := Some (if k = ''PMIX_LOCAL_SIZE'' then V_u32 (of_nat (length peers)) else V_string (Some text))\<rparr>, l)
         | _ \<Rightarrow> Some (a, l))"

lemma scope_answer_sane: "sane (scope_answer me peers p key)"
proof -
  have "v \<noteq> V_string None" if "find (\<lambda>(sc, k, v). k = key) (job_puts p) = Some (sc, k, v)" for sc k v
    using that by (auto simp: find_Some_iff job_puts_def nth_append in_set_conv_nth split: if_splits)
  then show ?thesis
    by (auto simp: sane_def scope_answer_def Let_def split: option.split scope.split)
qed

definition first_proc :: proc where
  "first_proc = \<lparr>nspace = ''smoky_nspace-0'', prank = 0\<rparr>"

theorem job_fence_verdict_witness:
  "\<exists>l'. run_prog (scope_library first_proc [0] ''0'') (test_job_fence sample_consts ((INIT_TEST_PARAMS sample_consts)\<lparr>ns_size := 2\<rparr>) first_proc) ()
     = Some (PMIX_SUCCESS, l')"
proof -
  let ?lib = "scope_library first_proc [0] ''0''" and ?g = "scope_answer first_proc [0]"
  let ?q = "(INIT_TEST_PARAMS sample_consts)\<lparr>ns_size := 2\<rparr>"
  have "writes ?lib (\<lambda>_. True)" by (simp add: writes_def scope_library_def)
  moreover have "reads ?lib ?g l" for l by (simp add: reads_def scope_library_def)
  moreover have "run_prog ?lib (get_local_peers sample_consts (nspace first_proc)) l = Some ((PMIX_SUCCESS, [0]), l)" for l
    by (cases l) code_simp
  moreover have "length (nspace first_proc) \<le> max_nslen sample_consts" by code_simp
  moreover have "\<forall>i \<in> {0..<ns_size ?q}. let r = word_of_int i + base_rank ?q; p = first_proc\<lparr>prank := r\<rparr> in
      (\<forall>j \<in> {0, 1, 2}. scopes_ok ?g first_proc (r \<in> set [0]) p j) \<and> absent_ok ?g p"
  proof -
    have digits: "decimal 0 = ''0''" "decimal 1 = ''1''" "decimal 2 = ''2''" "decimal 100 = ''100''" "decimal 101 = ''101''"
      "decimal 102 = ''102''" by code_simp+
    note defs = digits scopes_ok_def absent_ok_def good_def scope_answer_def job_puts_def SET_KEY_def Let_def
      differs_int_def differs_string_def differs_float_def cmp_float_refl
    have "\<forall>j \<in> {0, 1, 2}. scopes_ok ?g first_proc True first_proc j"
      "\<forall>j \<in> {0, 1, 2}. scopes_ok ?g first_proc False (first_proc\<lparr>prank := 1\<rparr>) j"
      "absent_ok ?g first_proc \<and> absent_ok ?g (first_proc\<lparr>prank := 1\<rparr>)"
      by (simp_all add: defs first_proc_def)
    moreover have "{0..<2} = {0, 1 :: int}" by auto
    moreover have "first_proc\<lparr>prank := 0\<rparr> = first_proc" by (simp add: first_proc_def)
    ultimately show ?thesis by (simp add: INIT_TEST_PARAMS_def Let_def)
  qed
  ultimately show ?thesis
    using job_fence_verdict [of ?lib "\<lambda>_. True" ?g sample_consts first_proc "[0]" ?q "()"] scope_answer_sane by auto
qed

end
