(* ===== verification/ClientTests.thy ===== *)
theory ClientTests
  imports JobFence Callbacks
begin

text \<open>
  The other tests of a client: publishing (src/unit/test_publish.c), spawning (test_spawn.c), connecting
  (test_cd.c), resolving peers (test_resolve_peers.c), replacing keys (test_replace.c), storing
  internal data (test_internal.c), events (test_error.c). Run against the handlers of the harness's own
  server, the publish test passes and leaves the published data as it found them.
\<close>

section \<open>Publishing\<close>

text \<open>The names of a process in keys and data; ranks are passed as \<open>int\<close>.\<close>

definition proc_text :: "proc \<Rightarrow> string" where
  "proc_text me = nspace me @ '':'' @ decimal (sint (prank me))"

definition publish_key :: "pmix_consts \<Rightarrow> proc \<Rightarrow> string" where
  "publish_key K me = take (max_keylen K - 1) (proc_text me)"

definition publish_data :: "proc \<Rightarrow> string" where
  "publish_data me = take 511 (''data from proc '' @ proc_text me)"

text \<open>The callback of a publication, \<open>release_cb\<close>, ignores its status.\<close>

definition test_publish_data :: "pmix_consts \<Rightarrow> proc \<Rightarrow> bool \<Rightarrow> pmix_status prog" where
  "test_publish_data K me blk =
     (let info = [(Key (publish_key K me), V_string (Some (publish_data me)))]
      in Call (if blk then C_Publish info else C_Publish_nb info) (\<lambda>a. Return (status a)))"

text \<open>The value of the entry with the key in what was returned, by \<open>lookup_cb\<close> or by the library.\<close>

definition lookup_cb :: "string \<Rightarrow> (string \<times> proc \<times> pvalue) list \<Rightarrow> pvalue" where
  "lookup_cb key data = foldl (\<lambda>v (k, p, v'). if k = key then v' else v) V_undef data"

text \<open>\<open>strncmp\<close> with the length of the own data accepts longer data.\<close>

definition test_lookup :: "pmix_consts \<Rightarrow> proc \<Rightarrow> bool \<Rightarrow> pmix_status prog" where
  "test_lookup K me blk =
     (let key = publish_key K me; data = publish_data me
      in Call (if blk then C_Lookup [key] else C_Lookup_nb [key]) (\<lambda>a.
           on_ok (status a) (status a)
             (case lookup_cb key (pdata a) of
                V_string (Some s) \<Rightarrow> Return (if take (length data) s \<noteq> data then PMIX_ERR_NOT_FOUND else status a)
              | _ \<Rightarrow> Return PMIX_ERR_NOT_FOUND)))"

definition test_unpublish :: "pmix_consts \<Rightarrow> proc \<Rightarrow> bool \<Rightarrow> pmix_status prog" where
  "test_unpublish K me blk =
     (let keys = [publish_key K me]
      in Call (if blk then C_Unpublish keys else C_Unpublish_nb keys) (\<lambda>a. Return (status a)))"

definition test_publish_lookup_common :: "pmix_consts \<Rightarrow> proc \<Rightarrow> bool \<Rightarrow> pmix_status prog" where
  "test_publish_lookup_common K me blk =
     and_then (test_publish_data K me blk) (\<lambda>rc. on_ok rc PMIX_ERROR
       (and_then (test_lookup K me blk) (\<lambda>rc. on_ok rc PMIX_ERROR
         (and_then (test_unpublish K me blk) (\<lambda>rc. on_ok rc PMIX_ERROR
           (and_then (test_lookup K me blk) (\<lambda>rc.
              Return (if rc \<noteq> PMIX_ERR_NOT_FOUND then PMIX_ERROR else PMIX_SUCCESS))))))))"

definition test_publish_lookup :: "pmix_consts \<Rightarrow> proc \<Rightarrow> pmix_status prog" where
  "test_publish_lookup K me =
     and_then (test_publish_lookup_common K me True) (\<lambda>rc. on_ok rc PMIX_ERROR
       (and_then (test_publish_lookup_common K me False) (\<lambda>rc. on_ok rc PMIX_ERROR (Return PMIX_SUCCESS))))"

section \<open>Spawning and connecting\<close>

text \<open>
  \<open>spawn_cb\<close> ignores its status; it copies the name to a buffer of \<open>PMIX_MAX_NSLEN\<close> bytes.
\<close>

definition test_spawn_common :: "pmix_consts \<Rightarrow> bool \<Rightarrow> pmix_status prog" where
  "test_spawn_common K blk =
     Call (if blk then C_Spawn [] [empty_app] else C_Spawn_nb [] [empty_app]) (\<lambda>a.
       on_ok (status a) (status a)
         (if \<not> blk \<and> length (new_name a) \<ge> max_nslen K then Fault
          else Return (if new_name a \<noteq> ''foobar'' then PMIX_ERROR else PMIX_SUCCESS)))"

definition client_test_spawn :: "pmix_consts \<Rightarrow> pmix_status prog" where
  "client_test_spawn K =
     and_then (test_spawn_common K True) (\<lambda>rc. on_ok rc PMIX_ERROR
       (and_then (test_spawn_common K False) (\<lambda>rc. on_ok rc PMIX_ERROR (Return PMIX_SUCCESS))))"

text \<open>The status of a call with a callback that keeps its status.\<close>

definition final_status :: "answer \<Rightarrow> pmix_status" where
  "final_status a = (if status a = PMIX_SUCCESS then reported a else status a)"

definition test_connect_disconnect :: "pmix_consts \<Rightarrow> proc \<Rightarrow> pmix_status prog" where
  "test_connect_disconnect K me =
     (let ps = [\<lparr>nspace = take (max_nslen K) (nspace me), prank = rank_wildcard K\<rparr>]
      in Call (C_Connect ps []) (\<lambda>a. on_ok (status a) PMIX_ERROR
           (Call (C_Disconnect ps) (\<lambda>a. on_ok (status a) PMIX_ERROR
             (Call (C_Connect_nb ps) (\<lambda>a. on_ok (final_status a) PMIX_ERROR
               (Call (C_Disconnect_nb ps) (\<lambda>a. on_ok (final_status a) PMIX_ERROR (Return PMIX_SUCCESS)))))))))"

section \<open>Resolving peers\<close>

definition NODE_NAME :: string where
  "NODE_NAME = ''node1''"

definition resolve_nspace :: "pmix_consts \<Rightarrow> test_params \<Rightarrow> string \<Rightarrow> pmix_status prog" where
  "resolve_nspace K q ns_text =
     Call (C_Resolve_peers NODE_NAME (Some ns_text)) (\<lambda>a.
       on_ok (status a) (status a)
         (case procs a of
            None \<Rightarrow> Return PMIX_ERROR
          | Some ps \<Rightarrow>
              if ps = [] then Return PMIX_ERROR
              else (case get_all_ranks_from_namespace K (ns_dist q) (ns_size q) ns_text of
                      None \<Rightarrow> Fault
                    | Some (rc, rs) \<Rightarrow>
                        on_ok rc rc
                          (Return (if map prank ps \<noteq> map prank rs then PMIX_ERROR else PMIX_SUCCESS)))))"

text \<open>\<open>strcmp\<close> compares bytes; the names are shorter than the limit of \<open>strncmp\<close>.\<close>

fun text_greater :: "string \<Rightarrow> string \<Rightarrow> bool" where
  "text_greater s [] = (s \<noteq> [])"
| "text_greater [] (d # t) = False"
| "text_greater (c # s) (d # t) = ((of_char c :: nat) > of_char d \<or> c = d \<and> text_greater s t)"

definition connect_pair :: "pmix_consts \<Rightarrow> string \<Rightarrow> string \<Rightarrow> proc list" where
  "connect_pair K other own_ns =
     map (\<lambda>s. \<lparr>nspace = take (max_nslen K) s, prank = rank_wildcard K\<rparr>)
       (if text_greater other own_ns then [other, own_ns] else [own_ns, other])"

text \<open>The loop over the namespaces; a failure to resolve one is returned after disconnecting.\<close>

fun resolve_others :: "pmix_consts \<Rightarrow> test_params \<Rightarrow> string \<Rightarrow> string list \<Rightarrow> pmix_status \<Rightarrow> pmix_status prog" where
  "resolve_others K q own_ns [] rc = Return rc"
| "resolve_others K q own_ns (other # names) rc =
     (if other = own_ns then resolve_others K q own_ns names rc
      else (let ps = connect_pair K other own_ns
            in Call (C_Connect ps []) (\<lambda>a. on_ok (status a) PMIX_ERROR
                 (and_then (resolve_nspace K q other) (\<lambda>rc.
                    if rc \<noteq> PMIX_SUCCESS then Call (C_Disconnect ps) (\<lambda>a. Return rc)
                    else Call (C_Disconnect ps) (\<lambda>a. on_ok (status a) PMIX_ERROR
                           (resolve_others K q own_ns names (status a))))))))"

definition client_test_resolve_peers :: "pmix_consts \<Rightarrow> test_params \<Rightarrow> proc \<Rightarrow> pmix_status prog" where
  "client_test_resolve_peers K q me =
     and_then (resolve_nspace K q (nspace me)) (\<lambda>rc. on_ok rc PMIX_ERROR
       (let ns_num = get_total_ns_number (ns_dist q)
        in if 0 \<ge> ns_num then Return PMIX_ERROR
           else resolve_others K q (nspace me) (map (ns_name K) [0..ns_num - 1]) rc))"

section \<open>Replacing keys and internal data\<close>

text \<open>The texts are printed to a buffer of \<open>PMIX_MAX_NSLEN\<close> bytes without a limit.\<close>

definition value_text :: "proc \<Rightarrow> int \<Rightarrow> bool \<Rightarrow> string" where
  "value_text me i new =
     ''test_replace:'' @ proc_text me @ '':'' @ decimal i @ (if new then '': replaced key'' else [])"

fun put_texts :: "pmix_consts \<Rightarrow> (string \<times> string) list \<Rightarrow> pmix_status prog \<Rightarrow> pmix_status prog" where
  "put_texts K [] rest = rest"
| "put_texts K ((key, sval) # xs) rest =
     (if length sval \<ge> max_nslen K then Fault
      else PUT PMIX_GLOBAL key (V_string (Some sval)) (\<lambda>rc. on_ok rc rc (put_texts K xs rest)))"

fun get_texts :: "pmix_consts \<Rightarrow> proc \<Rightarrow> (string \<times> string) list \<Rightarrow> pmix_status prog" where
  "get_texts K me [] = Return PMIX_SUCCESS"
| "get_texts K me ((key, sval) # xs) =
     (if length sval \<ge> max_nslen K then Fault
      else GET (differs_string sval) me key True (\<lambda>rc. on_ok rc PMIX_ERROR (get_texts K me xs)))"

definition commit_fence :: "pmix_consts \<Rightarrow> proc \<Rightarrow> pmix_status prog \<Rightarrow> pmix_status prog" where
  "commit_fence K me rest =
     Call C_Commit (\<lambda>a. on_ok (status a) PMIX_ERROR
       (FENCE True True [\<lparr>nspace = take (max_nslen K) (nspace me), prank = rank_wildcard K\<rparr>] (\<lambda>rc. on_ok rc rc rest)))"

definition key_texts :: "proc \<Rightarrow> (int \<Rightarrow> bool) \<Rightarrow> int list \<Rightarrow> (string \<times> string) list" where
  "key_texts me new is = map (\<lambda>i. (SET_KEY 0 i True, value_text me i (new i))) is"

definition client_test_replace :: "pmix_consts \<Rightarrow> string option \<Rightarrow> proc \<Rightarrow> pmix_status prog" where
  "client_test_replace K keys_param me =
     (case parse_replace keys_param True of
        None \<Rightarrow> Fault
      | Some (ret, key_cnt, keys) \<Rightarrow>
          put_texts K (key_texts me (\<lambda>i. False) [0..key_cnt - 1])
            (commit_fence K me
              (put_texts K (key_texts me (\<lambda>i. True) keys)
                (commit_fence K me
                  (get_texts K me (key_texts me (\<lambda>i. i \<in> set keys) [0..key_cnt - 1]))))))"

definition internal_texts :: "proc \<Rightarrow> int list \<Rightarrow> (string \<times> string) list" where
  "internal_texts me is =
     map (\<lambda>i. (SET_KEY 0 i True, ''test_internal:'' @ proc_text me @ '':'' @ decimal i)) is"

fun store_texts :: "pmix_consts \<Rightarrow> proc \<Rightarrow> (string \<times> string) list \<Rightarrow> pmix_status prog \<Rightarrow> pmix_status prog" where
  "store_texts K me [] rest = rest"
| "store_texts K me ((key, sval) # xs) rest =
     (if length sval \<ge> max_nslen K then Fault
      else Call (C_Store_internal me key (V_string (Some sval))) (\<lambda>a.
             on_ok (status a) PMIX_ERROR (store_texts K me xs rest)))"

definition client_test_internal :: "pmix_consts \<Rightarrow> test_params \<Rightarrow> proc \<Rightarrow> pmix_status prog" where
  "client_test_internal K q me =
     (let xs = internal_texts me [0..test_internal q - 1]
      in store_texts K me xs (commit_fence K me (get_texts K me xs)))"

section \<open>Events\<close>

text \<open>
  The two handlers are registered without waiting for the callback that stores their number; the
  number that is deregistered is what the callback has stored by then.
\<close>

definition client_test_error :: "pmix_consts \<Rightarrow> nat \<Rightarrow> nat \<Rightarrow> proc \<Rightarrow> pmix_status prog" where
  "client_test_error K ref0 ref1 me =
     Call (C_Register_event_handler [PMIX_ERR_TIMEOUT] []) (\<lambda>_.
     Call (C_Register_event_handler [PMIX_ERR_LOST_PEER_CONNECTION] []) (\<lambda>_.
     Call (C_Notify_event PMIX_ERR_TIMEOUT (me\<lparr>nspace := take (max_nslen K) (nspace me)\<rparr>)) (\<lambda>_.
     Call (C_Wait ''done'') (\<lambda>_.
     Call (C_Deregister_event_handler ref0) (\<lambda>_.
     Call (C_Wait ''done'') (\<lambda>_.
     Call (C_Deregister_event_handler ref1) (\<lambda>_.
     Call (C_Wait ''done'') (\<lambda>_. Return PMIX_SUCCESS))))))))"

section \<open>Against the harness's own server\<close>

text \<open>
  What a library does that forwards the requests of the client \<open>me\<close> to the handlers of
  server_callbacks.c, with the server as its state: a blocking call returns the status the
  handler reports, the other ones are accepted and give it to the callback; a lookup brings the
  data the handler passed on. Values are copied as they are.
\<close>

definition published_info :: "infos \<Rightarrow> pvalue pmix_info list" where
  "published_info xs = map (\<lambda>(k, v). \<lparr>info_key = (case k of Key s \<Rightarrow> s | Attribute s \<Rightarrow> s), info_value = v\<rparr>) xs"

definition looked_up :: "pvalue pmix_pdata list \<Rightarrow> (string \<times> proc \<times> pvalue) list" where
  "looked_up ds = map (\<lambda>d. (pd_key d, \<lparr>nspace = pd_nspace d, prank = pd_rank d\<rparr>, pd_value d)) ds"

definition forwards ::
  "(pvalue server \<Rightarrow> pmix_call \<Rightarrow> (answer \<times> pvalue server) option) \<Rightarrow> pmix_consts \<Rightarrow> string \<times> int \<Rightarrow> proc \<Rightarrow> bool" where
  "forwards lib K here me \<longleftrightarrow>
     (\<forall>s xs rc cb s'. publish_fn (\<lambda>v. v) here me (published_info xs) True s = Some (rc, cb, s') \<longrightarrow>
        (\<exists>a. lib s (C_Publish xs) = Some (a, s') \<and> status a = rc) \<and>
        (\<exists>a. lib s (C_Publish_nb xs) = Some (a, s') \<and> status a = PMIX_SUCCESS \<and> reported a = rc))
   \<and> (\<forall>s ks rc ds. lookup_fn (max_nslen K) (max_keylen K) (\<lambda>v. v) (Some ks) True s = Some (rc, ds) \<longrightarrow>
        (\<exists>a. lib s (C_Lookup ks) = Some (a, s) \<and> status a = rc \<and>
           pdata a = (case ds of None \<Rightarrow> [] | Some ds \<Rightarrow> looked_up ds)) \<and>
        (\<exists>a. lib s (C_Lookup_nb ks) = Some (a, s) \<and> status a = PMIX_SUCCESS \<and> reported a = rc \<and>
           pdata a = (case ds of None \<Rightarrow> [] | Some ds \<Rightarrow> looked_up ds)))
   \<and> (\<forall>s ks rc cb s'. unpublish_fn (Some ks) True s = Some (rc, cb, s') \<longrightarrow>
        (\<exists>a. lib s (C_Unpublish ks) = Some (a, s') \<and> status a = rc) \<and>
        (\<exists>a. lib s (C_Unpublish_nb ks) = Some (a, s') \<and> status a = PMIX_SUCCESS \<and> reported a = rc))"

lemma forward_publish:
  assumes "forwards lib K here me" "publish_fn (\<lambda>v. v) here me (published_info xs) True s = Some (PMIX_SUCCESS, cb, s')"
  shows "\<exists>a. lib s (if blk then C_Publish xs else C_Publish_nb xs) = Some (a, s') \<and> status a = PMIX_SUCCESS"
  using assms unfolding forwards_def by (cases blk) fastforce+

lemma forward_lookup:
  assumes "forwards lib K here me" "lookup_fn (max_nslen K) (max_keylen K) (\<lambda>v. v) (Some ks) True s = Some (rc, ds)"
  shows "\<exists>a. lib s (if blk then C_Lookup ks else C_Lookup_nb ks) = Some (a, s) \<and> status a = (if blk then rc else PMIX_SUCCESS)
    \<and> pdata a = (case ds of None \<Rightarrow> [] | Some ds \<Rightarrow> looked_up ds)"
  using assms unfolding forwards_def by (cases blk) fastforce+

lemma forward_unpublish:
  assumes "forwards lib K here me" "unpublish_fn (Some ks) True s = Some (PMIX_SUCCESS, cb, s')"
  shows "\<exists>a. lib s (if blk then C_Unpublish ks else C_Unpublish_nb ks) = Some (a, s') \<and> status a = PMIX_SUCCESS"
  using assms unfolding forwards_def by (cases blk) fastforce+

text \<open>One round, blocking or not, on a server that has nothing under the key.\<close>

lemma publish_round:
  assumes lib: "forwards lib K here me" and rep: "pub_rep s es" and few: "length es + 1 < 2 ^ 63"
    and free: "entry_for data_key (publish_key K me) es = None"
  shows "\<exists>s'. run_prog lib (test_publish_lookup_common K me blk) s = Some (PMIX_SUCCESS, s') \<and> pub_rep s' es"
proof -
  define key data where "key = publish_key K me" and "data = publish_data me"
  define x where "x = \<lparr>info_key = key, info_value = V_string (Some data)\<rparr>"
  define info where "info = [(Key key, V_string (Some data))]"
  let ?e = "entry_of (\<lambda>v. v) me x"
  have info: "published_info info = [x]" by (simp add: published_info_def info_def x_def)
  have x: "info_key x = key" by (simp add: x_def)
  have new: "add_new data_key es [?e] = es @ [?e]"
    using free entry_for_None [of data_key key es] by (simp add: key_def x)
  obtain s1 where s1: "publish_fn (\<lambda>v. v) here me [x] True s = Some (PMIX_SUCCESS, True, s1)" "have_list s1"
      "pub_rep s1 (es @ [?e])"
    using publish_rep [OF rep, of "[x]" "\<lambda>v. v" here me True] few new by auto
  obtain a1 where a1: "lib s (if blk then C_Publish info else C_Publish_nb info) = Some (a1, s1)" "status a1 = PMIX_SUCCESS"
    using forward_publish [OF lib, of info s True s1 blk] s1(1) info by auto
  have found: "entry_for data_key key (es @ [?e]) = Some ?e"
    using free by (simp add: entry_for_append key_def [symmetric]) (simp add: entry_for_def x)
  have "lookup_fn (max_nslen K) (max_keylen K) (\<lambda>v. v) (Some [key]) True s1 =
      Some (PMIX_SUCCESS, Some [fill_pdata (max_nslen K) (max_keylen K) (\<lambda>v. v) key ?e])"
    using service_lookup_rep [OF s1(3), of "[key]" "max_nslen K" "max_keylen K" "\<lambda>v. v"] found
    by (simp add: service_lookup_iff)
  then obtain a2 where a2: "lib s1 (if blk then C_Lookup [key] else C_Lookup_nb [key]) = Some (a2, s1)" "status a2 = PMIX_SUCCESS"
      "pdata a2 = looked_up [fill_pdata (max_nslen K) (max_keylen K) (\<lambda>v. v) key ?e]"
    using forward_lookup [OF lib, of "[key]" s1 _ _ blk] by (auto split: if_splits)
  have "take (max_keylen K) key = key" by (cases "max_keylen K") (simp_all add: key_def publish_key_def min_def)
  then have val: "lookup_cb key (pdata a2) = V_string (Some data)"
    by (simp add: a2(3) looked_up_def fill_pdata_def lookup_cb_def entry_of_def x_def)
  obtain s2 where s2: "unpublish_fn (Some [key]) True s1 = Some (PMIX_SUCCESS, True, s2)" "have_list s2" "pub_rep s2 es"
  proof -
    have "filter (\<lambda>e. \<not> selected (Some [key]) (data_key e)) (es @ [?e]) = es"
      using free by (auto simp: selected_def x key_def [symmetric] entry_for_None intro!: filter_True)
    then show ?thesis
      using unpublish_sweep [OF s1(3,2), of "Some [key]"] that s1(2) by (auto simp: unpublish_fn_def)
  qed
  obtain a3 where a3: "lib s1 (if blk then C_Unpublish [key] else C_Unpublish_nb [key]) = Some (a3, s2)" "status a3 = PMIX_SUCCESS"
    using forward_unpublish [OF lib s2(1)] by blast
  have "lookup_fn (max_nslen K) (max_keylen K) (\<lambda>v. v) (Some [key]) True s2 = Some (PMIX_ERR_NOT_FOUND, None)"
    using lookup_rep [OF s2(3,2), of "max_nslen K" "max_keylen K" "\<lambda>v. v" "Some [key]" True] free
    by (simp add: key_def [symmetric])
  then obtain a4 where a4: "lib s2 (if blk then C_Lookup [key] else C_Lookup_nb [key]) = Some (a4, s2)"
      "status a4 = (if blk then PMIX_ERR_NOT_FOUND else PMIX_SUCCESS)" "pdata a4 = []"
    using forward_lookup [OF lib, of "[key]" s2 _ _ blk] by auto
  have "run_prog lib (test_publish_lookup_common K me blk) s = Some (PMIX_SUCCESS, s2)"
    using a1 a2 a3 a4 val
    by (simp add: test_publish_lookup_common_def test_publish_data_def test_lookup_def test_unpublish_def run_and_then
        Let_def key_def [symmetric] data_def [symmetric] info_def [symmetric]) (simp add: lookup_cb_def on_ok_def)
  then show ?thesis using s2(3) by blast
qed

section \<open>Properties\<close>

text \<open>
  C9: the publish test passes against the harness's own server. On a library that forwards the
  requests to \<open>publish_fn\<close>, \<open>lookup_fn\<close> and \<open>unpublish_fn\<close>, with nothing published under the
  key of the process, \<open>test_publish_lookup\<close> returns success, with the blocking calls and with the
  others, and afterwards the same data is published as before.
\<close>

theorem publish_test_passes:
  assumes lib: "forwards lib K here me" and rep: "pub_rep s es" and few: "length es + 1 < 2 ^ 63"
    and free: "entry_for data_key (publish_key K me) es = None"
  shows "\<exists>s'. run_prog lib (test_publish_lookup K me) s = Some (PMIX_SUCCESS, s') \<and> pub_rep s' es"
proof -
  obtain s1 where s1: "run_prog lib (test_publish_lookup_common K me True) s = Some (PMIX_SUCCESS, s1)" "pub_rep s1 es"
    using publish_round [OF assms] by blast
  obtain s2 where "run_prog lib (test_publish_lookup_common K me False) s1 = Some (PMIX_SUCCESS, s2)" "pub_rep s2 es"
    using publish_round [OF lib s1(2) few free] by blast
  then show ?thesis using s1 by (auto simp: test_publish_lookup_def run_and_then)
qed

definition reply :: "pmix_status \<Rightarrow> pmix_status \<Rightarrow> (string \<times> proc \<times> pvalue) list \<Rightarrow> answer" where
  "reply rc rc' data = \<lparr>status = rc, reported = rc', found = None, pdata = data, procs = None, given = [], new_name = []\<rparr>"

definition harness_library ::
  "pmix_consts \<Rightarrow> string \<times> int \<Rightarrow> proc \<Rightarrow> pvalue server \<Rightarrow> pmix_call \<Rightarrow> (answer \<times> pvalue server) option" where
  "harness_library K here me s c =
     (let look = (\<lambda>ks. lookup_fn (max_nslen K) (max_keylen K) (\<lambda>v. v) (Some ks) True s);
          data = (\<lambda>ds. case ds of None \<Rightarrow> [] | Some ds \<Rightarrow> looked_up ds)
      in case c of
           C_Publish xs \<Rightarrow> map_option (\<lambda>(rc, _, s'). (reply rc rc [], s')) (publish_fn (\<lambda>v. v) here me (published_info xs) True s)
         | C_Publish_nb xs \<Rightarrow> map_option (\<lambda>(rc, _, s'). (reply PMIX_SUCCESS rc [], s')) (publish_fn (\<lambda>v. v) here me (published_info xs) True s)
         | C_Lookup ks \<Rightarrow> map_option (\<lambda>(rc, ds). (reply rc rc (data ds), s)) (look ks)
         | C_Lookup_nb ks \<Rightarrow> map_option (\<lambda>(rc, ds). (reply PMIX_SUCCESS rc (data ds), s)) (look ks)
         | C_Unpublish ks \<Rightarrow> map_option (\<lambda>(rc, _, s'). (reply rc rc [], s')) (unpublish_fn (Some ks) True s)
         | C_Unpublish_nb ks \<Rightarrow> map_option (\<lambda>(rc, _, s'). (reply PMIX_SUCCESS rc [], s')) (unpublish_fn (Some ks) True s)
         | _ \<Rightarrow> None)"

lemma harness_forwards: "forwards (harness_library K here me) K here me"
  by (simp add: forwards_def harness_library_def reply_def)

definition empty_server :: "pvalue server" where
  "empty_server =
     \<lparr>hp = hp sample_server, payload = (\<lambda>p. \<lparr>data_key = [], data_value = V_undef, namespace_published = [], rank_published = 0\<rparr>),
      next_item = 5, have_list = False, released = [], clients = sample_clients,
      finalized_count = 1, numconnect = 0, spawn_wait = False\<rparr>"

theorem publish_test_passes_witness:
  "\<exists>s'. run_prog (harness_library sample_consts (''cb.c'', 176) first_proc) (test_publish_lookup sample_consts first_proc) empty_server
     = Some (PMIX_SUCCESS, s') \<and> pub_rep s' []"
  by (rule publish_test_passes [OF harness_forwards]) (simp_all add: pub_rep_def empty_server_def entry_for_def)

section \<open>Replaced keys\<close>

text \<open>
  The key-value space of one process: \<open>pending\<close> are the values put since the last commit, \<open>shared\<close> the
  ones committed; the process reads back what it has committed.
\<close>

definition own_space ::
  "('l \<Rightarrow> pmix_call \<Rightarrow> (answer \<times> 'l) option) \<Rightarrow> proc \<Rightarrow> ('l \<Rightarrow> string \<Rightarrow> pvalue option) \<Rightarrow> ('l \<Rightarrow> string \<Rightarrow> pvalue option) \<Rightarrow> bool" where
  "own_space lib me pending shared \<longleftrightarrow>
     (\<forall>l sc key v. \<exists>a l'. lib l (C_Put sc key v) = Some (a, l') \<and> status a = PMIX_SUCCESS
        \<and> pending l' = (pending l)(key \<mapsto> v) \<and> shared l' = shared l)
   \<and> (\<forall>l. \<exists>a l'. lib l C_Commit = Some (a, l') \<and> status a = PMIX_SUCCESS
        \<and> shared l' = shared l ++ pending l \<and> pending l' \<subseteq>\<^sub>m shared l')
   \<and> (\<forall>l ps xs. \<exists>a l'. lib l (C_Fence ps xs) = Some (a, l') \<and> status a = PMIX_SUCCESS
        \<and> shared l' = shared l \<and> pending l' = pending l)
   \<and> (\<forall>l key xs v. shared l key = Some v \<longrightarrow>
        (\<exists>a l'. lib l (C_Get me (Some (Key key)) xs) = Some (a, l') \<and> status a = PMIX_SUCCESS \<and> found a = Some v
           \<and> shared l' = shared l))"

lemma run_put_texts:
  assumes "own_space lib me pending shared" "\<forall>(key, s) \<in> set xs. length s < max_nslen K"
  shows "\<exists>l'. run_prog lib (put_texts K xs rest) l = run_prog lib rest l' \<and> shared l' = shared l
    \<and> pending l' = pending l ++ map_of (rev (map (\<lambda>(key, s). (key, V_string (Some s))) xs))"
  using assms(2)
proof (induction xs arbitrary: l)
  case (Cons x xs)
  obtain key s where x: "x = (key, s)" by (cases x)
  obtain a l1 where l1: "lib l (C_Put PMIX_GLOBAL key (V_string (Some s))) = Some (a, l1)" "status a = PMIX_SUCCESS"
      "pending l1 = (pending l)(key \<mapsto> V_string (Some s))" "shared l1 = shared l"
    using assms(1) unfolding own_space_def by meson
  obtain l2 where "run_prog lib (put_texts K xs rest) l1 = run_prog lib rest l2" "shared l2 = shared l1"
      "pending l2 = pending l1 ++ map_of (rev (map (\<lambda>(key, s). (key, V_string (Some s))) xs))"
    using Cons by auto
  then show ?case using l1 x Cons.prems by (intro exI [of _ l2]) (simp add: PUT_def map_add_def fun_eq_iff split: option.split)
qed auto

lemma run_commit_fence:
  assumes "own_space lib me pending shared"
  shows "\<exists>l'. run_prog lib (commit_fence K p rest) l = run_prog lib rest l' \<and> shared l' = shared l ++ pending l \<and> pending l' \<subseteq>\<^sub>m shared l'"
proof -
  let ?ps = "[\<lparr>nspace = take (max_nslen K) (nspace p), prank = rank_wildcard K\<rparr>]"
  obtain a l1 where l1: "lib l C_Commit = Some (a, l1)" "status a = PMIX_SUCCESS" "shared l1 = shared l ++ pending l"
      "pending l1 \<subseteq>\<^sub>m shared l1" using assms unfolding own_space_def by meson
  obtain b l2 where "lib l1 (C_Fence ?ps [(Attribute ''PMIX_COLLECT_DATA'', V_bool True)]) = Some (b, l2)" "status b = PMIX_SUCCESS"
      "shared l2 = shared l1" "pending l2 = pending l1" using assms unfolding own_space_def by meson
  then show ?thesis using l1 by (intro exI [of _ l2]) (simp add: commit_fence_def FENCE_def)
qed

lemma run_get_texts:
  assumes "own_space lib me pending shared"
    "\<forall>(key, s) \<in> set xs. length s < max_nslen K \<and> shared l key = Some (V_string (Some s))"
  shows "\<exists>l'. run_prog lib (get_texts K me xs) l = Some (PMIX_SUCCESS, l')"
  using assms(2)
proof (induction xs arbitrary: l)
  case (Cons x xs)
  obtain key s where x: "x = (key, s)" by (cases x)
  have "shared l key = Some (V_string (Some s))" using Cons.prems x by simp
  then obtain a l1 where l1: "lib l (C_Get me (Some (Key key)) []) = Some (a, l1)" "status a = PMIX_SUCCESS"
      "found a = Some (V_string (Some s))" "shared l1 = shared l"
    using assms(1) unfolding own_space_def by meson
  then show ?case
    using Cons.IH [of l1] Cons.prems x by (auto simp: GET_def check_value_def continue_with_def differs_string_def)
qed simp

lemma map_of_keys:
  assumes "inj_on f (insert i (set is))"
  shows "map_of (rev (map (\<lambda>i. (f i, g i)) is)) (f i) = (if i \<in> set is then Some (g i) else None)"
proof -
  have "map_of (map (\<lambda>i. (f i, g i)) js) (f i) = (if i \<in> set js then Some (g i) else None)" if "set js = set is" for js
    using assms unfolding that [symmetric] by (induction js) (auto simp: inj_on_def)
  from this [of "rev is"] show ?thesis by (simp add: rev_map)
qed

lemma key_inj: "inj_on (\<lambda>i. SET_KEY 0 i True) {0..int_max}"
proof (rule inj_onI)
  fix i j
  assume ij: "i \<in> {0..int_max}" "j \<in> {0..int_max}" "SET_KEY 0 i True = SET_KEY 0 j True"
  then have "strtol (decimal i) = strtol (decimal j)" by (simp add: SET_KEY_def)
  moreover have "strtol (decimal k) = k" if "k \<in> {0..int_max}" for k
    using that by (intro strtol_decimal) (auto simp: int_max_def long_max_def)
  ultimately show "i = j" using ij(1,2) by simp
qed

lemma texts_map:
  "rev (map (\<lambda>(key, s). (key, V_string (Some s))) (key_texts me new is)) =
    rev (map (\<lambda>i. (SET_KEY 0 i True, V_string (Some (value_text me i (new i))))) is)"
  by (simp add: key_texts_def comp_def)


text \<open>Two maps for the values put and committed.\<close>

type_synonym two_maps = "(string \<Rightarrow> pvalue option) \<times> (string \<Rightarrow> pvalue option)"

definition map_library :: "two_maps \<Rightarrow> pmix_call \<Rightarrow> (answer \<times> two_maps) option" where
  "map_library l c =
     (let ok = reply PMIX_SUCCESS PMIX_SUCCESS []
      in case c of
           C_Put sc key v \<Rightarrow> Some (ok, ((fst l)(key \<mapsto> v), snd l))
         | C_Commit \<Rightarrow> Some (ok, (Map.empty, snd l ++ fst l))
         | C_Get p (Some (Key key)) xs \<Rightarrow> Some (ok\<lparr>found := snd l key\<rparr>, l)
         | _ \<Rightarrow> Some (ok, l))"

lemma map_library_space: "own_space map_library me fst snd"
  by (simp add: own_space_def map_library_def reply_def)


end
