(* ===== verification/ClientMain.thy ===== *)
theory ClientMain
  imports ClientTests
begin

text \<open>
  The client the harness launches, src/unit/pmix_client.c: its main program reads the options, checks
  what the library says about the process and its job, runs the tests the options ask for and
  ends. A client that exits with 0 has passed all of them.
\<close>

section \<open>The main program\<close>

text \<open>\<open>exit\<close> with a number of the program, or with a status of the library that is not success.\<close>

datatype exit_code = Exit int | Exit_status pmix_status

text \<open>The process \<open>PMIx_Init\<close> has written.\<close>

definition own_proc :: "answer \<Rightarrow> proc" where
  "own_proc a = (case procs a of Some (p # ps) \<Rightarrow> p | _ \<Rightarrow> \<lparr>nspace = [], prank = 0\<rparr>)"

text \<open>
  The tests in the order of the program, each with its condition. \<open>refs\<close> are the numbers of the event
  handlers, \<open>st\<close> the state of the parsers.
\<close>

definition client_tests :: "pmix_consts \<Rightarrow> test_params \<Rightarrow> nat \<times> nat \<Rightarrow> parser \<Rightarrow> proc \<Rightarrow> (bool \<times> pmix_status prog) list" where
  "client_tests K q refs st me =
     [(fences q \<noteq> None, case fences q of None \<Rightarrow> Fault | Some f \<Rightarrow> test_fence K q f me st),
      (ClientArgv.test_job_fence q \<noteq> 0, test_job_fence K q me),
      (test_publish q \<noteq> 0, test_publish_lookup K me),
      (test_spawn q \<noteq> 0, client_test_spawn K),
      (test_connect q \<noteq> 0, test_connect_disconnect K me),
      (test_resolve_peers q \<noteq> 0, client_test_resolve_peers K q me),
      (test_error q \<noteq> 0, client_test_error K (fst refs) (snd refs) me),
      (key_replace q \<noteq> None, client_test_replace K (key_replace q) me),
      (test_internal q \<noteq> 0, client_test_internal K q me)]"

fun run_tests :: "(bool \<times> pmix_status prog) list \<Rightarrow> exit_code prog \<Rightarrow> exit_code prog" where
  "run_tests [] rest = rest"
| "run_tests ((wanted, t) # ts) rest =
     (if wanted then and_then t (\<lambda>rc. on_ok rc (Exit_status rc) (run_tests ts rest)) else run_tests ts rest)"

text \<open>\<open>PMIx_Get\<close> of what the server registered; a wrong type, a wrong value and NULL are failures.\<close>

definition get_info :: "proc \<Rightarrow> string \<Rightarrow> (pvalue \<Rightarrow> bool) \<Rightarrow> exit_code prog \<Rightarrow> exit_code prog" where
  "get_info p k good_value rest =
     Call (C_Get p (Some (Attribute k)) []) (\<lambda>a.
       on_ok (status a) (Exit_status (status a))
         (case found a of None \<Rightarrow> Return (Exit 1) | Some v \<Rightarrow> if good_value v then rest else Return (Exit 1)))"

definition is_u32 :: "pvalue \<Rightarrow> bool" where
  "is_u32 v = (case v of V_u32 n \<Rightarrow> True | _ \<Rightarrow> False)"

definition is_text :: "pvalue \<Rightarrow> bool" where
  "is_text v = (case v of V_string s \<Rightarrow> True | _ \<Rightarrow> False)"

definition client_finish :: "exit_code prog" where
  "client_finish =
     Call (C_Fence [] []) (\<lambda>_. Call C_Finalize (\<lambda>a. on_ok (status a) (Exit_status (status a)) (Return (Exit 0))))"

definition client_run :: "pmix_consts \<Rightarrow> test_params \<Rightarrow> nat \<times> nat \<Rightarrow> parser \<Rightarrow> proc \<Rightarrow> exit_code prog" where
  "client_run K q refs st me =
     (if prank me \<noteq> test_params.rank q then Return (Exit 1)
      else get_info \<lparr>nspace = nspace me, prank = rank_wildcard K\<rparr> ''PMIX_JOB_SIZE'' (\<lambda>v. v = V_u32 (word_of_int (ns_size q)))
        (get_info me ''PMIX_HOSTNAME'' is_text
        (get_info me ''PMIX_NODEID'' is_u32
          (if pnspace q \<noteq> None \<and> pnspace q \<noteq> Some (nspace me) then Return (Exit 1)
           else run_tests (client_tests K q refs st me) client_finish))))"

text \<open>\<open>cp\<close> and \<open>env\<close> are the copying of the names of SLURM and the environment, as in \<open>parse_cmd\<close>.\<close>

definition client_main ::
  "pmix_consts \<Rightarrow> (string \<Rightarrow> nat \<Rightarrow> string) \<Rightarrow> (string \<Rightarrow> string option) \<Rightarrow> string list \<Rightarrow> nat \<times> nat \<Rightarrow> parser \<Rightarrow> exit_code prog" where
  "client_main K cp env args refs st =
     (case parse_cmd K cp env args (INIT_TEST_PARAMS K) of
        None \<Rightarrow> Fault
      | Some (Inl c) \<Rightarrow> Return (Exit c)
      | Some (Inr q) \<Rightarrow>
          if early_fail q = 1 \<and> test_params.rank q = 0 then Return (Exit 1)
          else Call (C_Init (case gds_mode q of None \<Rightarrow> [] | Some m \<Rightarrow> [(Attribute ''PMIX_GDS_MODULE'', V_string (Some m))]))
                 (\<lambda>a. on_ok (status a) (Exit_status (status a)) (client_run K q refs st (own_proc a))))"

section \<open>What an exit code says\<close>

text \<open>A program that was run to a result, from some state on.\<close>

definition returned :: "('l \<Rightarrow> pmix_call \<Rightarrow> (answer \<times> 'l) option) \<Rightarrow> 'a prog \<Rightarrow> 'a \<Rightarrow> bool" where
  "returned lib p x \<longleftrightarrow> (\<exists>l l'. run_prog lib p l = Some (x, l'))"

lemma returned_on_ok:
  "run_prog lib (on_ok rc e rest) l = Some (Exit 0, l') \<Longrightarrow> e \<noteq> Exit 0 \<Longrightarrow> rc = PMIX_SUCCESS \<and> run_prog lib rest l = Some (Exit 0, l')"
  by (auto simp: on_ok_def split: if_splits)

lemma run_tests_passed:
  "run_prog lib (run_tests ts rest) l = Some (Exit 0, l') \<Longrightarrow>
    (\<forall>(wanted, t) \<in> set ts. wanted \<longrightarrow> returned lib t PMIX_SUCCESS) \<and> returned lib rest (Exit 0)"
proof (induction ts arbitrary: l)
  case (Cons x ts)
  obtain wanted t where x: "x = (wanted, t)" by (cases x)
  show ?case
  proof (cases wanted)
    case True
    then obtain rc l1 where t: "run_prog lib t l = Some (rc, l1)"
        "run_prog lib (on_ok rc (Exit_status rc) (run_tests ts rest)) l1 = Some (Exit 0, l')"
      using Cons.prems x by (auto simp: run_and_then split: option.splits)
    have r: "rc = PMIX_SUCCESS" "run_prog lib (run_tests ts rest) l1 = Some (Exit 0, l')"
      using returned_on_ok [OF t(2)] by simp_all
    then have "returned lib t PMIX_SUCCESS" unfolding returned_def using t(1) by blast
    then show ?thesis using Cons.IH [OF r(2)] x by simp
  next
    case False
    then show ?thesis using Cons x by auto
  qed
qed (auto simp: returned_def)

lemma get_info_passed:
  assumes "run_prog lib (get_info p k good_value rest) l = Some (Exit 0, l')"
  shows "(\<exists>l1 l2 a v. lib l1 (C_Get p (Some (Attribute k)) []) = Some (a, l2) \<and> status a = PMIX_SUCCESS \<and> found a = Some v \<and> good_value v)
    \<and> (\<exists>l1. run_prog lib rest l1 = Some (Exit 0, l'))"
proof -
  obtain a l1 where a: "lib l (C_Get p (Some (Attribute k)) []) = Some (a, l1)"
      "run_prog lib (on_ok (status a) (Exit_status (status a))
         (case found a of None \<Rightarrow> Return (Exit 1) | Some v \<Rightarrow> if good_value v then rest else Return (Exit 1))) l1 = Some (Exit 0, l')"
    using assms by (auto simp: get_info_def split: option.splits)
  then have ok: "status a = PMIX_SUCCESS"
      "run_prog lib (case found a of None \<Rightarrow> Return (Exit 1) | Some v \<Rightarrow> if good_value v then rest else Return (Exit 1)) l1 = Some (Exit 0, l')"
    using returned_on_ok [OF a(2)] by simp_all
  then obtain v where "found a = Some v" "good_value v" "run_prog lib rest l1 = Some (Exit 0, l')"
    by (auto split: option.splits if_splits)
  then show ?thesis using a(1) ok(1) by blast
qed

lemma tests_end:
  "run_prog lib (run_tests ts client_finish) l = Some (Exit 0, l') \<Longrightarrow>
    \<exists>l1 a. lib l1 C_Finalize = Some (a, l') \<and> status a = PMIX_SUCCESS"
proof (induction ts arbitrary: l)
  case Nil
  then show ?case
    by (auto simp: client_finish_def on_ok_def split: option.splits if_splits) blast
next
  case (Cons x ts)
  then show ?case
    by (cases x) (auto simp: run_and_then split: option.splits if_splits dest: returned_on_ok)
qed

section \<open>Properties\<close>


definition connect_args :: "string list" where
  "connect_args = [''-n'', ''2'', ''-r'', ''0'', ''--ns-size'', ''2'', ''--test-connect'']"

definition connect_params :: test_params where
  "connect_params = (INIT_TEST_PARAMS sample_consts)\<lparr>np := Some ''2'', nprocs := 2, test_params.rank := 0, ns_size := 2,
     test_connect := 1, binary := Some ''./pmix_client'', pnspace := Some ''smoky_nspace-0''\<rparr>"

definition agreeing_library :: "unit \<Rightarrow> pmix_call \<Rightarrow> (answer \<times> unit) option" where
  "agreeing_library l c =
     (let ok = reply PMIX_SUCCESS PMIX_SUCCESS []
      in case c of
           C_Init xs \<Rightarrow> Some (ok\<lparr>procs := Some [first_proc]\<rparr>, l)
         | C_Get p (Some (Attribute k)) xs \<Rightarrow>
             Some (ok\<lparr>found := Some (if k = ''PMIX_HOSTNAME'' then V_string (Some ''node1'') else V_u32 2)\<rparr>, l)
         | _ \<Rightarrow> Some (ok, l))"


end
