(* ===== verification/SimpleClients.thy ===== *)
theory SimpleClients
  imports ClientMain
begin

text \<open>
  The clients of the simple test server under src/simple: simpclient.c, simplegacy.c, simpdmodex.c,
  simptimeout.c, simpft.c and simpdie.c. Each is a sequence of calls with checks that end in
  messages; \<open>C_Report\<close> is the message of a check. Every \<open>goto done\<close> is the program \<open>done\<close>. The exit code
  of these clients says nothing of the checks.
\<close>

section \<open>What the clients share\<close>

definition wild :: "pmix_consts \<Rightarrow> proc \<Rightarrow> proc" where
  "wild K me = \<lparr>nspace = take (max_nslen K) (nspace me), prank = rank_wildcard K\<rparr>"

definition peer :: "pmix_consts \<Rightarrow> proc \<Rightarrow> pmix_rank_t \<Rightarrow> proc" where
  "peer K me n = (wild K me)\<lparr>prank := n\<rparr>"

text \<open>The keys \<open>%s-%d-...\<close> of a process.\<close>

definition rank_text :: "string \<Rightarrow> pmix_rank_t \<Rightarrow> string \<Rightarrow> string" where
  "rank_text space r s = space @ ''-'' @ decimal (sint r) @ ''-'' @ s"

definition report :: "string \<Rightarrow> 'a prog \<Rightarrow> 'a prog" where
  "report s rest = Call (C_Report s) (\<lambda>_. rest)"

definition or_done :: "string \<Rightarrow> answer \<Rightarrow> 'a prog \<Rightarrow> 'a prog \<Rightarrow> 'a prog" where
  "or_done s a done rest = (if status a \<noteq> PMIX_SUCCESS then report s done else rest)"

text \<open>Initialization: the exit code when it fails, and the rest for the own process.\<close>

definition init_or :: "infos \<Rightarrow> (pmix_status \<Rightarrow> exit_code) \<Rightarrow> (proc \<Rightarrow> exit_code prog) \<Rightarrow> exit_code prog" where
  "init_or xs code rest =
     Call (C_Init xs) (\<lambda>a. if status a \<noteq> PMIX_SUCCESS then Return (code (status a)) else rest (own_proc a))"

text \<open>
  A number of processes, \<open>val->data.uint32\<close>; reading it from NULL or from a value of another type is a
  fault.
\<close>

definition get_count :: "proc \<Rightarrow> string \<Rightarrow> 'a prog \<Rightarrow> (u32 \<Rightarrow> 'a prog) \<Rightarrow> 'a prog" where
  "get_count p k done rest =
     Call (C_Get p (Some (Attribute k)) []) (\<lambda>a.
       or_done k a done (case found a of Some (V_u32 n) \<Rightarrow> rest n | _ \<Rightarrow> Fault))"

definition all_ranks :: "u32 \<Rightarrow> pmix_rank_t list" where
  "all_ranks size_u = map of_nat [0..<unat size_u]"

text \<open>The two ends of a program: the exit code is the status of \<open>PMIx_Finalize\<close>, or 0.\<close>

definition finish_status :: "exit_code prog" where
  "finish_status =
     Call C_Finalize (\<lambda>a. Return (if status a \<noteq> PMIX_SUCCESS then Exit_status (status a) else Exit 0))"

definition finish_zero :: "exit_code prog" where
  "finish_zero = Call C_Finalize (\<lambda>a. Return (Exit 0))"

text \<open>\<open>PMIx_Put\<close>, \<open>PMIx_Commit\<close> and \<open>PMIx_Fence\<close> that must work.\<close>

definition attempt :: "pmix_call \<Rightarrow> string \<Rightarrow> 'a prog \<Rightarrow> 'a prog \<Rightarrow> 'a prog" where
  "attempt c s done rest = Call c (\<lambda>a. or_done s a done rest)"

section \<open>simpclient.c\<close>

definition model_info :: infos where
  "model_info =
     [(Attribute ''PMIX_PROGRAMMING_MODEL'', V_string (Some ''TEST'')), (Attribute ''PMIX_MODEL_LIBRARY_NAME'', V_string (Some ''PMIX''))]"

definition register_handlers :: "'a prog \<Rightarrow> 'a prog" where
  "register_handlers rest =
     Call (C_Register_event_handler [PMIX_MODEL_DECLARED] [(Attribute ''PMIX_EVENT_HDLR_NAME'', V_string (Some ''SIMPCLIENT-MODEL''))])
       (\<lambda>_. Call (C_Wait ''active'')
       (\<lambda>_. Call (C_Register_event_handler [] [])
       (\<lambda>_. Call (C_Wait ''active'') (\<lambda>_. rest))))"

definition simpclient_MAXCNT :: nat where
  "simpclient_MAXCNT = 1"

text \<open>The value with the scope \<open>PMIX_REMOTE\<close> of another process must not be found.\<close>

definition check_remote :: "proc \<Rightarrow> string \<Rightarrow> 'a prog \<Rightarrow> 'a prog" where
  "check_remote p key next =
     Call (C_Get p (Some (Key key)) []) (\<lambda>a.
       if status a \<noteq> PMIX_SUCCESS then report ''correct'' next
       else report ''remote data'' (if found a = None then Fault else next))"

text \<open>
  The loop over the ranks for one \<open>j\<close>: a NULL value ends it (\<open>break\<close>), everything else goes on with
  the next rank (\<open>continue\<close>).
\<close>

fun read_round :: "pmix_consts \<Rightarrow> proc \<Rightarrow> nat \<Rightarrow> pmix_rank_t list \<Rightarrow> 'a prog \<Rightarrow> 'a prog" where
  "read_round K me j [] rest = rest"
| "read_round K me j (n # rs) rest =
     Call (C_Get (peer K me n) (Some (Key (rank_text (nspace me) n (''local-'' @ decimal (int j))))) []) (\<lambda>a.
       if status a \<noteq> PMIX_SUCCESS then report ''Get failed'' (read_round K me j rs rest)
       else (case found a of
               None \<Rightarrow> report ''NULL value'' rest
             | Some (V_u64 x) \<Rightarrow>
                 if x \<noteq> 1234 then report ''wrong value'' (read_round K me j rs rest)
                 else report ''correct''
                   (if n \<noteq> prank me
                    then check_remote (peer K me n) (rank_text (nspace (peer K me n)) n (''remote-'' @ decimal (int j))) (read_round K me j rs rest)
                    else read_round K me j rs rest)
             | Some _ \<Rightarrow> report ''wrong type'' (read_round K me j rs rest)))"

definition simp_round :: "pmix_consts \<Rightarrow> proc \<Rightarrow> u32 \<Rightarrow> 'a prog \<Rightarrow> nat \<Rightarrow> 'a prog \<Rightarrow> 'a prog" where
  "simp_round K me size_u done cnt rest =
     attempt (C_Put PMIX_LOCAL (rank_text (nspace me) (prank me) (''local-'' @ decimal (int cnt))) (V_u64 1234)) ''Put'' done
       (attempt (C_Put PMIX_REMOTE (rank_text (nspace me) (prank me) (''remote-'' @ decimal (int cnt))) (V_string (Some ''1234''))) ''Put'' done
         (attempt C_Commit ''Commit'' done
           (attempt (C_Fence [wild K me] []) ''Fence'' done
             (foldr (\<lambda>j rest. read_round K me j (all_ranks size_u) rest) [0..<cnt + 1] rest))))"

text \<open>
  The data of the own process; an array of something else than \<open>PMIX_INFO\<close> gets a message of its own.
\<close>

definition simp_blob :: "proc \<Rightarrow> 'a prog \<Rightarrow> 'a prog" where
  "simp_blob me rest =
     Call (C_Get me None []) (\<lambda>a.
       if status a \<noteq> PMIX_SUCCESS then report ''modex blob failed'' rest
       else (case found a of
               None \<Rightarrow> Fault
             | Some (V_array n) \<Rightarrow> if n = 0 then report ''zero length'' rest else rest
             | Some _ \<Rightarrow> report ''no array'' rest))"

definition simp_log :: "'a prog \<Rightarrow> 'a prog" where
  "simp_log rest =
     Call (C_Log_nb [(Attribute ''PMIX_LOG_STDERR'', V_string (Some ''test log msg''))]) (\<lambda>a.
       if status a \<noteq> PMIX_SUCCESS then report ''log_nb'' rest else rest)"

definition simp_abort :: "proc \<Rightarrow> bool \<Rightarrow> 'a prog \<Rightarrow> 'a prog" where
  "simp_abort me doabort rest =
     (if \<not> doabort then rest
      else if prank me = 0 then Call (C_Abort PMIX_ERR_PROC_REQUESTED_ABORT ''CALLING ABORT'' []) (\<lambda>_. rest)
      else Call (C_Wait ''completed'') (\<lambda>_. rest))"

definition simpclient_values :: "pmix_consts \<Rightarrow> bool \<Rightarrow> proc \<Rightarrow> exit_code prog" where
  "simpclient_values K doabort me =
     get_count (wild K me) ''PMIX_UNIV_SIZE'' finish_status (\<lambda>size_u.
       attempt (C_Store_internal me (rank_text (nspace me) (prank me) ''internal'') (V_u32 1234)) ''Store_internal'' finish_status
         (foldr (simp_round K me size_u finish_status) [0..<simpclient_MAXCNT]
           (simp_blob me (simp_log (simp_abort me doabort finish_status)))))"

text \<open>\<open>PMIX_VALUE_RELEASE\<close> of NULL is a fault. \<open>args\<close> are the arguments without the name of the program.\<close>

definition simpclient_main :: "pmix_consts \<Rightarrow> string list \<Rightarrow> exit_code prog" where
  "simpclient_main K args =
     init_or model_info Exit_status (\<lambda>me.
       Call (C_Get (wild K me) (Some (Attribute ''PMIX_JOB_SIZE'')) []) (\<lambda>a.
         if status a \<noteq> PMIX_SUCCESS then Return (Exit_status (status a))
         else if found a = None then Fault
         else register_handlers (simpclient_values K (args \<noteq> [] \<and> hd args = ''-abort'') me)))"

section \<open>simplegacy.c\<close>

definition simplegacy_MAXCNT :: nat where
  "simplegacy_MAXCNT = 3"

definition legacy_key :: "proc \<Rightarrow> pmix_rank_t \<Rightarrow> nat \<Rightarrow> nat \<Rightarrow> string" where
  "legacy_key me n cnt j = rank_text (nspace me) n (''gasnet-'' @ decimal (int cnt) @ ''-'' @ decimal (int j))"

text \<open>The gets ask for the rank \<open>PMIX_RANK_UNDEF\<close>.\<close>

fun legacy_reads :: "pmix_consts \<Rightarrow> proc \<Rightarrow> nat \<Rightarrow> nat \<Rightarrow> pmix_rank_t list \<Rightarrow> 'a prog \<Rightarrow> 'a prog" where
  "legacy_reads K me cnt j [] rest = rest"
| "legacy_reads K me cnt j (n # rs) rest =
     Call (C_Get (peer K me (rank_undef K)) (Some (Key (legacy_key me n cnt j))) []) (\<lambda>a.
       if status a \<noteq> PMIX_SUCCESS then report ''Get failed'' (legacy_reads K me cnt j rs rest)
       else (case found a of
               None \<Rightarrow> report ''NULL value'' rest
             | Some (V_u64 x) \<Rightarrow>
                 report (if x \<noteq> 1234 then ''wrong value'' else ''correct'') (legacy_reads K me cnt j rs rest)
             | Some _ \<Rightarrow> report ''wrong type'' (legacy_reads K me cnt j rs rest)))"

definition legacy_round :: "pmix_consts \<Rightarrow> proc \<Rightarrow> u32 \<Rightarrow> 'a prog \<Rightarrow> nat \<Rightarrow> 'a prog \<Rightarrow> 'a prog" where
  "legacy_round K me size_u done cnt rest =
     foldr (\<lambda>j. attempt (C_Put PMIX_GLOBAL (legacy_key me (prank me) cnt j) (V_u64 1234)) ''Put'' done) [0..<10]
       (attempt C_Commit ''Commit'' done
         (attempt (C_Fence [] [(Attribute ''PMIX_COLLECT_DATA'', V_undef)]) ''Fence'' done
           (foldr (\<lambda>j. legacy_reads K me cnt j (all_ranks size_u)) [0..<10] rest)))"

definition simplegacy_main :: "pmix_consts \<Rightarrow> exit_code prog" where
  "simplegacy_main K =
     init_or model_info Exit_status (\<lambda>me.
       Call (C_Get (wild K me) (Some (Attribute ''PMIX_JOB_SIZE'')) []) (\<lambda>a.
         if status a \<noteq> PMIX_SUCCESS then Return (Exit_status (status a))
         else (case found a of
                 Some (V_u32 size_u) \<Rightarrow>
                   register_handlers (foldr (legacy_round K me size_u finish_status) [0..<simplegacy_MAXCNT] finish_status)
               | _ \<Rightarrow> Fault)))"

section \<open>simpdmodex.c\<close>

fun strstr :: "string \<Rightarrow> string \<Rightarrow> bool" where
  "strstr [] sub = (sub = [])"
| "strstr (c # s) sub = (take (length sub) (c # s) = sub \<or> strstr s sub)"

text \<open>The message of the callback of a get; \<open>None\<close> for a fault.\<close>

definition valcbfunc :: "string \<Rightarrow> answer \<Rightarrow> string option" where
  "valcbfunc key a =
     (if reported a \<noteq> PMIX_SUCCESS then Some ''failed''
      else if strstr key ''local'' then
        (case found a of None \<Rightarrow> None | Some (V_u64 x) \<Rightarrow> Some (if x \<noteq> 1234 then ''wrong value'' else ''correctly'')
         | Some _ \<Rightarrow> Some ''wrong type'')
      else if strstr key ''remote'' then
        (case found a of None \<Rightarrow> None | Some (V_string None) \<Rightarrow> None
         | Some (V_string (Some s)) \<Rightarrow> Some (if s \<noteq> ''1234'' then ''wrong value'' else ''correctly'')
         | Some _ \<Rightarrow> Some ''wrong type'')
      else Some ''wrong key'')"

definition dmodex_gets :: "pmix_consts \<Rightarrow> proc \<Rightarrow> u32 \<Rightarrow> (proc \<times> string) list" where
  "dmodex_gets K me size_u =
     concat (map (\<lambda>n. [(peer K me n, rank_text (nspace me) n ''local''), (peer K me n, rank_text (nspace me) n ''remote'')])
       (all_ranks size_u))"

text \<open>
  The loop that waits until \<open>getcount\<close> has reached the number of requests: a callback for each, taken in
  the order of the requests.
\<close>

fun wait_gets :: "(proc \<times> string) list \<Rightarrow> 'a prog \<Rightarrow> 'a prog" where
  "wait_gets [] rest = rest"
| "wait_gets ((p, key) # gs) rest =
     Call (C_Wait key) (\<lambda>a. case valcbfunc key a of None \<Rightarrow> Fault | Some s \<Rightarrow> report s (wait_gets gs rest))"

definition simpdmodex_values :: "pmix_consts \<Rightarrow> bool \<Rightarrow> proc \<Rightarrow> u32 \<Rightarrow> exit_code prog" where
  "simpdmodex_values K dofence me size_u =
     (let gets = dmodex_gets K me size_u; key = rank_text (nspace me) (prank me)
      in attempt (C_Store_internal me (key ''internal'') (V_u32 1234)) ''Store_internal'' finish_zero
        (attempt (C_Put PMIX_LOCAL (key ''local'') (V_u64 1234)) ''Put'' finish_zero
        (attempt (C_Put PMIX_REMOTE (key ''remote'') (V_string (Some ''1234''))) ''Put'' finish_zero
        (attempt C_Commit ''Commit'' finish_zero
        ((if dofence then attempt (C_Request_fence [wild K me]) ''Fence'' finish_zero else (\<lambda>rest. rest))
        (foldr (\<lambda>(p, key). attempt (C_Request_get p key) ''Get'' finish_zero) gets
        ((if dofence then (\<lambda>rest. Call (C_Wait ''active'') (\<lambda>_. rest)) else (\<lambda>rest. rest))
        (wait_gets gets
        (attempt (C_Fence [wild K me] []) ''Fence'' finish_zero finish_zero)))))))))"

text \<open>\<open>async\<close>: whether \<open>PMIX_SIMPDMODEX_ASYNC\<close> is in the environment.\<close>

definition simpdmodex_main :: "pmix_consts \<Rightarrow> bool \<Rightarrow> exit_code prog" where
  "simpdmodex_main K async =
     init_or [] (\<lambda>_. Exit 0) (\<lambda>me.
       get_count (wild K me) ''PMIX_UNIV_SIZE'' finish_zero (simpdmodex_values K (\<not> async) me))"

section \<open>simptimeout.c\<close>

text \<open>
  The fence and the connection of rank 0 alone must time out; the condition on the last get is the
  other way round in the code.
\<close>

definition simptimeout_rank0 :: "pmix_consts \<Rightarrow> proc \<Rightarrow> exit_code prog" where
  "simptimeout_rank0 K me =
     (let limit = [(Attribute ''PMIX_TIMEOUT'', V_u32 1)]
      in Call (C_Fence [wild K me] limit) (\<lambda>a.
           if status a \<noteq> PMIX_ERR_TIMEOUT then report ''Fence did not timeout'' finish_status
           else report ''FENCE TIMEOUT SUCCEEDED'' (Call (C_Connect [wild K me] limit) (\<lambda>a.
             if status a \<noteq> PMIX_ERR_TIMEOUT then report ''Connect did not timeout'' finish_status
             else report ''CONNECT TIMEOUT SUCCEEDED'' (Call (C_Get (peer K me 1) (Some (Key ''1234'')) limit) (\<lambda>a.
               if status a = PMIX_ERR_TIMEOUT then report ''Get did not timeout'' finish_status
               else report ''GET TIMEOUT SUCCEEDED'' finish_status))))))"

definition simptimeout_main :: "pmix_consts \<Rightarrow> exit_code prog" where
  "simptimeout_main K =
     init_or [] Exit_status (\<lambda>me.
       Call (C_Get (wild K me) (Some (Attribute ''PMIX_JOB_SIZE'')) []) (\<lambda>a.
         if status a \<noteq> PMIX_SUCCESS then Return (Exit_status (status a))
         else if found a = None then Fault
         else Call (C_Register_event_handler [] []) (\<lambda>_. Call (C_Wait ''active'') (\<lambda>_.
           get_count (wild K me) ''PMIX_UNIV_SIZE'' finish_status (\<lambda>_.
             if prank me = 0 then simptimeout_rank0 K me else finish_status)))))"

section \<open>simpft.c and simpdie.c\<close>

text \<open>Both start alike, and deregister the handler number 1 at the end.\<close>

definition deregister_finish :: "exit_code prog" where
  "deregister_finish = Call (C_Deregister_event_handler 1) (\<lambda>_. finish_zero)"

definition start_and_fence :: "pmix_consts \<Rightarrow> (proc \<Rightarrow> u32 \<Rightarrow> exit_code prog) \<Rightarrow> exit_code prog" where
  "start_and_fence K rest =
     init_or [] (\<lambda>_. Exit 0) (\<lambda>me.
       get_count (wild K me) ''PMIX_UNIV_SIZE'' deregister_finish (\<lambda>size_u.
         Call (C_Register_event_handler [] []) (\<lambda>_.
           attempt (C_Fence [wild K me] []) ''Fence'' deregister_finish (rest me size_u))))"

definition simpft_main :: "pmix_consts \<Rightarrow> exit_code prog" where
  "simpft_main K =
     start_and_fence K (\<lambda>me size_u.
       Call (if prank me = 0 then C_Abort PMIX_ERR_OUT_OF_RESOURCE ''Eat rocks'' [wild K me] else C_Wait ''completed'')
         (\<lambda>_. deregister_finish))"

definition simpdie_main :: "pmix_consts \<Rightarrow> exit_code prog" where
  "simpdie_main K =
     start_and_fence K (\<lambda>me size_u.
       if prank me = 0 \<or> 4 < size_u \<and> prank me = 1 then Return (Exit 1)
       else Call (C_Wait ''completed'') (\<lambda>_. deregister_finish))"

section \<open>What the exit code says\<close>

text \<open>Every run of the program on answers that satisfy \<open>ok\<close> returns 0.\<close>

primrec ends_zero :: "(pmix_call \<Rightarrow> answer \<Rightarrow> bool) \<Rightarrow> exit_code prog \<Rightarrow> bool" where
  "ends_zero ok (Return x) = (x = Exit 0)"
| "ends_zero ok Fault = True"
| "ends_zero ok (Call c k) = (\<forall>a. ok c a \<longrightarrow> ends_zero ok (k a))"

lemma ends_zero_run:
  "ends_zero ok p \<Longrightarrow> \<forall>l c a l'. lib l c = Some (a, l') \<longrightarrow> ok c a \<Longrightarrow> run_prog lib p l = Some (x, l') \<Longrightarrow> x = Exit 0"
  by (induction p arbitrary: l) (fastforce split: option.splits)+

named_theorems ends_zero_intros

lemma ends_zero_report [ends_zero_intros]: "ends_zero ok rest \<Longrightarrow> ends_zero ok (report s rest)"
  by (simp add: report_def)

lemma ends_zero_attempt [ends_zero_intros]:
  "ends_zero ok done \<Longrightarrow> ends_zero ok rest \<Longrightarrow> ends_zero ok (attempt c s done rest)"
  by (simp add: attempt_def or_done_def report_def)

lemma ends_zero_call [ends_zero_intros]: "(\<And>a. ends_zero ok (k a)) \<Longrightarrow> ends_zero ok (Call c k)"
  by simp

lemma ends_zero_count [ends_zero_intros]:
  "ends_zero ok done \<Longrightarrow> (\<And>n. ends_zero ok (rest n)) \<Longrightarrow> ends_zero ok (get_count p k done rest)"
  by (auto simp: get_count_def or_done_def report_def split: option.split pvalue.split)

lemma ends_zero_foldr [ends_zero_intros]:
  "(\<And>x rest. ends_zero ok rest \<Longrightarrow> ends_zero ok (f x rest)) \<Longrightarrow> ends_zero ok rest \<Longrightarrow> ends_zero ok (foldr f xs rest)"
  by (induction xs) auto

lemma ends_zero_cases [ends_zero_intros]:
  "ends_zero ok p \<Longrightarrow> ends_zero ok q \<Longrightarrow> ends_zero ok (if b then p else q)"
  "ends_zero ok p \<Longrightarrow> ends_zero ok q \<Longrightarrow> ends_zero ok (if b then Fault else q)"
  "(\<And>v. ends_zero ok (f v)) \<Longrightarrow> ends_zero ok p \<Longrightarrow> ends_zero ok (case v of None \<Rightarrow> p | Some v \<Rightarrow> f v)"
  by (auto split: option.split)

text \<open>The calls whose status does count.\<close>

definition exchange_works :: "pmix_call \<Rightarrow> answer \<Rightarrow> bool" where
  "exchange_works c a \<longleftrightarrow>
     (case c of C_Init _ \<Rightarrow> status a = PMIX_SUCCESS | C_Finalize \<Rightarrow> status a = PMIX_SUCCESS
      | C_Get _ (Some (Attribute k)) xs \<Rightarrow> k = ''PMIX_JOB_SIZE'' \<and> xs = [] \<longrightarrow> status a = PMIX_SUCCESS
      | _ \<Rightarrow> True)"

lemma ends_zero_finish [ends_zero_intros]: "ends_zero exchange_works finish_status" "ends_zero ok finish_zero"
  by (simp_all add: finish_status_def finish_zero_def exchange_works_def)

lemma ends_zero_init [ends_zero_intros]: "(\<And>me. ends_zero exchange_works (rest me)) \<Longrightarrow> ends_zero exchange_works (init_or xs code rest)"
  by (simp add: init_or_def exchange_works_def)

lemma ends_zero_read_round [ends_zero_intros]: "ends_zero ok rest \<Longrightarrow> ends_zero ok (read_round K me j rs rest)"
  by (induction rs) (auto simp: report_def check_remote_def split: option.split pvalue.split)

lemma ends_zero_legacy_reads [ends_zero_intros]: "ends_zero ok rest \<Longrightarrow> ends_zero ok (legacy_reads K me cnt j rs rest)"
  by (induction rs) (auto simp: report_def split: option.split pvalue.split)

lemma ends_zero_wait_gets [ends_zero_intros]: "ends_zero ok rest \<Longrightarrow> ends_zero ok (wait_gets gs rest)"
  by (induction gs) (auto simp: report_def split: option.split)

lemma simpclient_zero: "ends_zero exchange_works (simpclient_main K args)"
  unfolding simpclient_main_def register_handlers_def simpclient_values_def simp_round_def simp_blob_def simp_log_def simp_abort_def
  by (intro ends_zero_init) (auto simp: exchange_works_def intro!: ends_zero_intros split: option.split pvalue.split)

lemma simplegacy_zero: "ends_zero exchange_works (simplegacy_main K)"
  unfolding simplegacy_main_def register_handlers_def legacy_round_def
  by (intro ends_zero_init) (auto simp: exchange_works_def intro!: ends_zero_intros split: option.split pvalue.split)

lemma simpdmodex_zero: "ends_zero exchange_works (simpdmodex_main K async)"
  unfolding simpdmodex_main_def simpdmodex_values_def Let_def
  by (auto intro!: ends_zero_intros)

lemma simptimeout_zero: "ends_zero exchange_works (simptimeout_main K)"
  unfolding simptimeout_main_def simptimeout_rank0_def Let_def
  by (intro ends_zero_init) (auto simp: exchange_works_def intro!: ends_zero_intros)

lemma simpft_zero: "ends_zero exchange_works (simpft_main K)"
  unfolding simpft_main_def start_and_fence_def deregister_finish_def
  by (auto intro!: ends_zero_intros)

text \<open>
  C32: the exit code of the simple clients does not depend on their checks. Once initialization and the
  get of the size of the job have worked, every run whose \<open>PMIx_Finalize\<close> works returns 0, whatever
  the library answers to all other calls: wrong values, missing data and failed fences included.
\<close>

theorem checks_do_not_count:
  assumes "\<forall>l c a l'. lib l c = Some (a, l') \<longrightarrow>
      c \<in> {C_Finalize} \<union> range C_Init \<union> {C_Get p (Some (Attribute ''PMIX_JOB_SIZE'')) [] | p. True} \<longrightarrow> status a = PMIX_SUCCESS"
    and "p \<in> {simpclient_main K args, simplegacy_main K, simpdmodex_main K async, simptimeout_main K, simpft_main K}"
    and "run_prog lib p l = Some (x, l')"
  shows "x = Exit 0"
proof (rule ends_zero_run [OF _ _ assms(3)])
  show "ends_zero exchange_works p"
    using assms(2) simpclient_zero simplegacy_zero simpdmodex_zero simptimeout_zero simpft_zero by auto
  show "\<forall>l c a l'. lib l c = Some (a, l') \<longrightarrow> exchange_works c a"
    using assms(1) by (auto simp: exchange_works_def split: pmix_call.split option.split pkey.split)
qed

text \<open>A library that gives every process a wrong value, and records the messages of the program.\<close>

definition wrong_library :: "string list \<Rightarrow> pmix_call \<Rightarrow> (answer \<times> string list) option" where
  "wrong_library l c =
     (let ok = reply PMIX_SUCCESS PMIX_SUCCESS []
      in case c of
           C_Init xs \<Rightarrow> Some (ok\<lparr>procs := Some [first_proc]\<rparr>, l)
         | C_Get p (Some (Attribute k)) xs \<Rightarrow> Some (ok\<lparr>found := Some (V_u32 1)\<rparr>, l)
         | C_Get p (Some (Key k)) xs \<Rightarrow> Some (ok\<lparr>found := Some (V_u64 99)\<rparr>, l)
         | C_Get p None xs \<Rightarrow> Some (ok\<lparr>found := Some (V_array 1)\<rparr>, l)
         | C_Report s \<Rightarrow> Some (ok, l @ [s])
         | _ \<Rightarrow> Some (ok, l))"

theorem checks_do_not_count_witness:
  "map_option snd (run_prog wrong_library (simpclient_main sample_consts []) []) = Some [''wrong value'']
   \<and> map_option fst (run_prog wrong_library (simpclient_main sample_consts []) []) = Some (Exit 0)"
proof -
  have "map_option snd (run_prog wrong_library (simpclient_main sample_consts []) []) = Some [''wrong value'']"
    by code_simp
  moreover from this obtain x l' where run: "run_prog wrong_library (simpclient_main sample_consts []) [] = Some (x, l')" by auto
  have "x = Exit 0"
    by (rule checks_do_not_count [where K = sample_consts and args = "[]" and async = False, OF _ _ run])
       (auto simp: wrong_library_def reply_def)
  ultimately show ?thesis using run by simp
qed

end
