(* ===== verification/SimplePrograms.thy ===== *)
theory SimplePrograms
  imports SimpleClients SimpServer
begin

text \<open>
  The other programs over the client library: simppub.c, simpdyn.c, simptool.c and xnspace.c of src/simple,
  dmodex.c, hello.c and the cycle programs of src/prrte. simppub and simptool are composed
  with the functions of the simple test server.
\<close>

section \<open>simppub.c\<close>

text \<open>
  \<open>PMIx_Lookup\<close> writes the first element of \<open>pdata\<close>; without data it stays as \<open>PMIX_PDATA_CREATE\<close> left it.
\<close>

definition first_pdata :: "answer \<Rightarrow> proc \<times> pvalue" where
  "first_pdata a = (case pdata a of [] \<Rightarrow> (\<lparr>nspace = [], prank = 0\<rparr>, V_undef) | (k, p, v) # ds \<Rightarrow> (p, v))"

definition simppub_lookup :: "pmix_consts \<Rightarrow> proc \<Rightarrow> exit_code prog \<Rightarrow> exit_code prog" where
  "simppub_lookup K me rest =
     Call (C_Lookup [''FOOBAR'']) (\<lambda>a. or_done ''PMIx_Lookup failed'' a finish_zero
       (case first_pdata a of (p, v) \<Rightarrow>
          if take (max_nslen K) (nspace me) \<noteq> take (max_nslen K) (nspace p) then report ''wrong nspace'' finish_zero
          else if prank p \<noteq> 0 then report ''wrong rank'' finish_zero
          else (case v of
                  V_u8 x \<Rightarrow> if x \<noteq> 1 then report ''wrong value'' finish_zero else report ''PUBLISH-LOOKUP SUCCEEDED'' rest
                | _ \<Rightarrow> report ''wrong type'' finish_zero)))"

definition simppub_run :: "pmix_consts \<Rightarrow> proc \<Rightarrow> exit_code prog" where
  "simppub_run K me =
     (let fence = attempt (C_Fence [wild K me] []) ''Fence'' finish_zero
      in fence
        ((if prank me = 0
          then attempt (C_Publish [(Key ''FOOBAR'', V_u8 1), (Key ''PANDA'', V_size 123456)]) ''Publish'' finish_zero
          else (\<lambda>rest. rest))
        (fence
        ((if prank me \<noteq> 0 then simppub_lookup K me else (\<lambda>rest. rest))
        (fence
        ((if prank me = 0
          then (\<lambda>rest. attempt (C_Unpublish [''FOOBAR'', ''PANDA'']) ''Unpublish'' finish_zero (report ''UNPUBLISH SUCCEEDED'' rest))
          else (\<lambda>rest. rest))
        (fence finish_zero)))))))"

definition simppub_main :: "pmix_consts \<Rightarrow> exit_code prog" where
  "simppub_main K =
     init_or [] (\<lambda>_. Exit 0) (\<lambda>me. get_count (wild K me) ''PMIX_UNIV_SIZE'' finish_zero (\<lambda>_. simppub_run K me))"

section \<open>prrte/dmodex/dmodex.c\<close>

text \<open>
  What is done when the data is asked for: \<open>PMIX_TIMEOUT\<close> is 240 seconds. The texts of 1024 bytes are
  longer than any name.
\<close>

definition dmodex_get :: "proc \<Rightarrow> string \<Rightarrow> exit_code prog \<Rightarrow> (pvalue \<Rightarrow> exit_code prog) \<Rightarrow> exit_code prog" where
  "dmodex_get p key done rest =
     Call (C_Get p (Some (Key key)) [(Attribute ''PMIX_TIMEOUT'', V_int 240)]) (\<lambda>a.
       or_done ''PMIx_Get failed'' a done (case found a of None \<Rightarrow> Fault | Some v \<Rightarrow> rest v))"

definition dmodex_done :: "exit_code prog" where
  "dmodex_done =
     Call (C_Fence [] []) (\<lambda>a. if status a \<noteq> PMIX_SUCCESS then Return (Exit 1) else finish_zero)"

definition get_local :: "proc \<Rightarrow> exit_code prog \<Rightarrow> exit_code prog" where
  "get_local p rest =
     dmodex_get p (rank_text (nspace p) (prank p) ''local'') dmodex_done (\<lambda>v.
       case v of V_u64 x \<Rightarrow> if x \<noteq> 1234 then report ''wrong value'' dmodex_done else rest
               | _ \<Rightarrow> report ''wrong type'' dmodex_done)"

definition get_remote :: "proc \<Rightarrow> exit_code prog \<Rightarrow> exit_code prog" where
  "get_remote p rest =
     dmodex_get p (rank_text (nspace p) (prank p) ''remote'') dmodex_done (\<lambda>v.
       case v of V_string None \<Rightarrow> Fault
               | V_string (Some s) \<Rightarrow> if s \<noteq> ''1234'' then report ''wrong value'' dmodex_done else rest
               | _ \<Rightarrow> report ''wrong type'' dmodex_done)"

definition get_ghex :: "proc \<Rightarrow> exit_code prog \<Rightarrow> exit_code prog" where
  "get_ghex p rest =
     dmodex_get p ''ghex'' dmodex_done (\<lambda>v.
       case v of V_bytes bs \<Rightarrow> if length bs \<noteq> 128 then report ''wrong size'' dmodex_done else rest
               | _ \<Rightarrow> report ''wrong type'' dmodex_done)"

text \<open>\<open>locals\<close> are the ranks of the local peers, \<open>None\<close> when all processes are local.\<close>

definition is_local_rank :: "proc \<Rightarrow> pmix_rank_t list option \<Rightarrow> pmix_rank_t \<Rightarrow> bool" where
  "is_local_rank me locals n = (n = prank me \<or> (case locals of None \<Rightarrow> True | Some rs \<Rightarrow> n \<in> set rs))"

fun dmodex_reads :: "pmix_consts \<Rightarrow> proc \<Rightarrow> pmix_rank_t list option \<Rightarrow> pmix_rank_t list \<Rightarrow> exit_code prog" where
  "dmodex_reads K me locals [] = dmodex_done"
| "dmodex_reads K me locals (n # rs) =
     (let p = peer K me n; rest = dmodex_reads K me locals rs
      in (if is_local_rank me locals n then get_local p else get_remote p)
           (if n \<noteq> prank me then get_ghex p rest else rest))"

text \<open>
  \<open>split\<close> is \<open>PMIX_ARGV_SPLIT\<close> of the library; its array is NULL when there are no tokens, and is
  read all the same unless there are no processes.
\<close>

definition dmodex_values :: "pmix_consts \<Rightarrow> (char \<Rightarrow> string \<Rightarrow> string list) \<Rightarrow> proc \<Rightarrow> u32 \<Rightarrow> exit_code prog" where
  "dmodex_values K split me size_u =
     (let key = rank_text (nspace me) (prank me)
      in attempt (C_Store_internal me (key ''internal'') (V_u32 1234)) ''Store_internal'' dmodex_done
        (attempt (C_Put PMIX_LOCAL (key ''local'') (V_u64 1234)) ''Put'' dmodex_done
        (attempt (C_Put PMIX_GLOBAL (key ''remote'') (V_string (Some ''1234''))) ''Put'' dmodex_done
        (attempt (C_Put PMIX_GLOBAL ''ghex'' (V_bytes (map char_of [0..<128 :: nat]))) ''Put'' dmodex_done
        (attempt C_Commit ''Commit'' dmodex_done
        (Call (C_Get (wild K me) (Some (Attribute ''PMIX_LOCAL_PEERS'')) []) (\<lambda>a.
           or_done ''local peers'' a dmodex_done
             (case found a of
                Some (V_string (Some s)) \<Rightarrow>
                  (let peers = split CHR '','' s
                   in if peers = [] \<and> size_u \<noteq> 0 then Fault
                      else dmodex_reads K me
                        (if unat size_u = length peers then None else Some (map (\<lambda>t. word_of_int (strtoul t)) peers))
                        (all_ranks size_u))
              | _ \<Rightarrow> Fault))))))))"

definition dmodex_main :: "pmix_consts \<Rightarrow> (char \<Rightarrow> string \<Rightarrow> string list) \<Rightarrow> exit_code prog" where
  "dmodex_main K split =
     init_or [] (\<lambda>_. Exit 0) (\<lambda>me. get_count (wild K me) ''PMIX_JOB_SIZE'' dmodex_done (dmodex_values K split me))"

section \<open>What dmodex reads\<close>

text \<open>The messages of a run.\<close>

primrec says :: "('l \<Rightarrow> pmix_call \<Rightarrow> (answer \<times> 'l) option) \<Rightarrow> 'a prog \<Rightarrow> 'l \<Rightarrow> string list" where
  "says lib (Return x) l = []"
| "says lib Fault l = []"
| "says lib (Call c k) l =
     (case lib l c of
        None \<Rightarrow> []
      | Some (a, l') \<Rightarrow> (case c of C_Report s \<Rightarrow> [s] | _ \<Rightarrow> []) @ says lib (k a) l')"

text \<open>A library that answers every call, always the same.\<close>

definition pure_library :: "(pmix_call \<Rightarrow> answer) \<Rightarrow> unit \<Rightarrow> pmix_call \<Rightarrow> (answer \<times> unit) option" where
  "pure_library f l c = Some (f c, l)"

definition verdict :: "(pmix_call \<Rightarrow> answer) \<Rightarrow> 'a prog \<Rightarrow> ('a \<times> unit) option \<times> string list" where
  "verdict f p = (run_prog (pure_library f) p (), says (pure_library f) p ())"

lemma verdict_simps [simp]:
  "verdict f (Return x) = (Some (x, ()), [])"
  "verdict f (report s p) = map_prod id ((#) s) (verdict f p)"
  by (simp_all add: verdict_def report_def pure_library_def)

lemma verdict_call: "\<forall>s. c \<noteq> C_Report s \<Longrightarrow> verdict f (Call c k) = verdict f (k (f c))"
  by (cases c) (simp_all add: verdict_def pure_library_def)

text \<open>The library answers a get of dmodex with the value.\<close>

definition served :: "(pmix_call \<Rightarrow> answer) \<Rightarrow> proc \<Rightarrow> string \<Rightarrow> pvalue \<Rightarrow> bool" where
  "served f p key v \<longleftrightarrow>
     (let a = f (C_Get p (Some (Key key)) [(Attribute ''PMIX_TIMEOUT'', V_int 240)])
      in status a = PMIX_SUCCESS \<and> found a = Some v)"

definition served_well :: "(pmix_call \<Rightarrow> answer) \<Rightarrow> proc \<Rightarrow> proc \<Rightarrow> bool \<Rightarrow> bool" where
  "served_well f me p is_local \<longleftrightarrow>
     (if is_local then served f p (rank_text (nspace p) (prank p) ''local'') (V_u64 1234)
      else served f p (rank_text (nspace p) (prank p) ''remote'') (V_string (Some ''1234'')))
     \<and> (prank p \<noteq> prank me \<longrightarrow> (\<exists>bs. served f p ''ghex'' (V_bytes bs) \<and> length bs = 128))"

text \<open>A value comes with every success, and a string is not NULL.\<close>

definition gives_values :: "(pmix_call \<Rightarrow> answer) \<Rightarrow> bool" where
  "gives_values f \<longleftrightarrow> (\<forall>c. status (f c) = PMIX_SUCCESS \<longrightarrow> found (f c) \<noteq> None) \<and> (\<forall>c. found (f c) \<noteq> Some (V_string None))"

lemma verdict_dmodex_done:
  "status (f (C_Fence [] [])) = PMIX_SUCCESS \<Longrightarrow> verdict f dmodex_done = (Some (Exit 0, ()), [])"
  by (simp add: dmodex_done_def finish_zero_def verdict_call)

definition silent_zero :: "(exit_code \<times> unit) option \<times> string list \<Rightarrow> bool \<Rightarrow> bool" where
  "silent_zero r calm \<longleftrightarrow> fst r = Some (Exit 0, ()) \<and> (snd r = [] \<longleftrightarrow> calm)"

lemma verdict_dmodex_get:
  assumes "gives_values f" "status (f (C_Fence [] [])) = PMIX_SUCCESS"
    "\<And>v. v \<noteq> V_string None \<Longrightarrow> silent_zero (verdict f (rest v)) (good_value v)"
  shows "silent_zero (verdict f (dmodex_get p key dmodex_done rest)) (\<exists>v. served f p key v \<and> good_value v)"
proof -
  let ?a = "f (C_Get p (Some (Key key)) [(Attribute ''PMIX_TIMEOUT'', V_int 240)])"
  show ?thesis
  proof (cases "status ?a = PMIX_SUCCESS")
    case True
    then obtain v where v: "found ?a = Some v" "v \<noteq> V_string None" using assms(1) unfolding gives_values_def by fastforce
    then show ?thesis using True assms(3) [OF v(2)] by (simp add: dmodex_get_def verdict_call or_done_def served_def)
  next
    case False
    then show ?thesis
      by (simp add: dmodex_get_def verdict_call or_done_def served_def verdict_dmodex_done assms(2) silent_zero_def)
  qed
qed

lemma verdict_ghex:
  assumes "gives_values f" "status (f (C_Fence [] [])) = PMIX_SUCCESS" "silent_zero (verdict f rest) calm"
  shows "silent_zero (verdict f (get_ghex p rest)) ((\<exists>bs. served f p ''ghex'' (V_bytes bs) \<and> length bs = 128) \<and> calm)"
proof -
  have "silent_zero (verdict f (get_ghex p rest))
      (\<exists>v. served f p ''ghex'' v \<and> (case v of V_bytes bs \<Rightarrow> length bs = 128 \<and> calm | _ \<Rightarrow> False))"
    unfolding get_ghex_def
    by (rule verdict_dmodex_get [OF assms(1,2)])
       (use assms(3) in \<open>auto simp: silent_zero_def verdict_dmodex_done assms(2) split: pvalue.split\<close>)
  also have "(\<exists>v. served f p ''ghex'' v \<and> (case v of V_bytes bs \<Rightarrow> length bs = 128 \<and> calm | _ \<Rightarrow> False)) \<longleftrightarrow>
      (\<exists>bs. served f p ''ghex'' (V_bytes bs) \<and> length bs = 128) \<and> calm"
  proof -
    have "(case v of V_bytes bs \<Rightarrow> length bs = 128 \<and> calm | _ \<Rightarrow> False) \<longleftrightarrow> (\<exists>bs. v = V_bytes bs \<and> length bs = 128 \<and> calm)" for v
      by (cases v) auto
    then show ?thesis by auto
  qed
  finally show ?thesis .
qed

lemma verdict_scoped:
  assumes "gives_values f" "status (f (C_Fence [] [])) = PMIX_SUCCESS" "silent_zero (verdict f rest) calm"
  shows "silent_zero (verdict f ((if is_local then get_local p else get_remote p) rest))
    ((if is_local then served f p (rank_text (nspace p) (prank p) ''local'') (V_u64 1234)
      else served f p (rank_text (nspace p) (prank p) ''remote'') (V_string (Some ''1234''))) \<and> calm)"
proof -
  let ?loc = "\<lambda>v. case v of V_u64 x \<Rightarrow> x = 1234 \<and> calm | _ \<Rightarrow> False"
  let ?rem = "\<lambda>v. case v of V_string (Some s) \<Rightarrow> s = ''1234'' \<and> calm | _ \<Rightarrow> False"
  have "silent_zero (verdict f (get_local p rest)) (\<exists>v. served f p (rank_text (nspace p) (prank p) ''local'') v \<and> ?loc v)"
    unfolding get_local_def
    by (rule verdict_dmodex_get [OF assms(1,2)])
       (use assms(3) in \<open>auto simp: silent_zero_def verdict_dmodex_done assms(2) split: pvalue.split\<close>)
  moreover have "silent_zero (verdict f (get_remote p rest)) (\<exists>v. served f p (rank_text (nspace p) (prank p) ''remote'') v \<and> ?rem v)"
    unfolding get_remote_def
    by (rule verdict_dmodex_get [OF assms(1,2)])
       (use assms(3) in \<open>auto simp: silent_zero_def verdict_dmodex_done assms(2) split: pvalue.split option.split\<close>)
  moreover have "(\<exists>v. served f p k v \<and> ?loc v) \<longleftrightarrow> served f p k (V_u64 1234) \<and> calm"
    "(\<exists>v. served f p k v \<and> ?rem v) \<longleftrightarrow> served f p k (V_string (Some ''1234'')) \<and> calm" for k
  proof -
    have "?loc v \<longleftrightarrow> v = V_u64 1234 \<and> calm" "?rem v \<longleftrightarrow> v = V_string (Some ''1234'') \<and> calm" for v
      by (cases v; auto split: option.splits)+
    then show "(\<exists>v. served f p k v \<and> ?loc v) \<longleftrightarrow> served f p k (V_u64 1234) \<and> calm"
      "(\<exists>v. served f p k v \<and> ?rem v) \<longleftrightarrow> served f p k (V_string (Some ''1234'')) \<and> calm" by auto
  qed
  ultimately show ?thesis by simp
qed

lemma prank_peer: "prank (peer K me n) = n"
  by (simp add: peer_def)

lemma verdict_dmodex_reads:
  assumes "gives_values f" "status (f (C_Fence [] [])) = PMIX_SUCCESS"
  shows "silent_zero (verdict f (dmodex_reads K me locals rs))
    (\<forall>n \<in> set rs. served_well f me (peer K me n) (is_local_rank me locals n))"
proof (induction rs)
  case Nil
  then show ?case by (simp add: silent_zero_def verdict_dmodex_done assms(2))
next
  case (Cons n rs)
  have "silent_zero (verdict f (if n \<noteq> prank me then get_ghex (peer K me n) (dmodex_reads K me locals rs) else dmodex_reads K me locals rs))
    ((n \<noteq> prank me \<longrightarrow> (\<exists>bs. served f (peer K me n) ''ghex'' (V_bytes bs) \<and> length bs = 128))
      \<and> (\<forall>n \<in> set rs. served_well f me (peer K me n) (is_local_rank me locals n)))"
    using verdict_ghex [OF assms Cons] Cons by simp
  from verdict_scoped [OF assms this, of "is_local_rank me locals n" "peer K me n"]
  show ?case by (simp add: Let_def served_well_def prank_peer conj_assoc)
qed


lemma strtoul_decimal_nat:
  assumes "n < 4294967296"
  shows "strtoul (decimal_nat n) = int n"
proof -
  obtain c cs where c: "decimal_nat n = c # cs" "is_digit_char c"
    using decimal_nat_digits [of n] by (cases "decimal_nat n") auto
  then have "\<not> is_space_char c" "c \<noteq> CHR ''-''" "c \<noteq> CHR ''+''" by (auto simp: is_digit_char_def is_space_char_def)
  then show ?thesis using assms c digits_val_decimal [of n] by (simp add: strtoul_def ulong_max_def Let_def)
qed


definition two_nodes :: "pmix_call \<Rightarrow> answer" where
  "two_nodes c =
     (let ok = reply PMIX_SUCCESS PMIX_SUCCESS []; give = (\<lambda>v. ok\<lparr>found := Some v\<rparr>)
      in case c of
           C_Init xs \<Rightarrow> (give V_undef)\<lparr>procs := Some [first_proc]\<rparr>
         | C_Get p (Some (Attribute k)) xs \<Rightarrow> give (if k = ''PMIX_JOB_SIZE'' then V_u32 2 else V_string (Some ''0''))
         | C_Get p (Some (Key k)) xs \<Rightarrow>
             give (if k = ''ghex'' then V_bytes (replicate 128 CHR 0x00)
                   else if prank p = 0 then V_u64 1234 else V_string (Some ''1234''))
         | _ \<Rightarrow> give V_undef)"


end
