(* ===== verification/SimpleJobs.thy ===== *)
theory SimpleJobs
  imports SimplePrograms
begin

text \<open>
  The rest of the simple programs: simpdyn.c, simptool.c and xnspace.c of src/simple, hello.c and the
  cycle programs of src/prrte. Two compositions with the simple test server: simptool passes, and a job
  of simppub never ends, as the lookups of simptest report that nothing was found.
\<close>

section \<open>simpdyn.c\<close>

text \<open>
  What follows the label \<open>done\<close> starts with a fence and goes back to the label when it fails: \<open>fuel\<close> bounds
  the number of fences.
\<close>

fun simpdyn_done :: "pmix_consts \<Rightarrow> proc \<Rightarrow> nat \<Rightarrow> exit_code prog" where
  "simpdyn_done K me 0 = Fault"
| "simpdyn_done K me (Suc fuel) =
     Call (C_Fence [wild K me] []) (\<lambda>a.
       if status a \<noteq> PMIX_SUCCESS then report ''PMIx_Fence failed'' (simpdyn_done K me fuel) else finish_zero)"

definition gumby :: app where
  "gumby =
     \<lparr>app_cmd = Some ''gumby'', app_argv = [''gumby'', ''-n'', ''2''], app_env = [''PMIX_ENV_VALUE=3''], app_maxprocs = 2,
      app_info = [(Key ''DARTH'', V_i8 12), (Key ''VADER'', V_double (dbl 1234 100))]\<rparr>"

text \<open>Rank 0 goes on with the process of the namespace it has spawned, and its size.\<close>

definition simpdyn_spawn :: "pmix_consts \<Rightarrow> exit_code prog \<Rightarrow> (proc \<Rightarrow> nat \<Rightarrow> string \<Rightarrow> exit_code prog) \<Rightarrow> exit_code prog" where
  "simpdyn_spawn K done rest =
     Call (C_Spawn [] [gumby]) (\<lambda>a. or_done ''PMIx_Spawn failed'' a done
       (let nsp2 = new_name a; p = \<lparr>nspace = take (max_nslen K) nsp2, prank = rank_wildcard K\<rparr>
        in if take (max_nslen K) nsp2 \<noteq> take (max_nslen K) ''DYNSPACE'' then report ''incorrect nspace'' done
           else Call (C_Get p (Some (Attribute ''PMIX_UNIV_SIZE'')) []) (\<lambda>a.
             if status a \<noteq> PMIX_SUCCESS \<or> found a = None then report ''universe size failed'' done
             else (case found a of Some (V_u32 n) \<Rightarrow> rest p (unat n) nsp2 | _ \<Rightarrow> Fault))))"

text \<open>The peers the node has must be those expected; then the nodes are asked for.\<close>

definition simpdyn_resolve :: "string \<Rightarrow> string option \<Rightarrow> nat \<Rightarrow> string \<Rightarrow> exit_code prog \<Rightarrow> exit_code prog" where
  "simpdyn_resolve here space npeers space2 done =
     Call (C_Resolve_peers here space) (\<lambda>a. or_done ''PMIx_Resolve_peers failed'' a done
       (if npeers \<noteq> (case procs a of None \<Rightarrow> 0 | Some ps \<Rightarrow> length ps) then report ''incorrect npeers'' done
        else Call (C_Resolve_nodes space2) (\<lambda>a. or_done ''PMIx_Resolve_nodes failed'' a done done)))"

definition simpdyn_run :: "pmix_consts \<Rightarrow> string \<Rightarrow> proc \<Rightarrow> exit_code prog \<Rightarrow> u32 \<Rightarrow> exit_code prog" where
  "simpdyn_run K here me done size_u =
     (let cycle = (\<lambda>p rest. attempt (C_Connect [p] []) ''PMIx_Connect failed'' done
                     (attempt (C_Disconnect [p]) ''PMIx_Disconnect failed'' done rest))
      in attempt (C_Fence [wild K me] []) ''PMIx_Fence failed'' done
           (if prank me = 0
            then simpdyn_spawn K done (\<lambda>p ntmp nsp2. cycle p (simpdyn_resolve here None (unat size_u + ntmp) nsp2 done))
            else cycle (wild K me) (simpdyn_resolve here (Some (nspace me)) (unat size_u) (nspace me) done)))"

definition simpdyn_main :: "pmix_consts \<Rightarrow> string \<Rightarrow> nat \<Rightarrow> exit_code prog" where
  "simpdyn_main K here fuel =
     init_or [] (\<lambda>_. Exit 0) (\<lambda>me.
       get_count (wild K me) ''PMIX_UNIV_SIZE'' (simpdyn_done K me fuel) (simpdyn_run K here me (simpdyn_done K me fuel)))"

section \<open>simptool.c\<close>

text \<open>
  The messages of the callback of the query. It reads two elements and takes their values for strings
  even when it has found another type: otherwise it faults.
\<close>

definition cbfunc :: "pmix_consts \<Rightarrow> (string \<times> pvalue) list \<Rightarrow> string list option" where
  "cbfunc K info =
     (case info of
        (k0, V_string (Some s0)) # (k1, V_string (Some s1)) # rest \<Rightarrow>
          Some ((if take (max_keylen K) k0 \<noteq> take (max_keylen K) ''foobar'' then [''info[0] key wrong''] else [])
              @ (if take (max_keylen K) k1 \<noteq> take (max_keylen K) ''spastic'' then [''info[1] key wrong''] else [])
              @ (if s0 \<noteq> ''0'' then [''key[0] wrong value''] else [])
              @ (if s1 \<noteq> ''1'' then [''key[1] wrong value''] else []))
      | _ \<Rightarrow> None)"

definition simptool_main :: "pmix_consts \<Rightarrow> exit_code prog" where
  "simptool_main K =
     Call C_Tool_init (\<lambda>a.
       if status a \<noteq> PMIX_SUCCESS then Return (Exit_status (status a))
       else Call (C_Query_nb [[''foobar''], [''spastic'']]) (\<lambda>a. or_done ''PMIx_Query_info failed'' a finish_status
         (case cbfunc K (given a) of None \<Rightarrow> Fault | Some ms \<Rightarrow> foldr report ms finish_status)))"

section \<open>xnspace.c\<close>

text \<open>
  No status is looked at but to choose what is printed. \<open>cwd\<close> is the working directory; the name of the
  spawned namespace is printed and copied to the process that is asked for.
\<close>

definition xnspace_main :: "exit_code prog" where
  "xnspace_main =
     Call (C_Init []) (\<lambda>a.
       (let me = own_proc a; unread = (\<lambda>a. status a = PMIX_SUCCESS \<and> (case found a of Some (V_string s) \<Rightarrow> False | _ \<Rightarrow> True))
        in Call (C_Spawn [] [\<lparr>app_cmd = Some ''/bin/sleep'', app_argv = [''/bin/sleep'', ''60''], app_env = [], app_maxprocs = 1, app_info = []\<rparr>])
             (\<lambda>a. Call (C_Get me (Some (Attribute ''PMIX_HOSTNAME'')) []) (\<lambda>b.
                if unread b then Fault
                else Call (C_Get \<lparr>nspace = new_name a, prank = 0\<rparr> (Some (Attribute ''PMIX_HOSTNAME'')) []) (\<lambda>b.
                  if unread b then Fault else Call C_Finalize (\<lambda>_. Return (Exit 0)))))))"

section \<open>hello.c and the cycle programs\<close>

definition ok_or_1 :: "pmix_call \<Rightarrow> (answer \<Rightarrow> exit_code prog) \<Rightarrow> exit_code prog" where
  "ok_or_1 c rest = Call c (\<lambda>a. if status a \<noteq> PMIX_SUCCESS then Return (Exit 1) else rest a)"

text \<open>\<open>val->data\<close> read as the type the attribute is documented with.\<close>

definition get_or_1 :: "proc \<Rightarrow> string \<Rightarrow> (pvalue \<Rightarrow> bool) \<Rightarrow> exit_code prog \<Rightarrow> exit_code prog" where
  "get_or_1 p k good_value rest =
     ok_or_1 (C_Get p (Some (Attribute k)) []) (\<lambda>a. case found a of None \<Rightarrow> Fault | Some v \<Rightarrow> if good_value v then rest else Fault)"

definition is_u16 :: "pvalue \<Rightarrow> bool" where
  "is_u16 v = (case v of V_u16 n \<Rightarrow> True | _ \<Rightarrow> False)"

definition hello_main :: "pmix_consts \<Rightarrow> exit_code prog" where
  "hello_main K =
     ok_or_1 (C_Init []) (\<lambda>a. (let me = own_proc a
       in get_or_1 (wild K me) ''PMIX_JOB_SIZE'' is_u32
         (get_or_1 (wild K me) ''PMIX_LOCAL_SIZE'' is_u32
         (get_or_1 me ''PMIX_LOCAL_RANK'' is_u16
         (ok_or_1 C_Finalize (\<lambda>_. Return (Exit 0)))))))"

definition init_finalize_main :: "exit_code prog" where
  "init_finalize_main = ok_or_1 (C_Init []) (\<lambda>_. ok_or_1 C_Finalize (\<lambda>_. Return (Exit 0)))"

text \<open>The options of multi_init_finalize_pmix.c; \<open>None\<close> when the number of iterations is missing.\<close>

definition to_lower :: "char \<Rightarrow> char" where
  "to_lower c = (if 65 \<le> (of_char c :: nat) \<and> (of_char c :: nat) \<le> 90 then char_of (of_char c + 32 :: nat) else c)"

fun multi_args :: "string list \<Rightarrow> int \<Rightarrow> bool \<Rightarrow> (int \<times> bool) option" where
  "multi_args [] niters dofence = Some (niters, dofence)"
| "multi_args [arg] niters dofence =
     (if map to_lower (take 6 arg) = ''--iter'' then None
      else Some (niters, dofence \<and> map to_lower arg \<noteq> ''--no-fence''))"
| "multi_args (arg # val # args) niters dofence =
     (if map to_lower (take 6 arg) = ''--iter'' then multi_args args (int32 (strtoul val)) dofence
      else multi_args (val # args) niters (dofence \<and> map to_lower arg \<noteq> ''--no-fence''))"

definition multi_main :: "string list \<Rightarrow> exit_code prog" where
  "multi_main args =
     (case multi_args args 2 True of
        None \<Rightarrow> Fault
      | Some (niters, dofence) \<Rightarrow>
          foldr (\<lambda>n rest. ok_or_1 (C_Init []) (\<lambda>_.
              let finish = ok_or_1 C_Finalize (\<lambda>_. rest)
              in if dofence then ok_or_1 (C_Fence [] []) (\<lambda>_. finish) else finish))
            [0..<nat niters] (Return (Exit 0)))"

section \<open>The loop at the end of simpdyn\<close>

text \<open>A library whose \<open>n\<close>th fence has the status \<open>st n\<close>.\<close>

definition fence_library :: "(nat \<Rightarrow> pmix_status) \<Rightarrow> nat \<Rightarrow> pmix_call \<Rightarrow> (answer \<times> nat) option" where
  "fence_library st n c =
     Some (case c of C_Fence ps xs \<Rightarrow> (reply (st n) (st n) [], n + 1) | _ \<Rightarrow> (reply PMIX_SUCCESS PMIX_SUCCESS [], n))"

lemma simpdyn_done_tries:
  "run_prog (fence_library st) (simpdyn_done K me fuel) n \<noteq> None \<longleftrightarrow> (\<exists>k < fuel. st (n + k) = PMIX_SUCCESS)"
proof (induction fuel arbitrary: n)
  case (Suc fuel)
  have "(\<exists>k < Suc fuel. st (n + k) = PMIX_SUCCESS) \<longleftrightarrow> st n = PMIX_SUCCESS \<or> (\<exists>k < fuel. st (Suc n + k) = PMIX_SUCCESS)"
    using less_Suc_eq_0_disj by auto
  then show ?case
    using Suc [of "Suc n"] by (auto simp: fence_library_def reply_def report_def finish_zero_def)
qed simp

text \<open>
  The end of simpdyn returns (some number of fences is enough) exactly when one of its fences works: it
  runs for ever when they all fail.
\<close>

lemma simpdyn_done_ends:
  "(\<exists>fuel. run_prog (fence_library st) (simpdyn_done K me fuel) n \<noteq> None) \<longleftrightarrow> (\<exists>k. st (n + k) = PMIX_SUCCESS)"
  unfolding simpdyn_done_tries by (auto intro: lessI)

section \<open>simptool and the simple test server\<close>

text \<open>
  C40: simptool passes on simptest. If the library hands the query to \<open>simptest_query_fn\<close> and the tool the
  strings that function reports, simptool has no complaint about keys, types or values and exits with
  the status of \<open>PMIx_Finalize\<close>.
\<close>

theorem simptool_passes:
  assumes "status (f C_Tool_init) = PMIX_SUCCESS" "status (f C_Finalize) = PMIX_SUCCESS"
    and query: "simptest_query_fn K [] [[''foobar''], [''spastic'']] True = Some (PMIX_SUCCESS, [Query_data rc info] :: 'v effect list)"
    and answer: "status (f (C_Query_nb [[''foobar''], [''spastic'']])) = rc"
      "given (f (C_Query_nb [[''foobar''], [''spastic'']])) = map (\<lambda>(k, s). (k, V_string (Some s))) info"
  shows "verdict f (simptool_main K) = (Some (Exit 0, ()), [])"
proof -
  have dec: "decimal 0 = ''0''" "decimal 1 = ''1''" by code_simp+
  have "rc = PMIX_SUCCESS" "info = [(take (max_keylen K) ''foobar'', ''0''), (take (max_keylen K) ''spastic'', ''1'')]"
    using query dec by (auto simp: simptest_query_fn_def split: option.splits)
  then have "cbfunc K (given (f (C_Query_nb [[''foobar''], [''spastic'']]))) = Some []"
    using answer by (simp add: cbfunc_def)
  then show ?thesis
    using assms(1,2) answer(1) \<open>rc = PMIX_SUCCESS\<close>
    by (simp add: simptool_main_def verdict_call or_done_def finish_status_def)
qed

definition tool_library :: "pmix_call \<Rightarrow> answer" where
  "tool_library c =
     (let ok = reply PMIX_SUCCESS PMIX_SUCCESS []
      in case c of C_Query_nb qs \<Rightarrow> ok\<lparr>given := [(''foobar'', V_string (Some ''0'')), (''spastic'', V_string (Some ''1''))]\<rparr> | _ \<Rightarrow> ok)"

theorem simptool_passes_witness:
  "verdict tool_library (simptool_main sample_consts) = (Some (Exit 0, ()), [])"
proof (rule simptool_passes)
  show "simptest_query_fn sample_consts [] [[''foobar''], [''spastic'']] True =
      Some (PMIX_SUCCESS, [Query_data PMIX_SUCCESS [(''foobar'', ''0''), (''spastic'', ''1'')]] :: unit effect list)"
    by code_simp
qed (simp_all add: tool_library_def reply_def)

section \<open>A job of simppub\<close>

text \<open>
  Counting fences: on answers that satisfy \<open>ok\<close>, all fences of the program are those of \<open>ps\<close> and there are
  at most \<open>m\<close> of them; or it cannot return or fault before it has made \<open>m\<close> of them.
\<close>

primrec at_most :: "proc list \<Rightarrow> (pmix_call \<Rightarrow> answer \<Rightarrow> bool) \<Rightarrow> 'a prog \<Rightarrow> nat \<Rightarrow> bool" where
  "at_most ps ok (Return x) = (\<lambda>m. True)"
| "at_most ps ok Fault = (\<lambda>m. True)"
| "at_most ps ok (Call c k) = (\<lambda>m.
     case fence_of_call (Call c k) of
       None \<Rightarrow> \<forall>a. ok c a \<longrightarrow> at_most ps ok (k a) m
     | Some qs \<Rightarrow> qs = ps \<and> 0 < m \<and> (\<forall>a. ok c a \<longrightarrow> at_most ps ok (k a) (m - 1)))"

primrec needed :: "proc list \<Rightarrow> (pmix_call \<Rightarrow> answer \<Rightarrow> bool) \<Rightarrow> 'a prog \<Rightarrow> nat \<Rightarrow> bool" where
  "needed ps ok (Return x) = (\<lambda>m. m = 0)"
| "needed ps ok Fault = (\<lambda>m. m = 0)"
| "needed ps ok (Call c k) = (\<lambda>m. m = 0 \<or>
     (case fence_of_call (Call c k) of
       None \<Rightarrow> \<forall>a. ok c a \<longrightarrow> needed ps ok (k a) m
     | Some qs \<Rightarrow> qs = ps \<and> (\<forall>a. ok c a \<longrightarrow> needed ps ok (k a) (m - 1))))"

lemma needed_0 [simp]: "needed ps ok p 0"
  by (cases p) simp_all

text \<open>
  Two processes of the namespace, one of which makes fewer fences than the other one needs: as their
  fences are the same, each step of one takes place with the other.
\<close>

lemma fewer_fences_step:
  assumes step: "job_step K P L (pr, w) (pr', w')" and ends: "r \<in> P" "q \<in> P" "nspace q = nspace r" "ps = [wild K r]" "length (nspace r) \<le> max_nslen K"
    and inv: "needed ps (\<lambda>c a. \<exists>w. L w r c a) (pr r) (Suc m)" "at_most ps (\<lambda>c a. \<exists>w. L w q c a) (pr q) m" "r \<noteq> q"
  shows "\<exists>m. needed ps (\<lambda>c a. \<exists>w. L w r c a) (pr' r) (Suc m) \<and> at_most ps (\<lambda>c a. \<exists>w. L w q c a) (pr' q) m"
  using step
proof (cases rule: job_stepE)
  case (own i prs c w1 a)
  have n: "needed ps (\<lambda>c a. \<exists>w. L w r c a) (answered (pr r) a) (Suc m)" if "i = r"
    using inv(1) own that by (cases "pr r") (auto simp: next_call_def)
  have m: "at_most ps (\<lambda>c a. \<exists>w. L w q c a) (answered (pr q) a) m" if "i = q"
    using inv(2) own that by (cases "pr q") (auto simp: next_call_def)
  show ?thesis using own inv n m by (intro exI [of _ m]) auto
next
  case (all qs prs w1 as)
  have both: "r \<in> members K ps P" "q \<in> members K ps P"
    using ends by (auto simp: members_def in_fence_def wild_def)
  have r: "qs = ps \<and> 0 < m" if "q \<in> members K qs P"
    using all that inv(2) by (cases "pr q") (auto simp: fence_of_call_def split: pmix_call.splits)
  have q: "qs = ps" if "r \<in> members K qs P"
    using all that inv(1) by (cases "pr r") (auto simp: fence_of_call_def split: pmix_call.splits)
  show ?thesis
  proof (cases "qs = ps")
    case True
    then have fq: "fence_of_call (pr q) = Some ps \<and> L w q (the (next_call (pr q))) (as q)"
      and fr: "fence_of_call (pr r) = Some ps \<and> L w r (the (next_call (pr r))) (as r)" using all both by auto
    have "needed ps (\<lambda>c a. \<exists>w. L w r c a) (answered (pr r) (as r)) m"
      using inv(1) fr by (cases "pr r") auto
    moreover have "0 < m \<and> at_most ps (\<lambda>c a. \<exists>w. L w q c a) (answered (pr q) (as q)) (m - 1)"
      using inv(2) fq by (cases "pr q") auto
    ultimately show ?thesis using all both True by (intro exI [of _ "m - 1"]) auto
  next
    case False
    then show ?thesis using r q all inv by (intro exI [of _ m]) auto
  qed
qed

text \<open>
  simptest behind the library: initialization gives every process its name, the size of the universe is a
  number, fences and publishing work, and a lookup gets the status \<open>simptest_lookup_fn\<close> reports.
\<close>

definition simptest_job :: "pmix_consts \<Rightarrow> proc set \<Rightarrow> pmix_library \<Rightarrow> bool" where
  "simptest_job K P L \<longleftrightarrow>
     (\<forall>w i xs a. i \<in> P \<longrightarrow> L w i (C_Init xs) a \<longrightarrow> status a = PMIX_SUCCESS \<and> own_proc a = i)
   \<and> (\<forall>w i p xs a. L w i (C_Get p (Some (Attribute ''PMIX_UNIV_SIZE'')) xs) a \<longrightarrow>
        status a = PMIX_SUCCESS \<and> (\<exists>n. found a = Some (V_u32 n)))
   \<and> (\<forall>w i ps xs a. L w i (C_Fence ps xs) a \<longrightarrow> status a = PMIX_SUCCESS)
   \<and> (\<forall>w i xs a. L w i (C_Publish xs) a \<longrightarrow> status a = PMIX_SUCCESS)
   \<and> (\<forall>w i ks a. L w i (C_Lookup ks) a \<longrightarrow>
        (\<exists>s pd. simptest_lookup_fn K (\<lambda>v :: pvalue. v) ks True s = (PMIX_SUCCESS, [Lookup_data (status a) pd])))"

lemma fence_of_others [simp]:
  "fence_of_call (Call (C_Init xs) k) = None" "fence_of_call (Call (C_Report s) k) = None"
  "fence_of_call (Call C_Finalize k) = None" "fence_of_call (Call (C_Lookup ks) k) = None"
  "fence_of_call (Call (C_Publish xs) k) = None" "fence_of_call (Call (C_Unpublish ks) k) = None"
  by (simp_all add: fence_of_call_def)

lemma simppub_lookup_status:
  "simptest_job K P L \<Longrightarrow> L w i (C_Lookup ks) a \<Longrightarrow> status a = PMIX_ERR_NOT_FOUND"
  unfolding simptest_job_def simptest_lookup_fn_def when_set_def Let_def by fastforce

lemma simppub_others:
  assumes "simptest_job K P L" "q \<in> P" "prank q \<noteq> 0"
  shows "at_most [wild K q] (\<lambda>c a. \<exists>w. L w q c a) (simppub_main K) 2"
proof -
  have look: "status a = PMIX_ERR_NOT_FOUND" if "L w q (C_Lookup ks) a" for w ks a
    using simppub_lookup_status [OF assms(1) that] .
  have init: "status a = PMIX_SUCCESS \<and> own_proc a = q" if "L w q (C_Init xs) a" for w xs a
    using conjunct1 [OF assms(1) [unfolded simptest_job_def]] assms(2) that by simp
  show ?thesis
    using assms(3) look init
    by (auto simp: simppub_main_def init_or_def get_count_def or_done_def report_def simppub_run_def simppub_lookup_def
        attempt_def finish_zero_def Let_def split: option.split pvalue.split)
qed

lemma simppub_first:
  assumes "simptest_job K P L" "r \<in> P" "prank r = 0"
  shows "needed [wild K r] (\<lambda>c a. \<exists>w. L w r c a) (simppub_main K) 3"
proof -
  have init: "status a = PMIX_SUCCESS \<and> own_proc a = r" if "L w r (C_Init xs) a" for w xs a
    using conjunct1 [OF assms(1) [unfolded simptest_job_def]] assms(2) that by simp
  have get: "status a = PMIX_SUCCESS \<and> (\<exists>n. found a = Some (V_u32 n))"
    if "L w r (C_Get p (Some (Attribute ''PMIX_UNIV_SIZE'')) xs) a" for w p xs a
    using conjunct1 [OF conjunct2 [OF assms(1) [unfolded simptest_job_def]]] that by metis
  have ok: "L w r (C_Fence ps xs) a \<Longrightarrow> status a = PMIX_SUCCESS" "L w r (C_Publish xs) a \<Longrightarrow> status a = PMIX_SUCCESS" for w a ps xs
    using assms(1) unfolding simptest_job_def by simp_all
  have "needed [wild K r] (\<lambda>c a. \<exists>w. L w r c a) (simppub_run K r) 3"
    using assms(3) ok by (auto simp: simppub_run_def attempt_def or_done_def Let_def numeral_3_eq_3)
  then have "needed [wild K r] (\<lambda>c a. \<exists>w. L w r c a) (get_count (wild K r) ''PMIX_UNIV_SIZE'' finish_zero (\<lambda>_. simppub_run K r)) 3"
    using get by (force simp: get_count_def or_done_def)
  then show ?thesis using init by (auto simp: simppub_main_def init_or_def)
qed

text \<open>
  C25: simppub never ends on simptest. In a job with a process of rank 0 and another one, rank 0 never
  returns: the other process stops after the lookup, because simptest reports that nothing was found, and
  makes no more fences. A job that cannot go on has rank 0 waiting at a fence.
\<close>

theorem simppub_waits_for_ever:
  assumes job: "simptest_job K P L" and procs: "r \<in> P" "q \<in> P" "prank r = 0" "prank q \<noteq> 0" "nspace q = nspace r"
      "length (nspace r) \<le> max_nslen K"
    and run: "(job_step K P L)\<^sup>*\<^sup>* (\<lambda>_. simppub_main K, w0) (pr, w)"
  shows "pr r \<noteq> Return x \<and> pr r \<noteq> Fault
    \<and> (responsive L \<longrightarrow> (\<nexists>t. job_step K P L (pr, w) t) \<longrightarrow> fence_of_call (pr r) = Some [wild K r])"
proof -
  have "wild K q = wild K r" using procs(5) by (simp add: wild_def)
  then have "needed [wild K r] (\<lambda>c a. \<exists>w. L w r c a) (simppub_main K) (Suc 2)"
      "at_most [wild K r] (\<lambda>c a. \<exists>w. L w q c a) (simppub_main K) 2"
    using simppub_first [OF job procs(1,3)] simppub_others [OF job procs(2,4)] by (simp_all add: numeral_3_eq_3 numeral_2_eq_2)
  then have start: "\<exists>m. needed [wild K r] (\<lambda>c a. \<exists>w. L w r c a) (fst (\<lambda>_. simppub_main K, w0) r) (Suc m) \<and>
      at_most [wild K r] (\<lambda>c a. \<exists>w. L w q c a) (fst (\<lambda>_. simppub_main K, w0) q) m" by (intro exI [of _ 2]) simp
  have "\<exists>m. needed [wild K r] (\<lambda>c a. \<exists>w. L w r c a) (fst t r) (Suc m) \<and> at_most [wild K r] (\<lambda>c a. \<exists>w. L w q c a) (fst t q) m"
    if "(job_step K P L)\<^sup>*\<^sup>* (\<lambda>_. simppub_main K, w0) t" for t
    using that
  proof (induction rule: rtranclp_induct)
    case (step s t)
    obtain pr1 w1 pr2 w2 where st: "s = (pr1, w1)" "t = (pr2, w2)" by (cases s, cases t)
    have "r \<noteq> q" using procs(3,4) by auto
    then show ?case
      using step fewer_fences_step [of K P L pr1 w1 pr2 w2 r q "[wild K r]"] procs st by auto
  qed (use start in auto)
  then obtain m where m: "needed [wild K r] (\<lambda>c a. \<exists>w. L w r c a) (pr r) (Suc m)" using run by fastforce
  have "fence_of_call (pr r) = Some [wild K r]" if live: "responsive L" and stuck: "\<nexists>t. job_step K P L (pr, w) t"
  proof (cases "fence_of_call (pr r)")
    case None
    obtain c k where c: "pr r = Call c k" using m by (cases "pr r") auto
    obtain a where "L w r c a" using live unfolding responsive_def by blast
    then have "job_step K P L (pr, w) (pr(r := answered (pr r) a), record_call r c w)"
      using None c procs(1) by (intro job_step.own) simp_all
    then show ?thesis using stuck by blast
  next
    case (Some qs)
    then show ?thesis using m by (cases "pr r") auto
  qed
  then show ?thesis using m by auto
qed

definition simptest_library :: pmix_library where
  "simptest_library w i c a \<longleftrightarrow>
     (let ok = reply PMIX_SUCCESS PMIX_SUCCESS []
      in a = (case c of
                C_Init xs \<Rightarrow> ok\<lparr>procs := Some [i]\<rparr>
              | C_Get p k xs \<Rightarrow> ok\<lparr>found := Some (V_u32 2)\<rparr>
              | C_Lookup ks \<Rightarrow> ok\<lparr>status := PMIX_ERR_NOT_FOUND\<rparr>
              | _ \<Rightarrow> ok))"

lemma simptest_library_job: "simptest_job K P simptest_library"
  unfolding simptest_job_def simptest_library_def
  by (auto simp: reply_def own_proc_def simptest_lookup_fn_def when_set_def Let_def)

definition pub_procs :: "proc set" where
  "pub_procs = {\<lparr>nspace = ''simptest'', prank = 0\<rparr>, \<lparr>nspace = ''simptest'', prank = 1\<rparr>}"

theorem simppub_waits_for_ever_witness:
  "\<exists>pr w. (job_step sample_consts pub_procs simptest_library)\<^sup>*\<^sup>* (\<lambda>_. simppub_main sample_consts, empty_history) (pr, w)
     \<and> (\<nexists>t. job_step sample_consts pub_procs simptest_library (pr, w) t)
     \<and> fence_of_call (pr \<lparr>nspace = ''simptest'', prank = 0\<rparr>) = Some [wild sample_consts \<lparr>nspace = ''simptest'', prank = 0\<rparr>]"
proof -
  let ?r = "\<lparr>nspace = ''simptest'', prank = 0\<rparr> :: proc" and ?q = "\<lparr>nspace = ''simptest'', prank = 1\<rparr> :: proc"
  have "finite pub_procs" by (simp add: pub_procs_def)
  from job_settles [OF this, of sample_consts simptest_library "(\<lambda>_. simppub_main sample_consts, empty_history)"]
  obtain pr w where t: "(job_step sample_consts pub_procs simptest_library)\<^sup>*\<^sup>* (\<lambda>_. simppub_main sample_consts, empty_history) (pr, w)"
      "\<nexists>t. job_step sample_consts pub_procs simptest_library (pr, w) t" by (metis surj_pair)
  have "responsive simptest_library" by (simp add: responsive_def simptest_library_def Let_def)
  moreover have "length (nspace ?r) \<le> max_nslen sample_consts" by code_simp
  ultimately have "fence_of_call (pr ?r) = Some [wild sample_consts ?r]"
    using simppub_waits_for_ever [OF simptest_library_job _ _ _ _ _ _ t(1), of ?r ?q] t(2) by (simp add: pub_procs_def)
  then show ?thesis using t by blast
qed

end
