(* ===== verification/Spec2Isabelle.thy ===== *)
theory Spec2Isabelle
  imports Argv UnitList PmixObject CliStages Callbacks ClientArgv Server Launch ProgressThreads SimpServer SimpRun Pmi Pmi2 TcFilter Finish ClientMain SimpleJobs
begin

text \<open>
  A verification development for the test programs of the PMIx library. The repository has two
  test servers and the clients they start. The harness under src/unit (main program pmix_test.c)
  emulates the daemons of a parallel job: it forks one server per emulated node, each server starts
  its share of the client processes, keeps a table of them, answers the requests the PMIx server
  library passes on through the callbacks of server_callbacks.c, and talks to the other servers over
  pipes. It rests on its own small runtime: argument vectors (argv.c), an object system
  (pmix_object.c), an intrusive list (unit_list.c) and progress threads (unit_progress_threads.c).
  src/simple/simptest.c is a second, single-node server in one file. pmi_client.c and pmi2_client.c
  test the PMI-1 and PMI-2 interfaces. src/prrte/debug/tcfilter.c normalizes the output of the
  tests of the debugger interface. The clients are programs over the PMIx client library: pmix_client.c
  with its tests for the harness, simpclient.c and others for simptest. The PMIx library itself is not
  in the repository.

  \<^bold>\<open>Conventions.\<close> A \<open>char *\<close> that may be NULL is a \<open>string option\<close>, integers have the width of the
  code (\<open>32 word\<close>, \<open>64 word\<close>) or are integers with the conversion \<open>int32\<close> written out. A result
  \<open>None\<close> is the C program not getting past a call: undefined behaviour, a failed \<open>assert\<close>, \<open>abort\<close> or
  a loop that never ends; each theory says which. The allocator is a list of outcomes (Prelude): the
  empty list is a machine with enough memory. What is not in the repository is a parameter: the
  functions of the PMIx and PMI libraries, \<open>pmix_strncpy\<close>, \<open>regexec\<close>, the answers of the operating
  system (\<open>fork\<close>, \<open>waitpid\<close>, \<open>pthread_create\<close>, pipes), environment and random numbers.

  \<^bold>\<open>Theories.\<close>

  \<^item> \<open>Prelude\<close>: status codes, C integers, names of the PMIx headers, the allocator, lemmas on lists, and
    the locale \<open>step_relation\<close>, by which an invariant and a preorder that every step of a state
    machine keeps hold along every run; interpreted in CliStages, Server, SimpRun and TcFilter.
  \<^item> \<open>Argv\<close>: argv.c. Each function on the array of cells, its in-place loops and its allocations
    included; specifications of deletion, insertion and of \<open>join_range\<close>; splitting equals the list
    of fields and inverts joining. The locale \<open>string_array\<close> is what the callers use.
  \<^item> \<open>UnitList\<close>: unit_list.h and unit_list.c on an explicit heap (one function per struct field).
    \<open>dll h l xs\<close> says that the list \<open>l\<close> represents the HOL list \<open>xs\<close>; every operation is proved to
    implement its list operation and to leave other lists alone. The locale \<open>object_list\<close> is the
    interface, interpreted on the heap.
  \<^item> \<open>PmixObject\<close>: pmix_object.h and pmix_object.c: lazy class initialization, the arrays of
    constructors and destructors, reference counts, the epochs of \<open>pmix_class_finalize\<close>.
  \<^item> \<open>CliStages\<close>: cli_stages.c: the table of clients, its operations and signal handler as a step
    relation \<open>cli_step\<close>; the invariant \<open>table_ok\<close>, progress of the stages, and the end of waiting.
  \<^item> \<open>Callbacks\<close>: server_callbacks.c: connect, finalize, abort, publish, lookup, unpublish, spawn.
    The published data lives on a pointer list; the locale \<open>publish_service\<close> is its contract as a
    map, implemented by the pointer operations.
  \<^item> \<open>CString\<close>, \<open>Parsing\<close>: \<open>strtol\<close>, \<open>strtok\<close>, \<open>%d\<close> and the option parsers of test_common.c
    (\<open>parse_fence\<close>, \<open>parse_noise\<close>, \<open>parse_replace\<close>, the readers of \<open>--ns-dist\<close>): a printer of the
    documented form is inverted by the parser.
  \<^item> \<open>ClientArgv\<close>: \<open>parse_cmd\<close> (test_common.c), \<open>set_client_argv\<close> (utils.c) and the arguments of the
    launch loop: the accepted parameters are well-formed, and a client reads back what the server
    was given.
  \<^item> \<open>Wire\<close>: the byte formats of the messages (test_server.c): the table of processes packed and
    unpacked, the request for data. The locale \<open>codec\<close> is an encoding that can be read back in front
    of any bytes; it is interpreted on the formats of integers, sizes and names.
  \<^item> \<open>Server\<close>: \<open>server_read_cb\<close> and the functions that send (test_server.c), \<open>fencenb_fn\<close> and
    \<open>dmodex_fn\<close> (server_callbacks.c), composed into a network of \<open>n\<close> servers with the step relation
    \<open>net_step\<close>: barriers are safe under every interleaving, the exchange of tables and a request for
    data across servers end with the right effects.
  \<^item> \<open>Launch\<close>: \<open>set_namespace\<close>, \<open>fill_seq_ranks_array\<close>, \<open>server_launch_clients\<close> and the division of the
    processes in \<open>main\<close> of pmix_test.c, composed with Wire.
  \<^item> \<open>Finish\<close>: \<open>wait_signal_callback\<close>, \<open>srv_wait_all\<close>, \<open>server_finalize\<close> (test_server.c) and \<open>main\<close> of
    pmix_test.c after the launch: what a run that returns 0 has seen, under every interleaving of the
    main thread with the handlers.
  \<^item> \<open>ProgressThreads\<close>: unit_progress_threads.c with the threads of test_common.c.
  \<^item> \<open>SimpServer\<close>, \<open>SimpRun\<close>: simptest.c and progress_thread.c: the options, all functions of the
    server module; the main program and the SIGCHLD handler as interleaved steps \<open>run_step\<close>.
  \<^item> \<open>Pmi\<close>, \<open>Pmi2\<close>: pmi_client.c and pmi2_client.c: every test item as a function of the library (a
    record of functions) and of the static variables. The laws of the library are \<open>kvs_laws\<close> and
    \<open>kvs2_laws\<close>; each is shown to hold for a key-value space in memory.
  \<^item> \<open>Clients\<close>: programs over the client library as trees of calls (\<open>prog\<close>), the macros of
    test_common.h the tests are made of, and jobs: all the processes with the library as a relation, in
    every interleaving (\<open>job_step\<close>), which always end.
  \<^item> \<open>FenceTest\<close>, \<open>JobFence\<close>: test_fence.c: the fence test passes on every process of a job and never
    blocks; what the job fence test accepts; the local peers are those the server registered.
  \<^item> \<open>ClientTests\<close>, \<open>ClientMain\<close>: test_publish.c, test_spawn.c, test_cd.c, test_resolve_peers.c,
    test_replace.c, test_internal.c, test_error.c and pmix_client.c. The publish test is composed with
    the handlers of Callbacks; what an exit code of 0 says of a client.
  \<^item> \<open>SimpleClients\<close>, \<open>SimplePrograms\<close>: the clients of src/simple and programs of src/prrte.
  \<^item> \<open>TcFilter\<close>: tcfilter.c: buffers, the table of names, the rules in their order, the scan loop and
    the main program; \<open>filter_step\<close> are the steps every run consists of.

  \<^bold>\<open>Loops.\<close> Loops over data are structural recursions. The loops that may run for ever (counting or
  sorting a pointer list, \<open>rescan\<close>, waiting for clients) are \<open>partial_function (option)\<close> or steps of a
  relation, and that they end is proved where a theorem says so. No fuel is used, but for the number
  of fences of item 10 of pmi2_client.c, which is 5 in the code.

  \<^bold>\<open>Not modelled.\<close> Messages on stdout and stderr, but for those of the simple clients that say how
  a check came out. The helper src/prrte/debug/test-utils.c, src/prrte/manystress and src/multibeat.
  src/unit/pmix_regex.c, which prints results of the library. The mutexes of pmix_object.h and the
  event loop of a progress thread. The scripts, the Python programs under src/check-standard,
  src/crossversion and src/python, and the configuration macros under src/unit/config are not part
  of the C programs.
\<close>

end
